(* ===== verification/Prelude.thy ===== *)
theory Prelude
  imports Main "HOL-Library.Signed_Division" "HOL-Library.Monad_Syntax"
begin

text \<open>
  Shared vocabulary of the development.

  \<^item> \<open>cpp_error\<close> names the ways a C++ operation can leave the normal path: undefined behaviour
    (an access outside an array, \<open>front()\<close> of an empty list, a division by zero), a call of
    \<open>exit\<close> or a return from \<open>main\<close>, a thrown \<open>std::exception\<close>, and a failed \<open>assert\<close>.
  \<^item> \<open>load\<close> and \<open>store\<close> are checked array accesses; an index outside the array gives
    \<open>None\<close>, which stands for undefined behaviour wherever it occurs.
  \<^item> \<open>cnt\<close> counts the threads of a list of program counters that satisfy a predicate; its
    update law carries the counting arguments of the interleaving models.
  \<^item> The collection \<open>array_simps\<close> holds the access laws.
\<close>

named_theorems array_simps "laws of the checked array accesses"
named_theorems cnt_simps "laws of the thread counter"

datatype cpp_error = UndefinedBehaviour | ExitCall int | StdException | AssertionFailed

section \<open>Checked array accesses\<close>

definition load :: "'a list \<Rightarrow> int \<Rightarrow> 'a option" where
  "load xs i = (if 0 \<le> i \<and> i < int (length xs) then Some (xs ! nat i) else None)"

definition store :: "'a list \<Rightarrow> int \<Rightarrow> 'a \<Rightarrow> 'a list option" where
  "store xs i v = (if 0 \<le> i \<and> i < int (length xs) then Some (xs[nat i := v]) else None)"

lemma load_in [array_simps]: "0 \<le> i \<Longrightarrow> i < int (length xs) \<Longrightarrow> load xs i = Some (xs ! nat i)"
  by (simp add: load_def)

lemma store_in [array_simps]:
  "0 \<le> i \<Longrightarrow> i < int (length xs) \<Longrightarrow> store xs i v = Some (xs[nat i := v])"
  by (simp add: store_def)

lemma load_nat [array_simps]: "n < length xs \<Longrightarrow> load xs (int n) = Some (xs ! n)"
  by (simp add: load_def)

lemma store_nat [array_simps]: "n < length xs \<Longrightarrow> store xs (int n) v = Some (xs[n := v])"
  by (simp add: store_def)

lemma load_None_iff: "load xs i = None \<longleftrightarrow> i < 0 \<or> int (length xs) \<le> i"
  by (auto simp: load_def)

lemma store_None_iff: "store xs i v = None \<longleftrightarrow> i < 0 \<or> int (length xs) \<le> i"
  by (auto simp: store_def)

lemma store_length: "store xs i v = Some ys \<Longrightarrow> length ys = length xs"
  by (auto simp: store_def split: if_splits)

text \<open>The same accesses at an index that is known not to be negative.\<close>

definition peek :: "'a list \<Rightarrow> nat \<Rightarrow> 'a option" where
  "peek xs n = (if n < length xs then Some (xs ! n) else None)"

definition poke :: "'a list \<Rightarrow> nat \<Rightarrow> 'a \<Rightarrow> 'a list option" where
  "poke xs n v = (if n < length xs then Some (xs[n := v]) else None)"

lemma peek_in [simp, array_simps]: "n < length xs \<Longrightarrow> peek xs n = Some (xs ! n)"
  by (simp add: peek_def)

lemma poke_in [simp, array_simps]: "n < length xs \<Longrightarrow> poke xs n v = Some (xs[n := v])"
  by (simp add: poke_def)

lemma peek_drop: "drop p xs = y # ys \<Longrightarrow> peek xs p = Some y"
  by (metis Cons_nth_drop_Suc drop_all leI list.discI list.inject peek_in)

lemma drop_update_before [simp]: "n < p \<Longrightarrow> drop p (xs[n := v]) = drop p xs"
  by (simp add: drop_update_cancel)

lemma drop_update_after: "p \<le> n \<Longrightarrow> drop p (xs[n := v]) = (drop p xs)[n - p := v]"
  by (simp add: drop_update_swap)

lemma take_append_split: "take n (d @ e) = take n d @ take (n - length (take n d)) (drop n d @ e)"
  by (cases "n \<le> length d") auto

section \<open>Integer remainders as C++ computes them\<close>

text \<open>
  C++ rounds integer division towards zero. On the non-negative operands of the ring indices
  this is the ordinary remainder.
\<close>

lemma smod_nonneg [simp]: "0 \<le> a \<Longrightarrow> 0 < b \<Longrightarrow> (a::int) smod b = a mod b"
  by (cases "a = 0") (simp_all add: signed_modulo_int_def signed_divide_int_def minus_div_mult_eq_mod)

lemma sdiv_nonneg [simp]: "0 \<le> a \<Longrightarrow> 0 < b \<Longrightarrow> (a::int) sdiv b = a div b"
  by (cases "a = 0") (simp_all add: signed_divide_int_def)

lemma mod_above_minus_one [simp]: "0 < n \<Longrightarrow> -1 \<le> a mod (n::int)"
  using pos_mod_sign [of n a] by linarith

text \<open>Passing an \<open>int\<close> where a \<open>size_t\<close> is expected.\<close>

definition to_size_t :: "int \<Rightarrow> int" where
  "to_size_t n = n mod 2 ^ 64"

lemma to_size_t_small [simp]: "0 \<le> n \<Longrightarrow> n < 2 ^ 64 \<Longrightarrow> to_size_t n = n"
  by (simp add: to_size_t_def)

text \<open>Distinct offsets of less than one turn reach distinct slots of a ring.\<close>

lemma ring_offset_inj:
  fixes f n :: int
  assumes "0 \<le> i" "i < n" "0 \<le> j" "j < n" "(f + i) mod n = (f + j) mod n"
  shows "i = j"
proof -
  have "(f + i - f) mod n = (f + j - f) mod n"
    using assms(5) by (metis mod_diff_left_eq)
  then show ?thesis using assms(1-4) by simp
qed

section \<open>Counting threads\<close>

definition cnt :: "('a \<Rightarrow> bool) \<Rightarrow> 'a list \<Rightarrow> int" where
  "cnt P xs = int (length (filter P xs))"

lemma cnt_Nil [simp]: "cnt P [] = 0"
  by (simp add: cnt_def)

lemma cnt_Cons [simp]: "cnt P (x # xs) = (if P x then 1 else 0) + cnt P xs"
  by (simp add: cnt_def)

lemma cnt_nonneg [simp]: "0 \<le> cnt P xs"
  by (simp add: cnt_def)

lemma cnt_le_length: "cnt P xs \<le> int (length xs)"
  by (simp add: cnt_def)

lemma cnt_replicate [simp]: "cnt P (replicate n x) = (if P x then int n else 0)"
  by (induction n) auto

lemma cnt_append [simp]: "cnt P (xs @ ys) = cnt P xs + cnt P ys"
  by (simp add: cnt_def)

lemma cnt_update [cnt_simps]:
  "i < length xs \<Longrightarrow>
   cnt P (xs[i := v]) = cnt P xs - (if P (xs ! i) then 1 else 0) + (if P v then 1 else 0)"
proof (induction xs arbitrary: i)
  case Nil
  then show ?case by simp
next
  case (Cons x xs)
  then show ?case by (cases i) auto
qed

lemma cnt_pos: "i < length xs \<Longrightarrow> P (xs ! i) \<Longrightarrow> 1 \<le> cnt P xs"
proof (induction xs arbitrary: i)
  case Nil
  then show ?case by simp
next
  case (Cons x xs)
  show ?case
  proof (cases i)
    case 0
    then show ?thesis using Cons.prems cnt_nonneg [of P xs] by simp
  next
    case (Suc j)
    then have "1 \<le> cnt P xs" using Cons by simp
    then show ?thesis by simp
  qed
qed

lemma cnt_zero_iff: "cnt P xs = 0 \<longleftrightarrow> (\<forall>x \<in> set xs. \<not> P x)"
  by (auto simp: cnt_def filter_empty_conv)

end
