(* ===== verification/Fifo.thy ===== *)
theory Fifo
  imports Prelude
begin

text \<open>
  The queue interface that the repository's queues share. Three classes hold one: the ring
  buffer \<open>block_queue\<close>, the request list of \<open>threadpool\<close> and the \<open>TaskQueue\<close> of the
  growing thread pool. A provider gives a refusable \<open>enq\<close>, a \<open>deq\<close> and the list it
  represents; the client lemma \<open>fifo_run_conserves\<close> is proved once for every provider.
\<close>

datatype 'a queue_call = Enq 'a | Deq

text \<open>
  A run makes a sequence of calls and records, in order, the values the queue accepted and the
  values it handed out. A refused insertion and a removal from an empty queue leave it as it was.
\<close>

fun fifo_run ::
  "('a \<Rightarrow> 'q \<Rightarrow> 'q option) \<Rightarrow> ('q \<Rightarrow> ('a \<times> 'q) option) \<Rightarrow> 'a queue_call list \<Rightarrow> 'q
   \<Rightarrow> 'a list \<times> 'a list \<times> 'q" where
  "fifo_run enq deq [] q = ([], [], q)"
| "fifo_run enq deq (Enq x # cs) q =
     (case enq x q of
        None \<Rightarrow> fifo_run enq deq cs q
      | Some q' \<Rightarrow> (case fifo_run enq deq cs q' of (a, d, r) \<Rightarrow> (x # a, d, r)))"
| "fifo_run enq deq (Deq # cs) q =
     (case deq q of
        None \<Rightarrow> fifo_run enq deq cs q
      | Some (x, q') \<Rightarrow> (case fifo_run enq deq cs q' of (a, d, r) \<Rightarrow> (a, x # d, r)))"

locale fifo =
  fixes enq :: "'a \<Rightarrow> 'q \<Rightarrow> 'q option"
    and deq :: "'q \<Rightarrow> ('a \<times> 'q) option"
    and contents :: "'q \<Rightarrow> 'a list"
    and invar :: "'q \<Rightarrow> bool"
    and room :: "'q \<Rightarrow> bool"
  assumes enq_room: "invar q \<Longrightarrow> room q \<Longrightarrow>
      \<exists>q'. enq x q = Some q' \<and> invar q' \<and> contents q' = contents q @ [x]"
    and enq_full: "invar q \<Longrightarrow> \<not> room q \<Longrightarrow> enq x q = None"
    and deq_Nil: "invar q \<Longrightarrow> contents q = [] \<Longrightarrow> deq q = None"
    and deq_Cons: "invar q \<Longrightarrow> contents q = x # xs \<Longrightarrow>
      \<exists>q'. deq q = Some (x, q') \<and> invar q' \<and> contents q' = xs"
begin

lemma enq_Some:
  assumes "invar q" "enq x q = Some q'"
  shows "invar q' \<and> contents q' = contents q @ [x]"
  using assms enq_room [of q x] enq_full [of q x] by (cases "room q") auto

lemma deq_Some:
  assumes "invar q" "deq q = Some (x, q')"
  shows "invar q' \<and> contents q = x # contents q'"
proof (cases "contents q")
  case Nil
  with assms deq_Nil show ?thesis by simp
next
  case (Cons y ys)
  with assms deq_Cons show ?thesis by fastforce
qed

text \<open>
  Whatever calls are made, in whatever order: what was there and what was accepted comes out in
  the same order, and what has not come out is still there.
\<close>

lemma fifo_run_conserves:
  "invar q \<Longrightarrow> fifo_run enq deq cs q = (a, d, r) \<Longrightarrow> invar r \<and> contents q @ a = d @ contents r"
proof (induction cs arbitrary: q a d)
  case Nil
  then show ?case by simp
next
  case (Cons c cs)
  show ?case
  proof (cases c)
    case (Enq x)
    show ?thesis
    proof (cases "enq x q")
      case None
      with Enq Cons.prems have "fifo_run enq deq cs q = (a, d, r)" by simp
      with Cons.IH Cons.prems(1) show ?thesis by blast
    next
      case (Some q')
      with Enq Cons.prems(2) obtain a' where run: "fifo_run enq deq cs q' = (a', d, r)"
        and a: "a = x # a'" by (auto split: prod.splits)
      note q' = enq_Some [OF Cons.prems(1) Some]
      from Cons.IH [OF conjunct1 [OF q'] run] q' a show ?thesis by simp
    qed
  next
    case Deq
    show ?thesis
    proof (cases "deq q")
      case None
      with Deq Cons.prems have "fifo_run enq deq cs q = (a, d, r)" by simp
      with Cons.IH Cons.prems(1) show ?thesis by blast
    next
      case (Some p)
      then obtain x q' where p: "deq q = Some (x, q')" by (cases p) auto
      with Deq Cons.prems(2) obtain d' where run: "fifo_run enq deq cs q' = (a, d', r)"
        and d: "d = x # d'" by (auto split: prod.splits)
      note q' = deq_Some [OF Cons.prems(1) p]
      from Cons.IH [OF conjunct1 [OF q'] run] q' d show ?thesis by simp
    qed
  qed
qed

end

text \<open>A queue of bounded capacity: there is room exactly below the capacity, which never changes.\<close>

locale bounded_fifo = fifo +
  fixes capacity :: "'b \<Rightarrow> nat"
  assumes room_iff: "invar q \<Longrightarrow> room q \<longleftrightarrow> length (contents q) < capacity q"
    and capacity_enq: "invar q \<Longrightarrow> enq x q = Some q' \<Longrightarrow> capacity q' = capacity q"
    and capacity_deq: "invar q \<Longrightarrow> deq q = Some (x, q') \<Longrightarrow> capacity q' = capacity q"
begin

lemma fifo_run_bounded:
  "invar q \<Longrightarrow> length (contents q) \<le> capacity q \<Longrightarrow> fifo_run enq deq cs q = (a, d, r)
   \<Longrightarrow> length (contents r) \<le> capacity r \<and> capacity r = capacity q"
proof (induction cs arbitrary: q a d)
  case Nil
  then show ?case by simp
next
  case (Cons c cs)
  show ?case
  proof (cases c)
    case (Enq x)
    show ?thesis
    proof (cases "enq x q")
      case None
      with Enq Cons.prems(3) have "fifo_run enq deq cs q = (a, d, r)" by simp
      with Cons.IH Cons.prems(1,2) show ?thesis by blast
    next
      case (Some q')
      have room: "room q" using Some enq_full [OF Cons.prems(1), of x] by auto
      have "invar q'" "length (contents q') \<le> capacity q'" "capacity q' = capacity q"
        using enq_Some [OF Cons.prems(1) Some] capacity_enq [OF Cons.prems(1) Some]
          room room_iff [OF Cons.prems(1)] by auto
      moreover obtain a' where "fifo_run enq deq cs q' = (a', d, r)"
        using Some Enq Cons.prems(3) by (auto split: prod.splits)
      ultimately show ?thesis using Cons.IH by metis
    qed
  next
    case Deq
    show ?thesis
    proof (cases "deq q")
      case None
      with Deq Cons.prems(3) have "fifo_run enq deq cs q = (a, d, r)" by simp
      with Cons.IH Cons.prems(1,2) show ?thesis by blast
    next
      case (Some p)
      then obtain x q' where p: "deq q = Some (x, q')" by (cases p) auto
      have "invar q'" "length (contents q') \<le> capacity q'" "capacity q' = capacity q"
        using deq_Some [OF Cons.prems(1) p] capacity_deq [OF Cons.prems(1) p] Cons.prems(2) by auto
      moreover obtain d' where "fifo_run enq deq cs q' = (a, d', r)"
        using p Deq Cons.prems(3) by (auto split: prod.splits)
      ultimately show ?thesis using Cons.IH by metis
    qed
  qed
qed

end

end
