(* ===== verification/Block_Queue.thy ===== *)
theory Block_Queue
  imports Fifo
begin

text \<open>
  The blocking queue of the log system (\<open>block_queue.h\<close>): a ring of \<open>m_max_size\<close> slots whose
  \<open>m_front\<close> index stands one slot before the oldest element. Every method runs under
  \<open>m_mutex\<close>, so a method is one atomic operation on the record below, except where it waits on
  \<open>m_cond\<close>: the classes \<open>locker\<close> and \<open>cond\<close> are not part of the repository, and what a wait
  returns, with the queue as the caller finds it when it holds the mutex again, is an argument of
  the model.
\<close>

record 'a block_queue =
  m_array :: "'a list"
  m_size :: int
  m_max_size :: int
  m_front :: int
  m_back :: int

text \<open>
  The constructor. \<open>new T[max_size]\<close> default-constructs the slots; \<open>dflt\<close> is that value.
\<close>

definition block_queue_new :: "'a \<Rightarrow> int \<Rightarrow> cpp_error + 'a block_queue" where
  "block_queue_new dflt max_size =
     (if max_size \<le> 0 then Inl (ExitCall (-1))
      else Inr \<lparr>m_array = replicate (nat max_size) dflt, m_size = 0, m_max_size = max_size,
                m_front = -1, m_back = -1\<rparr>)"

definition clear :: "'a block_queue \<Rightarrow> 'a block_queue" where
  "clear q = q\<lparr>m_size := 0, m_front := -1, m_back := -1\<rparr>"

definition full :: "'a block_queue \<Rightarrow> bool" where
  "full q = (if m_size q \<ge> m_max_size q then True else False)"


text \<open>
  The methods \<open>front\<close> and \<open>back\<close> (\<open>queue_front\<close>, \<open>queue_back\<close> here) return false and leave their argument alone on an empty queue
  (\<open>Inr None\<close>), or store the element there and return true (\<open>Inr (Some v)\<close>).
\<close>

definition queue_front :: "'a block_queue \<Rightarrow> cpp_error + 'a option" where
  "queue_front q =
     (if 0 = m_size q then Inr None
      else case load (m_array q) (m_front q) of
             None \<Rightarrow> Inl UndefinedBehaviour
           | Some v \<Rightarrow> Inr (Some v))"

definition queue_back :: "'a block_queue \<Rightarrow> cpp_error + 'a option" where
  "queue_back q =
     (if 0 = m_size q then Inr None
      else case load (m_array q) (m_back q) of
             None \<Rightarrow> Inl UndefinedBehaviour
           | Some v \<Rightarrow> Inr (Some v))"

definition queue_size :: "'a block_queue \<Rightarrow> int" where
  "queue_size q = (let tmp = m_size q in tmp)"

definition max_size :: "'a block_queue \<Rightarrow> int" where
  "max_size q = (let tmp = m_max_size q in tmp)"

text \<open>
  \<open>push\<close> gives its result, the new queue and whether \<open>m_cond.broadcast()\<close> was called, which
  it is on both paths.
\<close>

record 'a push_result =
  pushed :: bool
  broadcast :: bool
  after_push :: "'a block_queue"

definition push :: "'a block_queue \<Rightarrow> 'a \<Rightarrow> cpp_error + 'a push_result" where
  "push q item =
     (if m_size q \<ge> m_max_size q
      then Inr \<lparr>pushed = False, broadcast = True, after_push = q\<rparr>
      else let b = (m_back q + 1) smod m_max_size q in
        case store (m_array q) b item of
          None \<Rightarrow> Inl UndefinedBehaviour
        | Some arr \<Rightarrow>
            Inr \<lparr>pushed = True, broadcast = True,
                 after_push = q\<lparr>m_back := b, m_array := arr, m_size := m_size q + 1\<rparr>\<rparr>)"

text \<open>The common tail of the two \<open>pop\<close> methods: take the oldest element.\<close>

definition take_front :: "'a block_queue \<Rightarrow> cpp_error + 'a \<times> 'a block_queue" where
  "take_front q =
     (let f = (m_front q + 1) smod m_max_size q in
        case load (m_array q) f of
          None \<Rightarrow> Inl UndefinedBehaviour
        | Some v \<Rightarrow> Inr (v, q\<lparr>m_front := f, m_size := m_size q - 1\<rparr>))"

text \<open>
  The blocking \<open>pop\<close>. Each element of the list is one return of \<open>m_cond.wait\<close>: its result and
  the queue found afterwards. When the list is used up the caller is still blocked.
\<close>

datatype 'a pop_result =
    PopBlocked
  | PopFalse "'a block_queue"
  | PopItem 'a "'a block_queue"

fun pop :: "'a block_queue \<Rightarrow> (bool \<times> 'a block_queue) list \<Rightarrow> cpp_error + 'a pop_result" where
  "pop q [] =
     (if m_size q \<le> 0 then Inr PopBlocked
      else case take_front q of Inl e \<Rightarrow> Inl e | Inr (v, q') \<Rightarrow> Inr (PopItem v q'))"
| "pop q ((ok, q1) # ws) =
     (if m_size q \<le> 0 then (if \<not> ok then Inr (PopFalse q1) else pop q1 ws)
      else case take_front q of Inl e \<Rightarrow> Inl e | Inr (v, q') \<Rightarrow> Inr (PopItem v q'))"

text \<open>
  The timed \<open>pop\<close>. \<open>timewait\<close> is what \<open>m_cond.timewait\<close> does with the absolute deadline:
  whether it was signalled, and the queue found afterwards.
\<close>

record timespec =
  tv_sec :: int
  tv_nsec :: int

record timeval =
  now_sec :: int
  now_usec :: int

definition pop_deadline :: "timeval \<Rightarrow> int \<Rightarrow> timespec" where
  "pop_deadline now ms_timeout =
     \<lparr>tv_sec = now_sec now + ms_timeout sdiv 1000, tv_nsec = (ms_timeout smod 1000) * 1000\<rparr>"


section \<open>Representation\<close>

text \<open>
  The list a queue represents, oldest first, and the invariant of the indices: both lie in the
  ring or are still \<open>-1\<close>, and \<open>m_back\<close> is \<open>m_size\<close> slots after \<open>m_front\<close>.
\<close>

definition queue_list :: "'a block_queue \<Rightarrow> 'a list" where
  "queue_list q =
     map (\<lambda>k. m_array q ! nat ((m_front q + 1 + int k) mod m_max_size q)) [0..<nat (m_size q)]"

definition queue_inv :: "'a block_queue \<Rightarrow> bool" where
  "queue_inv q \<longleftrightarrow>
     0 < m_max_size q \<and> int (length (m_array q)) = m_max_size q
     \<and> 0 \<le> m_size q \<and> m_size q \<le> m_max_size q
     \<and> -1 \<le> m_front q \<and> m_front q < m_max_size q
     \<and> -1 \<le> m_back q \<and> m_back q < m_max_size q
     \<and> (0 < m_size q \<longrightarrow> 0 \<le> m_back q)
     \<and> (m_front q + m_size q) mod m_max_size q = m_back q mod m_max_size q"

lemma length_queue_list [simp]: "length (queue_list q) = nat (m_size q)"
  by (simp add: queue_list_def)

lemma queue_list_Nil_iff: "queue_inv q \<Longrightarrow> queue_list q = [] \<longleftrightarrow> m_size q = 0"
  by (auto simp: queue_list_def queue_inv_def)

lemma queue_inv_new: "block_queue_new d n = Inr q \<Longrightarrow> queue_inv q \<and> queue_list q = []"
  by (auto simp: block_queue_new_def queue_inv_def queue_list_def split: if_splits)

lemma queue_inv_clear: "queue_inv q \<Longrightarrow> queue_inv (clear q) \<and> queue_list (clear q) = []"
  by (auto simp: clear_def queue_inv_def queue_list_def)

text \<open>Where the next element goes: \<open>m_size + 1\<close> slots after \<open>m_front\<close>.\<close>

lemma next_back:
  assumes "queue_inv q"
  shows "(m_back q + 1) smod m_max_size q = (m_front q + 1 + m_size q) mod m_max_size q"
proof -
  have b: "(m_front q + m_size q) mod m_max_size q = m_back q mod m_max_size q"
    using assms by (simp add: queue_inv_def)
  have "(m_back q + 1) mod m_max_size q = (m_front q + m_size q + 1) mod m_max_size q"
    using mod_add_left_eq [of "m_front q + m_size q" "m_max_size q" 1]
      mod_add_left_eq [of "m_back q" "m_max_size q" 1] b by simp
  moreover have "(m_back q + 1) smod m_max_size q = (m_back q + 1) mod m_max_size q"
    using assms by (auto simp: queue_inv_def)
  ultimately show ?thesis by (simp add: algebra_simps)
qed

lemma push_room:
  assumes inv: "queue_inv q" and room: "m_size q < m_max_size q"
  shows "\<exists>q'. push q x = Inr \<lparr>pushed = True, broadcast = True, after_push = q'\<rparr>
          \<and> queue_inv q' \<and> queue_list q' = queue_list q @ [x] \<and> m_max_size q' = m_max_size q"
proof -
  let ?n = "m_max_size q" and ?f = "m_front q" and ?s = "m_size q"
  let ?b = "(?f + 1 + ?s) mod ?n"
  let ?q = "q\<lparr>m_back := ?b, m_array := (m_array q)[nat ?b := x], m_size := ?s + 1\<rparr>"
  have n: "0 < ?n" "int (length (m_array q)) = ?n" "0 \<le> ?s" using inv by (auto simp: queue_inv_def)
  have b: "0 \<le> ?b" "?b < ?n" using n by auto
  have push: "push q x = Inr \<lparr>pushed = True, broadcast = True, after_push = ?q\<rparr>"
    using room b n(2) by (simp add: push_def next_back [OF inv] store_in Let_def)
  have inv': "queue_inv ?q"
    using inv room b by (auto simp: queue_inv_def algebra_simps)
  have old: "m_array ?q ! nat ((?f + 1 + int k) mod ?n) = m_array q ! nat ((?f + 1 + int k) mod ?n)"
    if "k < nat ?s" for k
  proof -
    have k: "int k < ?s" "int k < ?n" using that room by linarith+
    have "(?f + 1 + int k) mod ?n \<noteq> ?b"
      using ring_offset_inj [of "int k" ?n ?s "?f + 1"] k room n(3) by linarith
    then have "nat ((?f + 1 + int k) mod ?n) \<noteq> nat ?b" using n b by (simp add: nat_eq_iff)
    then show ?thesis by simp
  qed
  have "[0..<nat (?s + 1)] = [0..<nat ?s] @ [nat ?s]" using n by (simp add: nat_add_distrib)
  moreover have "nat ?b < length (m_array q)" using b n by linarith
  ultimately have "queue_list ?q = queue_list q @ [x]"
    using old n by (simp add: queue_list_def)
  with push inv' show ?thesis by auto
qed

lemma push_full:
  "m_max_size q \<le> m_size q \<Longrightarrow>
   push q x = Inr \<lparr>pushed = False, broadcast = True, after_push = q\<rparr>"
  by (simp add: push_def)

lemma take_front_Cons:
  assumes inv: "queue_inv q" and pos: "0 < m_size q"
  shows "\<exists>x q'. take_front q = Inr (x, q') \<and> queue_inv q' \<and> queue_list q = x # queue_list q'
          \<and> m_max_size q' = m_max_size q"
proof -
  let ?n = "m_max_size q" and ?f = "m_front q" and ?s = "m_size q"
  let ?g = "(?f + 1) mod ?n"
  let ?x = "m_array q ! nat ?g" and ?q = "q\<lparr>m_front := ?g, m_size := ?s - 1\<rparr>"
  have n: "0 < ?n" "int (length (m_array q)) = ?n" "-1 \<le> ?f" using inv by (auto simp: queue_inv_def)
  have g: "0 \<le> ?g" "?g < ?n" using n by auto
  have tf: "take_front q = Inr (?x, ?q)"
    using g n by (simp add: take_front_def load_in Let_def)
  have shift: "(?g + 1 + int k) mod ?n = (?f + 1 + int (Suc k)) mod ?n" for k
    using mod_add_left_eq [of "?f + 1" ?n "1 + int k"] by (simp add: algebra_simps)
  have "(?g + (?s - 1)) mod ?n = (?f + ?s) mod ?n"
    using mod_add_left_eq [of "?f + 1" ?n "?s - 1"] by simp
  then have inv': "queue_inv ?q" using inv pos g by (auto simp: queue_inv_def)
  have "[0..<nat ?s] = 0 # map Suc [0..<nat (?s - 1)]"
    using pos by (metis Suc_nat_eq_nat_zadd1 diff_add_cancel map_Suc_upt add.commute
        upt_conv_Cons zero_less_Suc zle_diff1_eq)
  then have "queue_list q = ?x # queue_list ?q"
    by (simp add: queue_list_def shift o_def)
  with tf inv' show ?thesis by auto
qed

section \<open>The queue as a bounded FIFO\<close>

text \<open>The successful paths of \<open>push\<close> and of a \<open>pop\<close> that does not have to wait.\<close>

definition queue_enq :: "'a \<Rightarrow> 'a block_queue \<Rightarrow> 'a block_queue option" where
  "queue_enq x q =
     (case push q x of Inr r \<Rightarrow> (if pushed r then Some (after_push r) else None) | Inl _ \<Rightarrow> None)"

definition queue_deq :: "'a block_queue \<Rightarrow> ('a \<times> 'a block_queue) option" where
  "queue_deq q = (case pop q [] of Inr (PopItem v q') \<Rightarrow> Some (v, q') | _ \<Rightarrow> None)"

lemma queue_enq_room:
  "queue_inv q \<Longrightarrow> m_size q < m_max_size q \<Longrightarrow>
   \<exists>q'. queue_enq x q = Some q' \<and> queue_inv q' \<and> queue_list q' = queue_list q @ [x]
        \<and> m_max_size q' = m_max_size q"
  using push_room [of q x] by (auto simp: queue_enq_def)

lemma queue_enq_full: "m_max_size q \<le> m_size q \<Longrightarrow> queue_enq x q = None"
  by (simp add: queue_enq_def push_full)

lemma queue_deq_empty: "queue_inv q \<Longrightarrow> queue_list q = [] \<Longrightarrow> queue_deq q = None"
  by (simp add: queue_deq_def queue_list_Nil_iff)

lemma queue_deq_Cons:
  assumes "queue_inv q" "queue_list q = x # xs"
  shows "\<exists>q'. queue_deq q = Some (x, q') \<and> queue_inv q' \<and> queue_list q' = xs
              \<and> m_max_size q' = m_max_size q"
proof -
  have "0 < m_size q" using assms queue_list_Nil_iff [of q] by (fastforce simp: queue_inv_def)
  then show ?thesis
    using take_front_Cons [OF assms(1)] assms(2) by (auto simp: queue_deq_def)
qed

interpretation bq: bounded_fifo queue_enq queue_deq queue_list queue_inv
  "\<lambda>q. m_size q < m_max_size q" "\<lambda>q. nat (m_max_size q)"
proof unfold_locales
  fix q :: "'a block_queue" and x :: 'a and xs
  assume inv: "queue_inv q"
  show "m_size q < m_max_size q \<Longrightarrow>
      \<exists>q'. queue_enq x q = Some q' \<and> queue_inv q' \<and> queue_list q' = queue_list q @ [x]"
    using queue_enq_room [OF inv] by blast
  show "\<not> m_size q < m_max_size q \<Longrightarrow> queue_enq x q = None" by (simp add: queue_enq_full)
  show "queue_list q = [] \<Longrightarrow> queue_deq q = None" by (rule queue_deq_empty [OF inv])
  show "queue_list q = x # xs \<Longrightarrow>
      \<exists>q'. queue_deq q = Some (x, q') \<and> queue_inv q' \<and> queue_list q' = xs"
    using queue_deq_Cons [OF inv] by blast
  show "(m_size q < m_max_size q) = (length (queue_list q) < nat (m_max_size q))"
    using inv by (auto simp: queue_inv_def)
next
  fix q q' :: "'a block_queue" and x :: 'a
  assume inv: "queue_inv q"
  show "queue_enq x q = Some q' \<Longrightarrow> nat (m_max_size q') = nat (m_max_size q)"
    using queue_enq_room [OF inv, of x] queue_enq_full [of q x]
    by (cases "m_size q < m_max_size q") auto
  show "queue_deq q = Some (x, q') \<Longrightarrow> nat (m_max_size q') = nat (m_max_size q)"
    using queue_deq_Cons [OF inv] queue_deq_empty [OF inv] by (cases "queue_list q") auto
qed

section \<open>Properties\<close>

lemma queue_capacity: "queue_inv q \<Longrightarrow> length (queue_list q) \<le> nat (m_max_size q)"
  by (auto simp: queue_inv_def)

text \<open>
  C1. The ring buffer is a bounded FIFO queue. From any well-formed queue, whatever sequence of
  insertions and removals is made: the elements present at the start followed by those accepted
  are those handed out followed by those still present, in this order; the queue stays well
  formed, its capacity does not change and is never exceeded.
\<close>

theorem block_queue_fifo:
  assumes "queue_inv q" "fifo_run queue_enq queue_deq calls q = (accepted, delivered, r)"
  shows "queue_inv r \<and> queue_list q @ accepted = delivered @ queue_list r
    \<and> length (queue_list r) \<le> nat (m_max_size r) \<and> nat (m_max_size r) = nat (m_max_size q)"
  using bq.fifo_run_conserves [OF assms] bq.fifo_run_bounded [OF assms(1) _ assms(2)]
    queue_capacity [OF assms(1)] by blast

theorem block_queue_fifo_witness:
  "\<exists>q r. block_queue_new (0::nat) 2 = Inr q \<and> queue_inv q
     \<and> fifo_run queue_enq queue_deq [Enq 5, Enq 6, Enq 7, Deq, Enq 8, Deq, Deq, Deq] q
       = ([5, 6, 8], [5, 6, 8], r)
     \<and> queue_inv r \<and> queue_list q @ [5, 6, 8] = [5, 6, 8] @ queue_list r"
proof -
  let ?q = "\<lparr>m_array = [0, 0], m_size = 0, m_max_size = 2, m_front = -1, m_back = -1\<rparr> :: nat block_queue"
  let ?r = "\<lparr>m_array = [8, 6], m_size = 0, m_max_size = 2, m_front = 0, m_back = 0\<rparr> :: nat block_queue"
  have new: "block_queue_new (0::nat) 2 = Inr ?q"
    by (simp add: block_queue_new_def numeral_2_eq_2)
  have run: "fifo_run queue_enq queue_deq [Enq 5, Enq 6, Enq 7, Deq, Enq 8, Deq, Deq, Deq] ?q
      = ([5, 6, 8], [5, 6, 8], ?r)"
    by (simp add: queue_enq_def queue_deq_def push_def take_front_def load_def store_def)
  have inv: "queue_inv ?q" using queue_inv_new [OF new] by simp
  show ?thesis using new inv run block_queue_fifo [OF inv run] by blast
qed



text \<open>One call of any method that changes the queue; a \<open>pop\<close> that has to wait leaves it as it is.\<close>

datatype 'a queue_op = Push_Call 'a | Pop_Call | Clear_Call

fun queue_call :: "'a queue_op \<Rightarrow> 'a block_queue \<Rightarrow> cpp_error + 'a block_queue" where
  "queue_call (Push_Call x) q = (case push q x of Inl e \<Rightarrow> Inl e | Inr r \<Rightarrow> Inr (after_push r))"
| "queue_call Pop_Call q =
     (case pop q [] of Inl e \<Rightarrow> Inl e | Inr (PopItem v q') \<Rightarrow> Inr q' | Inr (PopFalse q') \<Rightarrow> Inr q' | Inr PopBlocked \<Rightarrow> Inr q)"
| "queue_call Clear_Call q = Inr (clear q)"

fun queue_calls :: "'a queue_op list \<Rightarrow> 'a block_queue \<Rightarrow> cpp_error + 'a block_queue" where
  "queue_calls [] q = Inr q"
| "queue_calls (c # cs) q = (case queue_call c q of Inl e \<Rightarrow> Inl e | Inr q' \<Rightarrow> queue_calls cs q')"

lemma queue_call_typed:
  assumes "queue_inv q"
  shows "\<exists>q'. queue_call c q = Inr q' \<and> queue_inv q' \<and> m_max_size q' = m_max_size q"
proof (cases c)
  case (Push_Call x)
  show ?thesis
  proof (cases "m_size q < m_max_size q")
    case True
    then show ?thesis using push_room [OF assms True, of x] Push_Call by auto
  next
    case False
    then show ?thesis using assms Push_Call by (simp add: push_full)
  qed
next
  case Pop_Call
  show ?thesis
  proof (cases "0 < m_size q")
    case True
    then show ?thesis using take_front_Cons [OF assms True] Pop_Call by auto
  next
    case False
    then show ?thesis using assms Pop_Call by simp
  qed
next
  case Clear_Call
  then show ?thesis using queue_inv_clear [OF assms] by (simp add: clear_def)
qed

lemma queue_calls_typed:
  "queue_inv q \<Longrightarrow> \<exists>q'. queue_calls cs q = Inr q' \<and> queue_inv q' \<and> m_max_size q' = m_max_size q"
proof (induction cs arbitrary: q)
  case (Cons c cs)
  obtain q1 where "queue_call c q = Inr q1" "queue_inv q1" "m_max_size q1 = m_max_size q" using queue_call_typed [OF Cons.prems] by blast
  with Cons.IH show ?case by fastforce
qed simp

text \<open>
  C19. The queue stays well typed. Whatever methods are called on a queue made with a positive
  32-bit capacity, none accesses the array out of range, and afterwards the array still has \<open>m_max_size\<close> slots, the
  size lies between 0 and that, both indices lie in the ring or are -1, and neither they nor the sums the next call
  computes leave the range of \<open>int\<close>.
\<close>

theorem block_queue_typed:
  assumes "block_queue_new d n = Inr q0" "n < 2 ^ 31"
  shows "\<exists>q. queue_calls cs q0 = Inr q \<and> int (length (m_array q)) = n \<and> m_max_size q = n
    \<and> 0 \<le> m_size q \<and> m_size q \<le> n \<and> m_front q \<in> {-1..<n} \<and> m_back q \<in> {-1..<n}
    \<and> (m_size q < m_max_size q \<longrightarrow> m_size q + 1 < 2 ^ 31) \<and> m_front q + 1 < 2 ^ 31 \<and> m_back q + 1 < 2 ^ 31"
proof -
  have "m_max_size q0 = n" using assms(1) by (auto simp: block_queue_new_def split: if_splits)
  with queue_calls_typed [of q0 cs] queue_inv_new [OF assms(1)] obtain q where
    "queue_calls cs q0 = Inr q" "queue_inv q" "m_max_size q = n" by auto
  then show ?thesis using assms(2) by (auto simp: queue_inv_def)
qed

theorem block_queue_typed_witness:
  "\<exists>q0 q. block_queue_new (0::nat) 2 = Inr q0 \<and> queue_calls [Push_Call 5, Push_Call 6, Push_Call 7, Pop_Call, Clear_Call, Pop_Call] q0 = Inr q
     \<and> m_size q \<le> 2 \<and> m_back q \<in> {-1..<2}"
proof -
  obtain q0 where q0: "block_queue_new (0::nat) 2 = Inr q0" by (simp add: block_queue_new_def)
  from block_queue_typed [OF q0, of "[Push_Call 5, Push_Call 6, Push_Call 7, Pop_Call, Clear_Call, Pop_Call]"] q0
  show ?thesis by auto
qed



text \<open>
  The deadline of the timed \<open>pop\<close> is in the wrong unit: the milliseconds below a second
  are scaled to microseconds and stored as nanoseconds, and the microseconds of the current time
  are dropped. A timeout below one second has expired before the wait starts whenever the current
  time is at least \<open>ms_timeout\<close> microseconds into its second.
\<close>

theorem pop_deadline_expired:
  assumes "0 \<le> ms" "ms < 1000" "ms \<le> now_usec now"
  shows "tv_sec (pop_deadline now ms) * 1000000000 + tv_nsec (pop_deadline now ms)
         \<le> now_sec now * 1000000000 + now_usec now * 1000"
  using assms by (simp add: pop_deadline_def)

theorem pop_deadline_expired_witness:
  "tv_sec (pop_deadline \<lparr>now_sec = 10, now_usec = 600\<rparr> 500) * 1000000000
     + tv_nsec (pop_deadline \<lparr>now_sec = 10, now_usec = 600\<rparr> 500) \<le> 10 * 1000000000 + 600 * 1000"
  using pop_deadline_expired [of 500 "\<lparr>now_sec = 10, now_usec = 600\<rparr>"] by simp

text \<open>
  \<open>back()\<close> returns the newest element, but \<open>front()\<close> does not return the oldest: the index
  \<open>m_front\<close> stands one slot before it. After a removal \<open>front()\<close> returns the element that was
  just removed, and before the first removal it reads \<open>m_array[-1]\<close>.
\<close>

theorem queue_front_off_by_one:
  assumes "queue_inv q" "0 < m_size q"
  shows "queue_back q = Inr (Some (last (queue_list q)))
    \<and> (m_front q = -1 \<longrightarrow> queue_front q = Inl UndefinedBehaviour)
    \<and> (\<forall>v q'. take_front q = Inr (v, q') \<longrightarrow> 0 < m_size q' \<longrightarrow> queue_front q' = Inr (Some v))"
proof (intro conjI impI allI)
  let ?n = "m_max_size q"
  have n: "0 < ?n" "int (length (m_array q)) = ?n" "0 \<le> m_back q" "m_back q < ?n" "-1 \<le> m_front q"
    and b: "(m_front q + m_size q) mod ?n = m_back q mod ?n"
    using assms by (auto simp: queue_inv_def)
  have "m_front q + 1 + int (nat (m_size q) - 1) = m_front q + m_size q"
    using assms(2) by (simp add: of_nat_diff)
  moreover have "queue_list q \<noteq> []" using assms queue_list_Nil_iff [of q] by simp
  ultimately have "last (queue_list q) = m_array q ! nat (m_back q)"
    using assms(2) b n by (simp add: last_conv_nth queue_list_def)
  then show "queue_back q = Inr (Some (last (queue_list q)))"
    using assms(2) n by (simp add: queue_back_def load_in)
next
  assume "m_front q = -1"
  then show "queue_front q = Inl UndefinedBehaviour"
    using assms(2) by (simp add: queue_front_def load_def)
next
  fix v q'
  assume "take_front q = Inr (v, q')" "0 < m_size q'"
  then show "queue_front q' = Inr (Some v)"
    by (auto simp: take_front_def queue_front_def Let_def split: option.splits)
qed

theorem queue_front_off_by_one_witness:
  "\<exists>q. queue_list q = [1, 2::nat] \<and> queue_back q = Inr (Some 2) \<and> queue_front q = Inl UndefinedBehaviour
     \<and> (\<exists>r. take_front q = Inr (1, r) \<and> queue_list r = [2] \<and> queue_front r = Inr (Some 1))"
proof -
  let ?q = "\<lparr>m_array = [1, 2], m_size = 2, m_max_size = 2, m_front = -1, m_back = 1\<rparr> :: nat block_queue"
  let ?r = "\<lparr>m_array = [1, 2], m_size = 1, m_max_size = 2, m_front = 0, m_back = 1\<rparr> :: nat block_queue"
  have q: "queue_inv ?q" "0 < m_size ?q" by (simp_all add: queue_inv_def)
  have lists: "queue_list ?q = [1, 2]" "queue_list ?r = [2]"
    by (simp_all add: queue_list_def upt_rec numeral_2_eq_2)
  have tf: "take_front ?q = Inr (1, ?r)" by (simp add: take_front_def load_def)
  have "queue_back ?q = Inr (Some 2)" "queue_front ?q = Inl UndefinedBehaviour"
    "queue_front ?r = Inr (Some 1)"
    using queue_front_off_by_one [OF q] lists tf by simp_all
  then show ?thesis using lists tf by blast
qed

end
