(* ===== verification/C_Strings.thy ===== *)
theory C_Strings
  imports Prelude
begin

text \<open>
  The string functions of the C library that the request parser calls, on a byte array and a
  position in it. Each walks forward from the position and stops at the terminating NUL; walking
  off the end of the array gives \<open>None\<close>, undefined behaviour. The lemmas say what each returns on
  a terminated string.
\<close>

abbreviation NUL :: char where "NUL \<equiv> CHR 0x00"
abbreviation TAB :: char where "TAB \<equiv> CHR 0x09"
abbreviation LF :: char where "LF \<equiv> CHR 0x0A"
abbreviation CR :: char where "CR \<equiv> CHR 0x0D"

named_theorems cstr_simps "results of the C string functions on terminated strings"

definition tolower :: "char \<Rightarrow> char" where
  "tolower c = (let n = (of_char c :: nat) in if 65 \<le> n \<and> n \<le> 90 then char_of (n + 32) else c)"

text \<open>\<open>%s\<close>: the bytes up to the terminator.\<close>

fun c_string_from :: "string \<Rightarrow> string option" where
  "c_string_from [] = None"
| "c_string_from (c # cs) = (if c = NUL then Some [] else map_option ((#) c) (c_string_from cs))"

definition c_string :: "string \<Rightarrow> nat \<Rightarrow> string option" where
  "c_string buf p = c_string_from (drop p buf)"

text \<open>\<open>strpbrk\<close>: the first position holding one of the given characters, or a null pointer.\<close>

fun strpbrk_from :: "string \<Rightarrow> string \<Rightarrow> nat option option" where
  "strpbrk_from [] accept = None"
| "strpbrk_from (c # cs) accept =
     (if c = NUL then Some None
      else if c \<in> set accept then Some (Some 0)
      else map_option (map_option Suc) (strpbrk_from cs accept))"

definition strpbrk :: "string \<Rightarrow> nat \<Rightarrow> string \<Rightarrow> nat option option" where
  "strpbrk buf p accept = map_option (map_option (\<lambda>k. p + k)) (strpbrk_from (drop p buf) accept)"

text \<open>\<open>strchr\<close> for a character other than NUL.\<close>

definition strchr :: "string \<Rightarrow> nat \<Rightarrow> char \<Rightarrow> nat option option" where
  "strchr buf p c = strpbrk buf p [c]"

text \<open>\<open>strspn\<close>: how many of the leading characters are among the given ones.\<close>

fun strspn_from :: "string \<Rightarrow> string \<Rightarrow> nat option" where
  "strspn_from [] accept = None"
| "strspn_from (c # cs) accept =
     (if c \<in> set accept then map_option Suc (strspn_from cs accept) else Some 0)"

definition strspn :: "string \<Rightarrow> nat \<Rightarrow> string \<Rightarrow> nat option" where
  "strspn buf p accept = strspn_from (drop p buf) accept"

text \<open>\<open>strcasecmp(s, lit) == 0\<close> and \<open>strncasecmp(s, lit, n) == 0\<close> against a literal.\<close>

fun strcaseeq_from :: "string \<Rightarrow> string \<Rightarrow> bool option" where
  "strcaseeq_from [] lit = None"
| "strcaseeq_from (c # cs) [] = Some (c = NUL)"
| "strcaseeq_from (c # cs) (d # ds) =
     (if tolower c \<noteq> tolower d then Some False else strcaseeq_from cs ds)"

fun strncaseeq_from :: "nat \<Rightarrow> string \<Rightarrow> string \<Rightarrow> bool option" where
  "strncaseeq_from 0 s lit = Some True"
| "strncaseeq_from (Suc n) [] lit = None"
| "strncaseeq_from (Suc n) (c # cs) [] = Some (c = NUL)"
| "strncaseeq_from (Suc n) (c # cs) (d # ds) =
     (if tolower c \<noteq> tolower d then Some False else strncaseeq_from n cs ds)"

definition strcaseeq :: "string \<Rightarrow> nat \<Rightarrow> string \<Rightarrow> bool option" where
  "strcaseeq buf p lit = strcaseeq_from (drop p buf) lit"

definition strncaseeq :: "string \<Rightarrow> nat \<Rightarrow> string \<Rightarrow> nat \<Rightarrow> bool option" where
  "strncaseeq buf p lit n = strncaseeq_from n (drop p buf) lit"

section \<open>Results on terminated strings\<close>

lemma tolower_NUL_iff [simp]: "tolower c = NUL \<longleftrightarrow> c = NUL"
proof (cases "65 \<le> (of_char c :: nat) \<and> of_char c \<le> (90 :: nat)")
  case True
  then have "of_char (tolower c) = (of_char c + 32 :: nat)"
    by (simp add: tolower_def Let_def)
  moreover have "c \<noteq> NUL" using True by auto
  ultimately show ?thesis by auto
next
  case False
  then show ?thesis by (auto simp: tolower_def Let_def)
qed

lemma NUL_eq_tolower_iff [simp]: "NUL = tolower c \<longleftrightarrow> c = NUL"
  using tolower_NUL_iff [of c] by metis

lemma tolower_of_NUL [simp]: "tolower NUL = NUL"
  by (simp add: tolower_def)

lemma c_string_from_term [cstr_simps]:
  "NUL \<notin> set s \<Longrightarrow> c_string_from (s @ NUL # r) = Some s"
  by (induction s) auto

lemma strpbrk_from_term [cstr_simps]:
  "NUL \<notin> set s \<Longrightarrow> strpbrk_from (s @ NUL # r) accept =
     Some (if \<exists>c \<in> set s. c \<in> set accept
           then Some (length (takeWhile (\<lambda>c. c \<notin> set accept) s)) else None)"
  by (induction s) auto

lemma strspn_from_term [cstr_simps]:
  "NUL \<notin> set accept \<Longrightarrow> NUL \<notin> set s \<Longrightarrow>
   strspn_from (s @ NUL # r) accept = Some (length (takeWhile (\<lambda>c. c \<in> set accept) s))"
  by (induction s) auto

lemma strcaseeq_from_term [cstr_simps]:
  "NUL \<notin> set s \<Longrightarrow> NUL \<notin> set lit \<Longrightarrow>
   strcaseeq_from (s @ NUL # r) lit = Some (map tolower s = map tolower lit)"
proof (induction s arbitrary: lit)
  case Nil
  then show ?case by (cases lit) (auto dest: sym)
next
  case (Cons c s)
  then show ?case by (cases lit) auto
qed

lemma strncaseeq_from_term [cstr_simps]:
  "NUL \<notin> set s \<Longrightarrow> NUL \<notin> set lit \<Longrightarrow> n \<le> length lit \<Longrightarrow>
   strncaseeq_from n (s @ NUL # r) lit = Some (map tolower (take n s) = map tolower (take n lit))"
proof (induction n arbitrary: s lit)
  case 0
  then show ?case by simp
next
  case (Suc n)
  then obtain d ds where lit: "lit = d # ds" by (cases lit) auto
  show ?case
  proof (cases s)
    case Nil
    then show ?thesis using Suc.prems lit by (auto dest: sym)
  next
    case (Cons c cs)
    then show ?thesis using Suc lit by auto
  qed
qed

end
