(* ===== verification/Http_Parser.thy ===== *)
theory Http_Parser
  imports C_Strings
begin

text \<open>
  The request parser of \<open>httprequest.cpp\<close>: \<open>parse_line\<close> cuts the received bytes into lines and
  \<open>parse_content\<close> drives the two states of the request over them, inside one array of
  \<open>BUFFER_SIZE\<close> bytes that the socket loop fills. Positions in the array are natural numbers (they
  start at zero and only grow), an access outside the array is \<open>None\<close>, and the lines printed on
  the console are returned as a list.

  The specification is a function on the byte sequence alone: \<open>scan_line\<close> finds the first line and
  \<open>abs_parse\<close> runs the two states over the lines.
\<close>

definition BUFFER_SIZE :: nat where "BUFFER_SIZE = 4096"

datatype CHECK_STATE = CHECK_STATE_REQUESTLINE | CHECK_STATE_HEADER

datatype LINE_STATUS = LINE_OK | LINE_BAD | LINE_OPEN

datatype HTTP_CODE =
  NO_REQUEST | GET_REQUEST | BAD_REQUEST | FORBIDDEN_REQUEST | INTERNAL_ERROR | CLOSE_CONNECTION

definition szret :: "string list" where
  "szret = [''I get a correct result'' @ [LF], ''Something wrong'' @ [LF]]"

section \<open>The line scanner\<close>

function parse_line :: "string \<Rightarrow> nat \<Rightarrow> nat \<Rightarrow> (LINE_STATUS \<times> string \<times> nat) option" where
  "parse_line buffer checked_index read_index =
     (if checked_index < read_index then do {
        temp \<leftarrow> peek buffer checked_index;
        if temp = CR then
          if checked_index + 1 = read_index then Some (LINE_OPEN, buffer, checked_index)
          else do {
            succ \<leftarrow> peek buffer (checked_index + 1);
            if succ = LF then do {
              buffer \<leftarrow> poke buffer checked_index NUL;
              buffer \<leftarrow> poke buffer (checked_index + 1) NUL;
              Some (LINE_OK, buffer, checked_index + 2)
            } else Some (LINE_BAD, buffer, checked_index)
          }
        else if temp = LF then
          if checked_index > 1 then do {
            pred \<leftarrow> peek buffer (checked_index - 1);
            if pred = CR then do {
              buffer \<leftarrow> poke buffer checked_index NUL;
              buffer \<leftarrow> poke buffer (checked_index + 1) NUL;
              Some (LINE_OK, buffer, checked_index + 2)
            } else Some (LINE_BAD, buffer, checked_index)
          } else Some (LINE_BAD, buffer, checked_index)
        else parse_line buffer (checked_index + 1) read_index
      } else Some (LINE_OPEN, buffer, checked_index))"
  by pat_completeness auto
termination
  by (relation "measure (\<lambda>(b, c, r). r - c)") auto

declare parse_line.simps [simp del]

text \<open>A complete line always moves \<open>checked_index\<close> forward, which ends the loop of \<open>parse_content\<close>.\<close>

lemma parse_line_progress:
  "parse_line b c r = Some (LINE_OK, b', c') \<Longrightarrow> c < r \<and> c < c'"
proof (induction b c r rule: parse_line.induct)
  case (1 b c r)
  from "1.prems" have "c < r" by (subst (asm) parse_line.simps) (auto split: if_splits)
  then obtain x where x: "peek b c = Some x"
    using "1.prems" by (subst (asm) parse_line.simps) (auto split: Option.bind_splits)
  show ?case
  proof (cases "x = CR \<or> x = LF")
    case True
    then show ?thesis
      using "1.prems" \<open>c < r\<close> x
      by (subst (asm) parse_line.simps) (auto split: if_splits Option.bind_splits)
  next
    case False
    then have "parse_line b (c + 1) r = Some (LINE_OK, b', c')"
      using "1.prems" \<open>c < r\<close> x by (subst (asm) parse_line.simps) simp
    then show ?thesis using "1.IH" \<open>c < r\<close> x False by fastforce
  qed
qed

section \<open>The request line and the headers\<close>

abbreviation blanks :: string where "blanks \<equiv> [CHR '' '', TAB]"

text \<open>The end of \<open>parse_requestline\<close>: the checks of the URL itself.\<close>

definition check_url ::
  "string \<Rightarrow> nat \<Rightarrow> CHECK_STATE \<Rightarrow> string list
   \<Rightarrow> (HTTP_CODE \<times> CHECK_STATE \<times> string \<times> string list) option" where
  "check_url buffer url checkstate out = do {
     absolute \<leftarrow> strncaseeq buffer url ''http://'' 7;
     url \<leftarrow> (if absolute then strchr buffer (url + 7) (CHR ''/'') else Some (Some url));
     case url of
       None \<Rightarrow> Some (BAD_REQUEST, checkstate, buffer, out)
     | Some url \<Rightarrow> do {
         c \<leftarrow> peek buffer url;
         if c \<noteq> CHR ''/'' then Some (BAD_REQUEST, checkstate, buffer, out)
         else do {
           s \<leftarrow> c_string buffer url;
           Some (NO_REQUEST, CHECK_STATE_HEADER, buffer,
                 out @ [''The request url is: '' @ s @ [LF]])
         }
       }
   }"

text \<open>The part before it: the version, which ends the URL.\<close>

definition check_version ::
  "string \<Rightarrow> nat \<Rightarrow> CHECK_STATE \<Rightarrow> string list
   \<Rightarrow> (HTTP_CODE \<times> CHECK_STATE \<times> string \<times> string list) option" where
  "check_version buffer url checkstate out = do {
     version \<leftarrow> strpbrk buffer url blanks;
     case version of
       None \<Rightarrow> Some (BAD_REQUEST, checkstate, buffer, out)
     | Some version \<Rightarrow> do {
         buffer \<leftarrow> poke buffer version NUL;
         let version = version + 1;
         n \<leftarrow> strspn buffer version blanks;
         let version = version + n;
         http11 \<leftarrow> strcaseeq buffer version ''HTTP/1.1'';
         if \<not> http11 then Some (BAD_REQUEST, checkstate, buffer, out)
         else check_url buffer url checkstate out
       }
   }"

definition parse_requestline ::
  "string \<Rightarrow> nat \<Rightarrow> CHECK_STATE \<Rightarrow> (HTTP_CODE \<times> CHECK_STATE \<times> string \<times> string list) option" where
  "parse_requestline buffer temp checkstate = do {
     url \<leftarrow> strpbrk buffer temp blanks;
     case url of
       None \<Rightarrow> Some (BAD_REQUEST, checkstate, buffer, [])
     | Some url \<Rightarrow> do {
         buffer \<leftarrow> poke buffer url NUL;
         let url = url + 1;
         get \<leftarrow> strcaseeq buffer temp ''GET'';
         if \<not> get then Some (BAD_REQUEST, checkstate, buffer, [])
         else do {
           let out = [''The request method is GET '' @ [LF]];
           n \<leftarrow> strspn buffer url blanks;
           check_version buffer (url + n) checkstate out
         }
       }
   }"

definition parse_headers :: "string \<Rightarrow> nat \<Rightarrow> (HTTP_CODE \<times> string list) option" where
  "parse_headers buffer temp = do {
     c \<leftarrow> peek buffer temp;
     if c = NUL then Some (GET_REQUEST, [])
     else do {
       host \<leftarrow> strncaseeq buffer temp ''Host:'' 5;
       if host then do {
         let temp = temp + 5;
         n \<leftarrow> strspn buffer temp blanks;
         s \<leftarrow> c_string buffer (temp + n);
         Some (NO_REQUEST, [''the request host is: '' @ s @ [LF]])
       } else Some (NO_REQUEST, [''I can not handle this header'' @ [LF]])
     }
   }"

section \<open>The state machine over the lines\<close>

record http_parser =
  buffer :: string
  checked_index :: nat
  checkstate :: CHECK_STATE
  read_index :: nat
  start_line :: nat

function parse_content :: "http_parser \<Rightarrow> (HTTP_CODE \<times> http_parser \<times> string list) option" where
  "parse_content h =
     (case parse_line (buffer h) (checked_index h) (read_index h) of
        None \<Rightarrow> None
      | Some (linestatus, b, c) \<Rightarrow>
          if linestatus = LINE_OK then
            (let temp = start_line h;
                 h1 = h\<lparr>buffer := b, checked_index := c, start_line := c\<rparr>
             in case checkstate h1 of
                  CHECK_STATE_REQUESTLINE \<Rightarrow>
                    (case parse_requestline b temp (checkstate h1) of
                       None \<Rightarrow> None
                     | Some (retcode, st, b', out) \<Rightarrow>
                         let h2 = h1\<lparr>buffer := b', checkstate := st\<rparr> in
                         if retcode = BAD_REQUEST then Some (BAD_REQUEST, h2, out)
                         else map_option (\<lambda>(r, h', out'). (r, h', out @ out')) (parse_content h2))
                | CHECK_STATE_HEADER \<Rightarrow>
                    (case parse_headers b temp of
                       None \<Rightarrow> None
                     | Some (retcode, out) \<Rightarrow>
                         if retcode = BAD_REQUEST then Some (BAD_REQUEST, h1, out)
                         else if retcode = GET_REQUEST then Some (GET_REQUEST, h1, out)
                         else map_option (\<lambda>(r, h', out'). (r, h', out @ out')) (parse_content h1)))
          else if linestatus = LINE_OPEN then
            Some (NO_REQUEST, h\<lparr>buffer := b, checked_index := c\<rparr>, [])
          else Some (BAD_REQUEST, h\<lparr>buffer := b, checked_index := c\<rparr>, []))"
  by pat_completeness auto
termination
  by (relation "measure (\<lambda>h. read_index h - checked_index h)") (auto dest!: parse_line_progress)

declare parse_content.simps [simp del]

section \<open>The loop over one connection\<close>

text \<open>
  What \<open>recv\<close> can find: bytes that have arrived, an error, or (the end of the list) that the
  client has closed. It hands out at most the room left in the buffer, and the rest of a longer
  segment is found by the next call; with no room left it returns 0, as it does after a close.
\<close>

datatype recv_event = Recv_Bytes string | Recv_Error

datatype client_end = Reply string | Read_Failed | Peer_Closed

definition fresh_parser :: http_parser where
  "fresh_parser = \<lparr>buffer = replicate BUFFER_SIZE NUL, checked_index = 0,
     checkstate = CHECK_STATE_REQUESTLINE, read_index = 0, start_line = 0\<rparr>"

definition receive :: "http_parser \<Rightarrow> string \<Rightarrow> http_parser" where
  "receive h d = h\<lparr>buffer := take (read_index h) (buffer h) @ d @ drop (read_index h + length d) (buffer h),
                   read_index := read_index h + length d\<rparr>"

definition pending :: "string \<Rightarrow> recv_event list \<Rightarrow> recv_event list" where
  "pending d evs = (if d = [] then evs else Recv_Bytes d # evs)"

fun event_size :: "recv_event \<Rightarrow> nat" where
  "event_size (Recv_Bytes d) = Suc (length d)"
| "event_size Recv_Error = 1"

function serve_client :: "http_parser \<Rightarrow> recv_event list \<Rightarrow> (client_end \<times> string list) option" where
  "serve_client h [] = Some (Peer_Closed, [''remote client has closeed the connection'' @ [LF]])"
| "serve_client h (Recv_Error # evs) = Some (Read_Failed, ['' reading failed'' @ [LF] @ '' ''])"
| "serve_client h (Recv_Bytes d # evs) =
     (let room = BUFFER_SIZE - read_index h; data = take room d in
      if data = [] then Some (Peer_Closed, [''remote client has closeed the connection'' @ [LF]])
      else case parse_content (receive h data) of
             None \<Rightarrow> None
           | Some (result, h', out) \<Rightarrow>
               if result = NO_REQUEST then
                 map_option (\<lambda>(e, out'). (e, out @ out')) (serve_client h' (pending (drop room d) evs))
               else if result = GET_REQUEST then Some (Reply (szret ! 0), out)
               else Some (Reply (szret ! 1), out))"
  by pat_completeness auto
termination
  by (relation "measure (\<lambda>(h, evs). sum_list (map event_size evs))") (auto simp: pending_def)

section \<open>The specification\<close>

text \<open>
  The first line of a byte sequence: ended by CR LF, not yet complete, or malformed (a lone LF, or
  a CR that something else follows).
\<close>

datatype line_scan = Scan_Open | Scan_Bad | Scan_Line string string

fun scan_line :: "string \<Rightarrow> line_scan" where
  "scan_line [] = Scan_Open"
| "scan_line (c # cs) =
     (if c = CR then
        (case cs of [] \<Rightarrow> Scan_Open | d # ds \<Rightarrow> if d = LF then Scan_Line [] ds else Scan_Bad)
      else if c = LF then Scan_Bad
      else case scan_line cs of Scan_Line l r \<Rightarrow> Scan_Line (c # l) r | x \<Rightarrow> x)"

lemma scan_line_shape: "scan_line d = Scan_Line l r \<Longrightarrow> d = l @ CR # LF # r \<and> CR \<notin> set l \<and> LF \<notin> set l"
proof (induction d arbitrary: l)
  case Nil
  then show ?case by simp
next
  case (Cons c d)
  consider "c = CR" | "c = LF" | "c \<noteq> CR" "c \<noteq> LF" by blast
  then show ?case
  proof cases
    case 1
    then show ?thesis using Cons.prems by (simp split: list.splits if_splits)
  next
    case 2
    then show ?thesis using Cons.prems by simp
  next
    case 3
    then obtain l' where "scan_line d = Scan_Line l' r" "l = c # l'"
      using Cons.prems by (simp split: line_scan.splits)
    then show ?thesis using Cons.IH [of l'] 3 by simp
  qed
qed

lemma scan_line_shorter: "scan_line d = Scan_Line l r \<Longrightarrow> length r < length d"
  using scan_line_shape by force

lemma scan_line_CRLF: "CR \<notin> set l \<Longrightarrow> LF \<notin> set l \<Longrightarrow> scan_line (l @ CR # LF # r) = Scan_Line l r"
  by (induction l) auto

lemma scan_line_clean:
  "CR \<notin> set p \<Longrightarrow> LF \<notin> set p \<Longrightarrow>
   scan_line (p @ d) = (case scan_line d of Scan_Line l r \<Rightarrow> Scan_Line (p @ l) r | x \<Rightarrow> x)"
  by (induction p) (auto split: line_scan.splits)

text \<open>More bytes never change a line that is complete or malformed.\<close>

lemma scan_line_append_Line: "scan_line d = Scan_Line l r \<Longrightarrow> scan_line (d @ e) = Scan_Line l (r @ e)"
  by (induction d arbitrary: l r) (auto split: if_splits list.splits line_scan.splits)

lemma scan_line_append_Bad: "scan_line d = Scan_Bad \<Longrightarrow> scan_line (d @ e) = Scan_Bad"
  by (induction d) (auto split: if_splits list.splits line_scan.splits)

text \<open>
  The resource a request line names: the method is GET in any case, the words are separated by
  blanks, the version is HTTP/1.1, and an absolute URL is reduced to its path. Anything else is
  not a request line.
\<close>

definition is_blank :: "char \<Rightarrow> bool" where
  "is_blank c \<longleftrightarrow> c \<in> set blanks"

definition same_nocase :: "string \<Rightarrow> string \<Rightarrow> bool" where
  "same_nocase s t \<longleftrightarrow> map tolower s = map tolower t"

definition url_path :: "string \<Rightarrow> string option" where
  "url_path u =
     (let p = (if same_nocase (take 7 u) ''http://'' then dropWhile (\<lambda>c. c \<noteq> CHR ''/'') (drop 7 u) else u)
      in if p \<noteq> [] \<and> hd p = CHR ''/'' then Some p else None)"

definition request_url :: "string \<Rightarrow> string option" where
  "request_url l =
     (let r1 = dropWhile (\<lambda>c. \<not> is_blank c) l;
          u = takeWhile (\<lambda>c. \<not> is_blank c) (dropWhile is_blank r1);
          r2 = dropWhile (\<lambda>c. \<not> is_blank c) (dropWhile is_blank r1)
      in if r1 = [] \<or> \<not> same_nocase (takeWhile (\<lambda>c. \<not> is_blank c) l) ''GET''
            \<or> r2 = [] \<or> \<not> same_nocase (dropWhile is_blank r2) ''HTTP/1.1''
         then None else url_path u)"

text \<open>The request as a whole. A line counts up to its first NUL byte, as a C string does.\<close>

abbreviation until_NUL :: "string \<Rightarrow> string" where
  "until_NUL l \<equiv> takeWhile (\<lambda>c. c \<noteq> NUL) l"

function abs_parse :: "CHECK_STATE \<Rightarrow> string \<Rightarrow> HTTP_CODE \<times> CHECK_STATE \<times> string" where
  "abs_parse st d =
     (case scan_line d of
        Scan_Open \<Rightarrow> (NO_REQUEST, st, d)
      | Scan_Bad \<Rightarrow> (BAD_REQUEST, st, d)
      | Scan_Line l r \<Rightarrow>
          (case st of
             CHECK_STATE_REQUESTLINE \<Rightarrow>
               (case request_url (until_NUL l) of
                  None \<Rightarrow> (BAD_REQUEST, st, r)
                | Some u \<Rightarrow> abs_parse CHECK_STATE_HEADER r)
           | CHECK_STATE_HEADER \<Rightarrow>
               if until_NUL l = [] then (GET_REQUEST, st, r) else abs_parse CHECK_STATE_HEADER r))"
  by pat_completeness auto
termination
  by (relation "measure (\<lambda>(st, d). length d)") (auto dest: scan_line_shorter)

declare abs_parse.simps [simp del]

lemma abs_parse_append:
  "abs_parse st d = (NO_REQUEST, st', d') \<Longrightarrow> abs_parse st (d @ e) = abs_parse st' (d' @ e)"
proof (induction st d rule: abs_parse.induct)
  case (1 st d)
  show ?case
  proof (cases "scan_line d")
    case (Scan_Line l r)
    then show ?thesis
      using "1.IH" "1.prems" scan_line_append_Line [OF Scan_Line, of e]
      by (auto simp: abs_parse.simps [of st d] abs_parse.simps [of st "d @ e"]
          split: CHECK_STATE.splits option.splits if_splits)
  qed (use "1.prems" in \<open>simp_all add: abs_parse.simps [of st d]\<close>)
qed

lemma abs_parse_final:
  "abs_parse st d = (code, st', d') \<Longrightarrow> code \<noteq> NO_REQUEST \<Longrightarrow> fst (abs_parse st (d @ e)) = code"
proof (induction st d rule: abs_parse.induct)
  case (1 st d)
  show ?case
  proof (cases "scan_line d")
    case (Scan_Line l r)
    then show ?thesis
      using "1.IH" "1.prems" scan_line_append_Line [OF Scan_Line, of e]
      by (auto simp: abs_parse.simps [of st d] abs_parse.simps [of st "d @ e"]
          split: CHECK_STATE.splits option.splits if_splits)
  next
    case Scan_Bad
    then have "code = BAD_REQUEST" using "1.prems" by (simp add: abs_parse.simps [of st d])
    then show ?thesis
      using scan_line_append_Bad [OF Scan_Bad, of e] by (simp add: abs_parse.simps [of st "d @ e"])
  qed (use "1.prems" in \<open>simp_all add: abs_parse.simps [of st d]\<close>)
qed

section \<open>The line scanner refines its specification\<close>

lemma drop_take_Cons: "c < r \<Longrightarrow> r \<le> length b \<Longrightarrow> drop c (take r b) = b ! c # drop (Suc c) (take r b)"
  by (simp add: Cons_nth_drop_Suc [symmetric])

lemma drop_take_Nil: "r \<le> c \<Longrightarrow> drop c (take r b) = []"
  by simp

text \<open>
  The scanner, started where the byte before is not a CR, does what \<open>scan_line\<close> says of the bytes
  from \<open>checked_index\<close> to \<open>read_index\<close>. In particular the branch for a LF after a CR is never
  taken.
\<close>

text \<open>What one call of \<open>parse_line\<close> does, given what the specification says of the unread bytes.\<close>

definition line_found :: "string \<Rightarrow> nat \<Rightarrow> nat \<Rightarrow> bool" where
  "line_found b c r =
     (case scan_line (drop c (take r b)) of
        Scan_Open \<Rightarrow> (\<exists>c' \<le> r. c \<le> c' \<and> parse_line b c r = Some (LINE_OPEN, b, c')
                       \<and> CR \<notin> set (drop c (take c' b)) \<and> LF \<notin> set (drop c (take c' b)))
      | Scan_Bad \<Rightarrow> (\<exists>c'. parse_line b c r = Some (LINE_BAD, b, c'))
      | Scan_Line l rest \<Rightarrow> parse_line b c r =
          Some (LINE_OK, b[c + length l := NUL, Suc (c + length l) := NUL], c + length l + 2))"

lemma line_found_end: "line_found b c c"
  by (simp add: line_found_def parse_line.simps [of b c c])

lemma line_found_CR:
  assumes "b ! c = CR" "c < r" "r \<le> length b"
  shows "line_found b c r"
proof (cases "Suc c < r")
  case True
  then show ?thesis
    using assms drop_take_Cons [OF assms(2,3)] drop_take_Cons [OF True assms(3)]
    by (simp add: line_found_def parse_line.simps [of b c r])
next
  case False
  then have "Suc c = r" using assms(2) by simp
  then show ?thesis using assms drop_take_Cons [OF assms(2,3)] by (auto simp: line_found_def parse_line.simps [of b c r])
qed

lemma line_found_other:
  assumes "b ! c \<noteq> CR" "b ! c \<noteq> LF" "c < r" "r \<le> length b" and IH: "line_found b (Suc c) r"
  shows "line_found b c r"
proof -
  note d = drop_take_Cons [OF assms(3,4)]
  have step: "parse_line b c r = parse_line b (Suc c) r"
    using assms(1-4) by (simp add: parse_line.simps [of b c r])
  have clean: "x \<notin> set (drop c (take c' b))"
    if "Suc c \<le> c'" "c' \<le> r" "x \<notin> set (drop (Suc c) (take c' b))" "b ! c \<noteq> x" for x c'
    using drop_take_Cons [of c c' b] that assms(4) by simp
  show ?thesis
  proof (cases "scan_line (drop (Suc c) (take r b))")
    case Scan_Open
    with IH obtain c' where c': "c' \<le> r" "Suc c \<le> c'" "parse_line b c r = Some (LINE_OPEN, b, c')"
      "CR \<notin> set (drop (Suc c) (take c' b))" "LF \<notin> set (drop (Suc c) (take c' b))"
      using step by (auto simp: line_found_def)
    then have "CR \<notin> set (drop c (take c' b))" "LF \<notin> set (drop c (take c' b))"
      using clean assms(1,2) by simp_all
    then show ?thesis using Scan_Open c' assms(1,2) d by (auto simp: line_found_def)
  qed (use IH step assms(1,2) d in \<open>auto simp: line_found_def\<close>)
qed

lemma parse_line_scan:
  assumes "r \<le> length b" "0 < c \<Longrightarrow> b ! (c - 1) \<noteq> CR" "c \<le> r"
  shows "line_found b c r"
  using assms
proof (induction b c r rule: parse_line.induct)
  case (1 b c r)
  show ?case
  proof (cases "c < r")
    case False
    then have "c = r" using "1.prems"(3) by simp
    then show ?thesis using line_found_end by simp
  next
    case True
    have c: "c < length b" using True "1.prems"(1) by simp
    consider "b ! c = CR" | "b ! c = LF" | "b ! c \<noteq> CR" "b ! c \<noteq> LF" by blast
    then show ?thesis
    proof cases
      case 1
      then show ?thesis using line_found_CR True "1.prems"(1) by blast
    next
      case 2
      then show ?thesis
        using c True drop_take_Cons [OF True "1.prems"(1)] "1.prems"(2) by (simp add: line_found_def parse_line.simps [of b c r])
    next
      case 3
      have "line_found b (Suc c) r" using "1.IH" [OF True _ 3] "1.prems" c 3 True by simp
      then show ?thesis by (rule line_found_other [OF 3 True "1.prems"(1)])
    qed
  qed
qed

section \<open>The request line refines its specification\<close>

text \<open>The C string functions at the start of a terminated string inside a larger array.\<close>

abbreviation nonblank :: "char \<Rightarrow> bool" where
  "nonblank c \<equiv> \<not> is_blank c"

lemma strpbrk_blanks:
  assumes "NUL \<notin> set s"
  shows "strpbrk (p @ s @ NUL # r) (length p) blanks =
    Some (if dropWhile nonblank s = [] then None else Some (length p + length (takeWhile nonblank s)))"
proof -
  have "(\<exists>c \<in> set s. c \<in> set blanks) \<longleftrightarrow> dropWhile nonblank s \<noteq> []"
    by (simp add: is_blank_def dropWhile_eq_Nil_conv)
  moreover have "takeWhile (\<lambda>c. c \<notin> set blanks) s = takeWhile nonblank s"
    by (simp add: is_blank_def)
  ultimately show ?thesis
    using assms by (simp add: strpbrk_def strpbrk_from_term del: set_simps)
qed

lemma strspn_blanks:
  assumes "NUL \<notin> set s"
  shows "strspn (p @ s @ NUL # r) (length p) blanks = Some (length (takeWhile is_blank s))"
proof -
  have "takeWhile (\<lambda>c. c \<in> set blanks) s = takeWhile is_blank s"
    by (rule takeWhile_cong) (auto simp: is_blank_def)
  then show ?thesis using assms strspn_from_term [of blanks s r] by (simp add: strspn_def)
qed

lemma strchr_at:
  assumes "NUL \<notin> set s"
  shows "strchr (p @ s @ NUL # r) (length p) c =
    Some (if dropWhile (\<lambda>x. x \<noteq> c) s = [] then None
          else Some (length p + length (takeWhile (\<lambda>x. x \<noteq> c) s)))"
  using assms by (auto simp: strchr_def strpbrk_def strpbrk_from_term dropWhile_eq_Nil_conv)

lemma strcaseeq_at:
  "NUL \<notin> set s \<Longrightarrow> NUL \<notin> set lit \<Longrightarrow>
   strcaseeq (p @ s @ NUL # r) (length p) lit = Some (same_nocase s lit)"
  by (simp add: strcaseeq_def strcaseeq_from_term same_nocase_def)

lemma strncaseeq_at:
  "NUL \<notin> set s \<Longrightarrow> NUL \<notin> set lit \<Longrightarrow> n = length lit \<Longrightarrow>
   strncaseeq (p @ s @ NUL # r) (length p) lit n = Some (same_nocase (take n s) lit)"
  by (simp add: strncaseeq_def strncaseeq_from_term same_nocase_def)

lemma c_string_at: "NUL \<notin> set s \<Longrightarrow> c_string (p @ s @ NUL # r) (length p) = Some s"
  by (simp add: c_string_def c_string_from_term)

lemma poke_at: "poke (p @ x # r) (length p) v = Some (p @ v # r)"
  by (simp add: poke_def)

lemma peek_at: "s \<noteq> [] \<Longrightarrow> peek (p @ s @ r) (length p) = Some (hd s)"
  by (cases s) (simp_all add: peek_def nth_append)

lemma dropWhile_nonblank_Cons: "dropWhile nonblank s = b # t \<Longrightarrow> is_blank b"
  by (metis dropWhile_eq_Cons_conv)

text \<open>The last step: an absolute URL is cut down to its path and the path must start with a slash.\<close>

lemma check_path:
  fixes good :: "string \<Rightarrow> HTTP_CODE \<times> CHECK_STATE \<times> string \<times> string list"
  assumes "NUL \<notin> set s"
  shows "do {
          c \<leftarrow> peek (p @ s @ NUL # r) (length p);
          if c \<noteq> CHR ''/'' then Some bad
          else do { s \<leftarrow> c_string (p @ s @ NUL # r) (length p); Some (good s) } }
      = Some (if s \<noteq> [] \<and> hd s = CHR ''/'' then good s else bad)"
  using assms c_string_at [of s p r] by (cases s) (auto simp: peek_def nth_append)

lemma check_url_spec:
  assumes "NUL \<notin> set u"
  shows "check_url (p @ u @ NUL # r) (length p) st out = Some (case url_path u of
      None \<Rightarrow> (BAD_REQUEST, st, p @ u @ NUL # r, out)
    | Some s \<Rightarrow> (NO_REQUEST, CHECK_STATE_HEADER, p @ u @ NUL # r,
                out @ [''The request url is: '' @ s @ [LF]]))"
proof -
  have abs: "strncaseeq (p @ u @ NUL # r) (length p) ''http://'' 7
      = Some (same_nocase (take 7 u) ''http://'')"
    by (rule strncaseeq_at) (simp_all add: assms)
  note tail = check_path [of _ _ r]
  show ?thesis
  proof (cases "same_nocase (take 7 u) ''http://''")
    case False
    then show ?thesis
      using abs tail [OF assms, of p] unfolding check_url_def url_path_def Let_def
      by (cases "u \<noteq> [] \<and> hd u = CHR ''/''") (simp_all only: if_True if_False simp_thms bind.simps option.case)
  next
    case True
    let ?w = "takeWhile (\<lambda>x. x \<noteq> CHR ''/'') (drop 7 u)"
    let ?s = "dropWhile (\<lambda>x. x \<noteq> CHR ''/'') (drop 7 u)"
    have "length (map tolower (take 7 u)) = length (map tolower ''http://'')"
      using True by (simp only: same_nocase_def)
    then have len: "length (take 7 u) = 7" by simp
    have split: "u = take 7 u @ ?w @ ?s" by simp
    have nul: "NUL \<notin> set (drop 7 u)" "NUL \<notin> set ?s"
      using assms by (auto dest: in_set_dropD set_dropWhileD)
    have chr: "strchr (p @ u @ NUL # r) (length p + 7) (CHR ''/'')
        = Some (if ?s = [] then None else Some (length p + 7 + length ?w))"
    proof -
      have "(p @ take 7 u) @ drop 7 u @ NUL # r = p @ u @ NUL # r" "length (p @ take 7 u) = length p + 7"
        using len by (metis append.assoc append_take_drop_id, simp)
      then show ?thesis using strchr_at [OF nul(1), of "p @ take 7 u" r "CHR ''/''"] by metis
    qed
    define B where "B = p @ u @ NUL # r"
    define k where "k = length p + 7 + length ?w"
    have "B = (p @ take 7 u @ ?w) @ ?s @ NUL # r" "k = length (p @ take 7 u @ ?w)"
      unfolding B_def k_def using split len by (metis append.assoc, simp)
    then have "do {
          c \<leftarrow> peek B k;
          if c \<noteq> CHR ''/'' then Some bad else do { s \<leftarrow> c_string B k; Some (good s) } }
      = Some (if ?s \<noteq> [] \<and> hd ?s = CHR ''/'' then good ?s else bad)" for bad and good :: "string \<Rightarrow> HTTP_CODE \<times> CHECK_STATE \<times> string \<times> string list"
      using tail [OF nul(2), of "p @ take 7 u @ ?w"] by metis
    then show ?thesis
      using True abs chr unfolding B_def [symmetric] k_def [symmetric]
      by (cases "?s = []"; cases "hd ?s = CHR ''/''")
        (simp_all only: check_url_def url_path_def Let_def if_True if_False simp_thms bind.simps option.case)
  qed
qed

text \<open>The version ends the URL; then the URL is checked. The cut line keeps its length.\<close>

definition version_url :: "string \<Rightarrow> string option" where
  "version_url x =
     (if dropWhile nonblank x = [] \<or> \<not> same_nocase (dropWhile is_blank (dropWhile nonblank x)) ''HTTP/1.1'' then None
      else url_path (takeWhile nonblank x))"

definition url_result :: "CHECK_STATE \<Rightarrow> string list \<Rightarrow> string option \<Rightarrow> string \<Rightarrow> HTTP_CODE \<times> CHECK_STATE \<times> string \<times> string list" where
  "url_result st out u b =
     (case u of
        None \<Rightarrow> (BAD_REQUEST, st, b, out)
      | Some u \<Rightarrow> (NO_REQUEST, CHECK_STATE_HEADER, b, out @ [''The request url is: '' @ u @ [LF]]))"

lemma check_version_spec:
  assumes nul: "NUL \<notin> set x"
  shows "\<exists>x'. length x' = length x
    \<and> check_version (p @ x @ NUL # r) (length p) st out = Some (url_result st out (version_url x) (p @ x' @ NUL # r))"
proof (cases "dropWhile nonblank x")
  case Nil
  then show ?thesis
    using strpbrk_blanks [OF nul, of p r] by (auto simp: check_version_def version_url_def url_result_def)
next
  case (Cons b v)
  let ?u = "takeWhile nonblank x" and ?w = "takeWhile is_blank v" and ?y = "dropWhile is_blank v"
  have x: "x = ?u @ b # v" using Cons takeWhile_dropWhile_id [of nonblank x] by simp
  have "NUL \<notin> set (dropWhile nonblank x)" using nul by (auto dest: set_dropWhileD)
  then have nuls: "NUL \<notin> set ?u" "NUL \<notin> set v" "NUL \<notin> set ?y"
    using nul Cons by (auto dest: set_takeWhileD set_dropWhileD)
  define k where "k = length (p @ ?u)"
  define B where "B = p @ x @ NUL # r"
  define B' where "B' = p @ ?u @ NUL # v @ NUL # r"
  have s1: "strpbrk B (length p) blanks = Some (Some k)"
    using strpbrk_blanks [OF nul, of p r] Cons by (simp add: B_def k_def)
  have p1: "poke B k NUL = Some B'"
    unfolding B_def B'_def k_def
    using poke_at [of "p @ ?u" b "v @ NUL # r" NUL] x by (metis append.assoc append_Cons)
  have s2: "strspn B' (Suc k) blanks = Some (length ?w)"
    using strspn_blanks [OF nuls(2), of "p @ ?u @ [NUL]" r] by (simp add: B'_def k_def)
  have "B' = (p @ ?u @ [NUL] @ ?w) @ ?y @ NUL # r" by (simp add: B'_def)
  then have s3: "strcaseeq B' (Suc (k + length ?w)) ''HTTP/1.1'' = Some (same_nocase ?y ''HTTP/1.1'')"
    using strcaseeq_at [OF nuls(3), of "''HTTP/1.1''" "p @ ?u @ [NUL] @ ?w" r] by (simp add: k_def add.assoc)
  have url: "check_url B' (length p) st out = Some (url_result st out (url_path ?u) B')"
    using check_url_spec [OF nuls(1), of p "v @ NUL # r"] by (simp add: B'_def url_result_def)
  have "is_blank b" using dropWhile_nonblank_Cons [OF Cons] .
  then have "version_url x = (if same_nocase ?y ''HTTP/1.1'' then url_path ?u else None)"
    using Cons by (simp add: version_url_def)
  then have "check_version B (length p) st out = Some (url_result st out (version_url x) B')"
    using s1 p1 s2 s3 url by (simp add: check_version_def url_result_def Let_def)
  moreover have "length (?u @ NUL # v) = length x" using x by (metis length_append length_Cons)
  moreover have "B' = p @ (?u @ NUL # v) @ NUL # r" by (simp add: B'_def)
  ultimately show ?thesis unfolding B_def by metis
qed

lemma parse_requestline_spec:
  assumes nul: "NUL \<notin> set l"
  shows "\<exists>l' out. length l' = length l \<and>
    parse_requestline (pre @ l @ NUL # rest) (length pre) st = Some (url_result st out (request_url l) (pre @ l' @ NUL # rest))"
proof (cases "dropWhile nonblank l")
  case Nil
  then have "parse_requestline (pre @ l @ NUL # rest) (length pre) st
      = Some (BAD_REQUEST, st, pre @ l @ NUL # rest, [])"
    using strpbrk_blanks [OF nul, of pre rest] by (simp add: parse_requestline_def)
  then show ?thesis using Nil by (auto simp: request_url_def url_result_def)
next
  case (Cons b t)
  let ?m = "takeWhile nonblank l" and ?w = "takeWhile is_blank t" and ?x = "dropWhile is_blank t"
  have l: "l = ?m @ b # t" using Cons takeWhile_dropWhile_id [of nonblank l] by simp
  have "NUL \<notin> set (dropWhile nonblank l)" using nul by (auto dest: set_dropWhileD)
  then have nuls: "NUL \<notin> set ?m" "NUL \<notin> set t" "NUL \<notin> set ?x"
    using nul Cons by (auto dest: set_takeWhileD set_dropWhileD)
  define i where "i = length (pre @ ?m)"
  define B where "B = pre @ l @ NUL # rest"
  define B1 where "B1 = (pre @ ?m @ [NUL]) @ t @ NUL # rest"
  have s1: "strpbrk B (length pre) blanks = Some (Some i)"
    using strpbrk_blanks [OF nul, of pre rest] Cons by (simp add: B_def i_def)
  have p1: "poke B i NUL = Some B1"
    unfolding B_def B1_def i_def
    using poke_at [of "pre @ ?m" b "t @ NUL # rest" NUL] l by (metis append.assoc append_Cons append_Nil)
  have s2: "strcaseeq B1 (length pre) ''GET'' = Some (same_nocase ?m ''GET'')"
    using strcaseeq_at [of ?m "''GET''" pre "t @ NUL # rest"] nuls by (simp add: B1_def)
  have s3: "strspn B1 (Suc i) blanks = Some (length ?w)"
    using strspn_blanks [OF nuls(2), of "pre @ ?m @ [NUL]" rest] by (simp add: B1_def i_def)
  have "is_blank b" using dropWhile_nonblank_Cons [OF Cons] .
  then have spec: "request_url l = (if same_nocase ?m ''GET'' then version_url ?x else None)"
    using Cons by (auto simp: request_url_def version_url_def Let_def)
  have len: "length l = length ?m + Suc (length t)" using l by (metis length_append length_Cons)
  show ?thesis
  proof (cases "same_nocase ?m ''GET''")
    case False
    then have "parse_requestline B (length pre) st = Some (BAD_REQUEST, st, pre @ (?m @ NUL # t) @ NUL # rest, [])"
      using s1 p1 s2 by (simp add: parse_requestline_def B1_def)
    then show ?thesis using False spec len unfolding B_def url_result_def
      by (intro exI [of _ "?m @ NUL # t"] exI [of _ "[]"]) simp
  next
    case True
    let ?out = "[''The request method is GET '' @ [LF]]" and ?p = "pre @ ?m @ [NUL] @ ?w"
    obtain x' where x': "length x' = length ?x"
      "check_version (?p @ ?x @ NUL # rest) (length ?p) st ?out = Some (url_result st ?out (version_url ?x) (?p @ x' @ NUL # rest))"
      using check_version_spec [OF nuls(3)] by blast
    have "B1 = ?p @ ?x @ NUL # rest" "Suc (i + length ?w) = length ?p" by (simp_all add: B1_def i_def)
    then have "parse_requestline B (length pre) st =
        Some (url_result st ?out (request_url l) (pre @ (?m @ NUL # ?w @ x') @ NUL # rest))"
      using s1 p1 s2 s3 x'(2) True spec by (simp add: parse_requestline_def Let_def add.assoc)
    moreover have "length t = length ?w + length ?x" by (metis length_append takeWhile_dropWhile_id)
    then have "length (?m @ NUL # ?w @ x') = length l" using len x'(1) by simp
    ultimately show ?thesis unfolding B_def by blast
  qed
qed

lemma parse_headers_spec:
  assumes nul: "NUL \<notin> set s"
  shows "\<exists>out. parse_headers (p @ s @ NUL # r) (length p)
    = Some (if s = [] then GET_REQUEST else NO_REQUEST, out)"
proof (cases "s = []")
  case True
  then show ?thesis by (simp add: parse_headers_def peek_def nth_append)
next
  case False
  have host: "strncaseeq (p @ s @ NUL # r) (length p) ''Host:'' 5 = Some (same_nocase (take 5 s) ''Host:'')"
    by (rule strncaseeq_at) (simp_all add: nul)
  have first: "peek (p @ s @ NUL # r) (length p) = Some (hd s)" "hd s \<noteq> NUL"
    using peek_at [OF False] nul False by (auto dest: sym)
  show ?thesis
  proof (cases "same_nocase (take 5 s) ''Host:''")
    case other: False
    then show ?thesis using host first False by (simp add: parse_headers_def)
  next
    case True
    have "length (map tolower (take 5 s)) = length (map tolower ''Host:'')"
      using True by (simp only: same_nocase_def)
    then have len: "length (take 5 s) = 5" by simp
    let ?w = "takeWhile is_blank (drop 5 s)" and ?v = "dropWhile is_blank (drop 5 s)"
    have nuls: "NUL \<notin> set (drop 5 s)" "NUL \<notin> set ?v"
      using nul by (auto dest: in_set_dropD set_dropWhileD)
    define B where "B = p @ s @ NUL # r"
    have B: "B = (p @ take 5 s) @ drop 5 s @ NUL # r"
      unfolding B_def by (metis append.assoc append_take_drop_id)
    have "drop 5 s = ?w @ ?v" by simp
    then have B': "B = (p @ take 5 s @ ?w) @ ?v @ NUL # r" using B by (metis append.assoc)
    have "strspn B (length p + 5) blanks = Some (length ?w)"
      using strspn_blanks [OF nuls(1), of "p @ take 5 s" r] len unfolding B by simp
    moreover have "c_string B (length p + 5 + length ?w) = Some ?v"
      using c_string_at [OF nuls(2), of "p @ take 5 s @ ?w" r] len unfolding B' by (simp add: add.assoc)
    ultimately show ?thesis
      using host first False True unfolding B_def [symmetric] by (simp add: parse_headers_def Let_def)
  qed
qed

section \<open>The whole parser refines its specification\<close>

text \<open>
  The state between two calls: the line being read starts at \<open>start_line\<close>, everything up to
  \<open>checked_index\<close> has been seen to hold no line end, and the byte before the line is the NUL
  that replaced the previous line end.
\<close>

definition http_inv :: "http_parser \<Rightarrow> bool" where
  "http_inv h \<longleftrightarrow>
     length (buffer h) = BUFFER_SIZE
     \<and> start_line h \<le> checked_index h \<and> checked_index h \<le> read_index h \<and> read_index h \<le> BUFFER_SIZE
     \<and> (0 < start_line h \<longrightarrow> buffer h ! (start_line h - 1) = NUL)
     \<and> CR \<notin> set (drop (start_line h) (take (checked_index h) (buffer h)))
     \<and> LF \<notin> set (drop (start_line h) (take (checked_index h) (buffer h)))"

definition unparsed :: "http_parser \<Rightarrow> string" where
  "unparsed h = drop (start_line h) (take (read_index h) (buffer h))"

lemma http_invD:
  assumes "http_inv h"
  shows "length (buffer h) = BUFFER_SIZE" "start_line h \<le> checked_index h"
    "checked_index h \<le> read_index h" "read_index h \<le> BUFFER_SIZE"
  using assms by (auto simp: http_inv_def)

lemma unparsed_split:
  assumes "http_inv h"
  shows "unparsed h = drop (start_line h) (take (checked_index h) (buffer h))
           @ drop (checked_index h) (take (read_index h) (buffer h))"
proof -
  let ?b = "buffer h" and ?s = "start_line h" and ?c = "checked_index h" and ?r = "read_index h"
  have "take ?r ?b = take ?c ?b @ drop ?c (take ?r ?b)"
    using http_invD [OF assms] by (metis append_take_drop_id min_absorb1 take_take)
  then have "drop ?s (take ?r ?b) = drop ?s (take ?c ?b @ drop ?c (take ?r ?b))" by metis
  then show ?thesis using http_invD [OF assms] by (simp add: unparsed_def)
qed

lemma before_checked:
  assumes "http_inv h" "0 < checked_index h"
  shows "buffer h ! (checked_index h - 1) \<noteq> CR"
proof (cases "start_line h < checked_index h")
  case True
  let ?p = "drop (start_line h) (take (checked_index h) (buffer h))"
  have "?p ! (checked_index h - 1 - start_line h) = buffer h ! (checked_index h - 1)"
    "checked_index h - 1 - start_line h < length ?p"
    using True http_invD [OF assms(1)] by auto
  then have "buffer h ! (checked_index h - 1) \<in> set ?p" by (metis nth_mem)
  then show ?thesis using assms(1) by (auto simp: http_inv_def)
next
  case False
  then show ?thesis using assms by (auto simp: http_inv_def)
qed

text \<open>A byte sequence followed by a NUL, seen as a C string.\<close>

lemma until_NUL_term: "\<exists>t. l @ NUL # x = until_NUL l @ NUL # t"
proof (cases "NUL \<in> set l")
  case True
  then obtain p l2 where "l = p @ NUL # l2" "NUL \<notin> set p" by (meson split_list_first)
  moreover have "until_NUL p = p" using \<open>NUL \<notin> set p\<close> by (auto simp: takeWhile_eq_all_conv)
  ultimately show ?thesis by (simp add: takeWhile_tail)
next
  case False
  then have "until_NUL l = l" by (auto simp: takeWhile_eq_all_conv)
  then show ?thesis by metis
qed

lemma NUL_notin_until [simp]: "NUL \<notin> set (until_NUL l)"
  by (auto dest: set_takeWhileD)

text \<open>What the buffer holds after \<open>parse_line\<close> has cut the line \<open>l\<close> off.\<close>

lemma cut_line:
  fixes b :: string
  assumes d: "drop s (take r b) = l @ CR # LF # rest" and r: "r \<le> length b"
  defines "b1 \<equiv> b[s + length l := NUL, Suc (s + length l) := NUL]" and "c \<equiv> s + length l + 2"
  shows "c \<le> r" "drop c (take r b1) = rest" "b1 ! (c - 1) = NUL" "drop c b1 = drop c b"
    "length b1 = length b" "\<exists>t. b1 = take s b @ until_NUL l @ NUL # t"
proof -
  have len: "length (drop s (take r b)) = length l + 2 + length rest" by (simp add: d)
  then show c: "c \<le> r" using r by (simp add: c_def)
  have s: "s \<le> length b" "length (take s b) = s" using c r by (simp_all add: c_def)
  have "take s (take r b) = take s b" using c by (simp add: c_def)
  then have "take r b = take s b @ l @ CR # LF # rest" using d by (metis append_take_drop_id)
  then have b: "b = take s b @ l @ CR # LF # rest @ drop r b"
    by (metis append_take_drop_id append.assoc append_Cons)
  have b1: "b1 = take s b @ l @ NUL # NUL # rest @ drop r b"
    unfolding b1_def by (subst b) (use s in \<open>simp add: list_update_append\<close>)
  show same: "drop c b1 = drop c b" by (simp add: b1_def c_def)
  have "drop c (take r b) = drop (length l + 2) (drop s (take r b))"
    by (simp add: c_def add.commute add.left_commute)
  also have "\<dots> = rest" by (simp add: d)
  finally show "drop c (take r b1) = rest" using same by (simp add: drop_take)
  show "b1 ! (c - 1) = NUL" using s c r by (simp add: b1_def c_def)
  show "length b1 = length b" by (simp add: b1_def)
  show "\<exists>t. b1 = take s b @ until_NUL l @ NUL # t"
    using b1 until_NUL_term [of l "NUL # rest @ drop r b"] by metis
qed

lemma scan_unparsed:
  assumes "http_inv h"
  shows "scan_line (unparsed h) =
    (case scan_line (drop (checked_index h) (take (read_index h) (buffer h))) of
       Scan_Line l r \<Rightarrow> Scan_Line (drop (start_line h) (take (checked_index h) (buffer h)) @ l) r
     | x \<Rightarrow> x)"
  unfolding unparsed_split [OF assms]
  by (rule scan_line_clean) (use assms in \<open>auto simp: http_inv_def\<close>)

lemma length_checked_prefix:
  "http_inv h \<Longrightarrow>
   length (drop (start_line h) (take (checked_index h) (buffer h))) = checked_index h - start_line h"
  by (auto simp: http_inv_def)

text \<open>The three outcomes of \<open>parse_line\<close> in a well-formed state.\<close>

lemma parse_line_Open:
  assumes "http_inv h" "scan_line (unparsed h) = Scan_Open"
  shows "\<exists>c. parse_line (buffer h) (checked_index h) (read_index h) = Some (LINE_OPEN, buffer h, c)
    \<and> http_inv (h\<lparr>checked_index := c\<rparr>)"
proof -
  let ?b = "buffer h" and ?s = "start_line h" and ?c = "checked_index h" and ?r = "read_index h"
  have "scan_line (drop ?c (take ?r ?b)) = Scan_Open"
    using assms(2) unfolding scan_unparsed [OF assms(1)] by (simp split: line_scan.splits)
  then obtain c where c: "c \<le> ?r" "?c \<le> c" "parse_line ?b ?c ?r = Some (LINE_OPEN, ?b, c)"
    and clean: "CR \<notin> set (drop ?c (take c ?b))" "LF \<notin> set (drop ?c (take c ?b))"
    using parse_line_scan [of ?r ?b ?c] before_checked [OF assms(1)] http_invD [OF assms(1)] by (auto simp: line_found_def)
  have "take c ?b = take ?c ?b @ drop ?c (take c ?b)"
    using c(2) by (metis append_take_drop_id min_absorb1 take_take)
  then have "drop ?s (take c ?b) = drop ?s (take ?c ?b @ drop ?c (take c ?b))" by metis
  then have "drop ?s (take c ?b) = drop ?s (take ?c ?b) @ drop ?c (take c ?b)"
    using http_invD [OF assms(1)] by simp
  then have "http_inv (h\<lparr>checked_index := c\<rparr>)"
    using assms(1) c clean by (auto simp: http_inv_def)
  with c(3) show ?thesis by blast
qed

lemma parse_line_Bad:
  assumes "http_inv h" "scan_line (unparsed h) = Scan_Bad"
  shows "\<exists>c. parse_line (buffer h) (checked_index h) (read_index h) = Some (LINE_BAD, buffer h, c)"
proof -
  have "scan_line (drop (checked_index h) (take (read_index h) (buffer h))) = Scan_Bad"
    using assms(2) unfolding scan_unparsed [OF assms(1)] by (simp split: line_scan.splits)
  then show ?thesis
    using parse_line_scan [of "read_index h" "buffer h" "checked_index h"]
      before_checked [OF assms(1)] http_invD [OF assms(1)] by (auto simp: line_found_def)
qed

lemma parse_line_Line:
  assumes "http_inv h" "scan_line (unparsed h) = Scan_Line l rest"
  defines "b1 \<equiv> (buffer h)[start_line h + length l := NUL, Suc (start_line h + length l) := NUL]"
    and "c1 \<equiv> start_line h + length l + 2"
  shows "parse_line (buffer h) (checked_index h) (read_index h) = Some (LINE_OK, b1, c1)"
    and "\<And>st. http_inv (h\<lparr>buffer := b1, checked_index := c1, start_line := c1, checkstate := st\<rparr>)"
    and "\<And>st. unparsed (h\<lparr>buffer := b1, checked_index := c1, start_line := c1, checkstate := st\<rparr>) = rest"
    and "\<exists>t. b1 = take (start_line h) (buffer h) @ until_NUL l @ NUL # t"
    and "drop (read_index h) b1 = drop (read_index h) (buffer h)"
proof -
  let ?p = "drop (start_line h) (take (checked_index h) (buffer h))"
  obtain l' where l: "l = ?p @ l'"
    and l': "scan_line (drop (checked_index h) (take (read_index h) (buffer h))) = Scan_Line l' rest"
    using assms(2) unfolding scan_unparsed [OF assms(1)] by (simp split: line_scan.splits)
  have len: "checked_index h + length l' = start_line h + length l"
    using length_checked_prefix [OF assms(1)] http_invD(2) [OF assms(1)] l by simp
  show "parse_line (buffer h) (checked_index h) (read_index h) = Some (LINE_OK, b1, c1)"
    using parse_line_scan [of "read_index h" "buffer h" "checked_index h"] l'
      before_checked [OF assms(1)] http_invD [OF assms(1)] len by (simp add: line_found_def b1_def c1_def)
  have d: "drop (start_line h) (take (read_index h) (buffer h)) = l @ CR # LF # rest"
    using scan_line_shape [OF assms(2)] by (simp add: unparsed_def)
  have r: "read_index h \<le> length (buffer h)" using http_invD [OF assms(1)] by simp
  note cut = cut_line [OF d r, folded b1_def c1_def]
  show "http_inv (h\<lparr>buffer := b1, checked_index := c1, start_line := c1, checkstate := st\<rparr>)" for st
    using cut http_invD [OF assms(1)] by (simp add: http_inv_def)
  show "unparsed (h\<lparr>buffer := b1, checked_index := c1, start_line := c1, checkstate := st\<rparr>) = rest" for st
    using cut by (simp add: unparsed_def)
  show "\<exists>t. b1 = take (start_line h) (buffer h) @ until_NUL l @ NUL # t" by (rule cut(6))
  show "drop (read_index h) b1 = drop (read_index h) (buffer h)"
    using cut(1) by (simp add: b1_def c1_def)
qed

text \<open>
  What a parser state must satisfy after \<open>parse_content\<close> to match the specification's result.
\<close>

definition refines :: "http_parser \<Rightarrow> HTTP_CODE \<times> CHECK_STATE \<times> string \<Rightarrow> HTTP_CODE \<times> http_parser \<Rightarrow> bool" where
  "refines h spec res \<longleftrightarrow>
     fst res = fst spec
     \<and> read_index (snd res) = read_index h
     \<and> drop (read_index h) (buffer (snd res)) = drop (read_index h) (buffer h)
     \<and> (fst res = NO_REQUEST \<longrightarrow> http_inv (snd res)
          \<and> spec = (NO_REQUEST, checkstate (snd res), unparsed (snd res)))"

lemma refines_trans:
  "refines h1 spec res \<Longrightarrow> read_index h1 = read_index h
   \<Longrightarrow> drop (read_index h) (buffer h1) = drop (read_index h) (buffer h) \<Longrightarrow> refines h spec res"
  by (auto simp: refines_def)

text \<open>A change inside the line that was cut off leaves the state of the rest as it was.\<close>

lemma http_inv_line_changed:
  assumes "http_inv (h\<lparr>buffer := b1, checked_index := c, start_line := c, checkstate := st\<rparr>)"
    and "b1 = p @ s @ NUL # t" "b2 = p @ s' @ NUL # t" "length s' = length s"
    and "length (p @ s) < c"
  shows "http_inv (h\<lparr>buffer := b2, checked_index := c, start_line := c, checkstate := st'\<rparr>)"
    and "unparsed (h\<lparr>buffer := b2, checked_index := c, start_line := c, checkstate := st'\<rparr>)
       = unparsed (h\<lparr>buffer := b1, checked_index := c, start_line := c, checkstate := st\<rparr>)"
    and "length (p @ s) \<le> n \<Longrightarrow> drop n b2 = drop n b1"
proof -
  have same: "drop n b2 = drop n b1" if "length (p @ s) \<le> n" for n
    using that assms(2,3,4) by simp
  then show "length (p @ s) \<le> n \<Longrightarrow> drop n b2 = drop n b1" .
  have len: "length b2 = length b1" using assms by simp
  have "c - 1 < length b1" using assms(1,5) by (auto simp: http_inv_def)
  moreover have "hd (drop (c - 1) b2) = hd (drop (c - 1) b1)"
    using same [of "c - 1"] assms(5) by simp
  ultimately have "b2 ! (c - 1) = b1 ! (c - 1)" using len by (simp add: hd_drop_conv_nth)
  then show "http_inv (h\<lparr>buffer := b2, checked_index := c, start_line := c, checkstate := st'\<rparr>)"
    using assms(1) len by (simp add: http_inv_def)
  show "unparsed (h\<lparr>buffer := b2, checked_index := c, start_line := c, checkstate := st'\<rparr>)
       = unparsed (h\<lparr>buffer := b1, checked_index := c, start_line := c, checkstate := st\<rparr>)"
    using same [of c] assms(5) by (simp add: unparsed_def drop_take)
qed

text \<open>One complete line in a well-formed state: the result, or the state in which the loop goes on with the rest.\<close>

definition goes_on :: "http_parser \<Rightarrow> CHECK_STATE \<Rightarrow> string \<Rightarrow> bool" where
  "goes_on h st rest \<longleftrightarrow> (\<exists>h' out. http_inv h' \<and> unparsed h' = rest \<and> checkstate h' = st \<and> read_index h' = read_index h
     \<and> drop (read_index h) (buffer h') = drop (read_index h) (buffer h)
     \<and> parse_content h = map_option (\<lambda>(r, h', out'). (r, h', out @ out')) (parse_content h'))"

lemma goes_on_refines:
  assumes "goes_on h st rest"
    and IH: "\<And>h'. http_inv h' \<Longrightarrow> unparsed h' = rest \<Longrightarrow> checkstate h' = st \<Longrightarrow>
      \<exists>code h2 out. parse_content h' = Some (code, h2, out) \<and> refines h' (abs_parse st rest) (code, h2)"
  shows "\<exists>code h2 out. parse_content h = Some (code, h2, out) \<and> refines h (abs_parse st rest) (code, h2)"
proof -
  obtain h' out where h': "http_inv h'" "unparsed h' = rest" "checkstate h' = st" "read_index h' = read_index h"
    "drop (read_index h) (buffer h') = drop (read_index h) (buffer h)"
    "parse_content h = map_option (\<lambda>(r, h', out'). (r, h', out @ out')) (parse_content h')"
    using assms(1) by (auto simp: goes_on_def)
  obtain code h2 out2 where "parse_content h' = Some (code, h2, out2)" "refines h' (abs_parse st rest) (code, h2)"
    using IH [OF h'(1-3)] by blast
  then show ?thesis using h'(6) refines_trans [OF _ h'(4,5)] by auto
qed

lemma parse_content_header_line:
  assumes inv: "http_inv h" and scan: "scan_line (unparsed h) = Scan_Line l rest" and st: "checkstate h = CHECK_STATE_HEADER"
  shows "if until_NUL l = [] then \<exists>h' out. parse_content h = Some (GET_REQUEST, h', out) \<and> refines h (GET_REQUEST, x) (GET_REQUEST, h')
    else goes_on h CHECK_STATE_HEADER rest"
proof -
  define b1 where "b1 = (buffer h)[start_line h + length l := NUL, Suc (start_line h + length l) := NUL]"
  define c1 where "c1 = start_line h + length l + 2"
  note pl = parse_line_Line [OF inv scan, folded b1_def c1_def]
  let ?h1 = "h\<lparr>buffer := b1, checked_index := c1, start_line := c1\<rparr>"
  obtain t where t: "b1 = take (start_line h) (buffer h) @ until_NUL l @ NUL # t" using pl(4) by blast
  have h1: "http_inv ?h1" "unparsed ?h1 = rest"
    using pl(2) [of "checkstate h"] pl(3) [of "checkstate h"] by simp_all
  have "length (take (start_line h) (buffer h)) = start_line h" using http_invD [OF inv] by simp
  then obtain out where ph: "parse_headers b1 (start_line h) = Some (if until_NUL l = [] then GET_REQUEST else NO_REQUEST, out)"
    using parse_headers_spec [of "until_NUL l" "take (start_line h) (buffer h)" t] t by auto
  show ?thesis
  proof (cases "until_NUL l = []")
    case True
    then show ?thesis using pl(1,5) ph st by (simp add: parse_content.simps [of h] refines_def)
  next
    case False
    then have "parse_content h = map_option (\<lambda>(r, h', out'). (r, h', out @ out')) (parse_content ?h1)"
      using pl(1) ph st by (simp add: parse_content.simps [of h])
    then have "goes_on h CHECK_STATE_HEADER rest" unfolding goes_on_def
      by (intro exI [of _ ?h1] exI [of _ out]) (use h1 pl(5) st in simp)
    then show ?thesis using False by simp
  qed
qed

lemma parse_content_request_line:
  assumes inv: "http_inv h" and scan: "scan_line (unparsed h) = Scan_Line l rest" and st: "checkstate h = CHECK_STATE_REQUESTLINE"
  shows "if request_url (until_NUL l) = None
    then \<exists>h' out. parse_content h = Some (BAD_REQUEST, h', out) \<and> refines h (BAD_REQUEST, x) (BAD_REQUEST, h')
    else goes_on h CHECK_STATE_HEADER rest"
proof -
  define b1 where "b1 = (buffer h)[start_line h + length l := NUL, Suc (start_line h + length l) := NUL]"
  define c1 where "c1 = start_line h + length l + 2"
  note pl = parse_line_Line [OF inv scan, folded b1_def c1_def]
  let ?pre = "take (start_line h) (buffer h)" and ?s = "until_NUL l"
  let ?h1 = "h\<lparr>buffer := b1, checked_index := c1, start_line := c1\<rparr>"
  obtain t where t: "b1 = ?pre @ ?s @ NUL # t" using pl(4) by blast
  have pos: "length ?pre = start_line h" using http_invD [OF inv] by simp
  have before: "length (?pre @ ?s) < c1"
    using pos length_takeWhile_le [of "\<lambda>c. c \<noteq> NUL" l] by (simp add: c1_def)
  obtain s' out where s': "length s' = length ?s" and pr: "parse_requestline b1 (start_line h) CHECK_STATE_REQUESTLINE =
      Some (url_result CHECK_STATE_REQUESTLINE out (request_url ?s) (?pre @ s' @ NUL # t))"
    using parse_requestline_spec [of ?s ?pre t CHECK_STATE_REQUESTLINE] t pos by auto
  define b2 where "b2 = ?pre @ s' @ NUL # t"
  note changed = http_inv_line_changed [OF pl(2) t b2_def s' before]
  have b2: "drop (read_index h) b2 = drop (read_index h) (buffer h)"
    using changed(3) [of "read_index h"] pl(5) before pl(2) by (simp add: http_inv_def)
  show ?thesis
  proof (cases "request_url ?s")
    case None
    then show ?thesis
      using pl(1) pr b2 st unfolding b2_def [symmetric] by (simp add: parse_content.simps [of h] refines_def url_result_def)
  next
    case (Some u)
    let ?h2 = "?h1\<lparr>buffer := b2, checkstate := CHECK_STATE_HEADER\<rparr>"
    let ?out = "out @ [''The request url is: '' @ u @ [LF]]"
    have eq: "?h2 = h\<lparr>buffer := b2, checked_index := c1, start_line := c1, checkstate := CHECK_STATE_HEADER\<rparr>" by (cases h) simp
    have "http_inv ?h2" "unparsed ?h2 = rest" unfolding eq using changed(1,2) pl(3) by simp_all
    moreover have "parse_content h = map_option (\<lambda>(r, h', out'). (r, h', ?out @ out')) (parse_content ?h2)"
      using pl(1) pr st Some by (simp add: parse_content.simps [of h] b2_def [symmetric] url_result_def)
    ultimately have "goes_on h CHECK_STATE_HEADER rest" unfolding goes_on_def
      by (intro exI [of _ ?h2] exI [of _ ?out]) (use b2 in simp)
    then show ?thesis using Some by simp
  qed
qed

text \<open>Either way, the loop gives the specification's result or goes on as the specification does.\<close>

lemma parse_content_line:
  assumes inv: "http_inv h" and scan: "scan_line (unparsed h) = Scan_Line l rest"
  defines "spec \<equiv> abs_parse (checkstate h) (unparsed h)"
  shows "(\<exists>h' out. parse_content h = Some (fst spec, h', out) \<and> refines h spec (fst spec, h'))
    \<or> goes_on h CHECK_STATE_HEADER rest \<and> spec = abs_parse CHECK_STATE_HEADER rest"
proof (cases "checkstate h")
  case CHECK_STATE_HEADER
  then have "if until_NUL l = [] then fst spec = GET_REQUEST else spec = abs_parse CHECK_STATE_HEADER rest"
    using scan unfolding spec_def by (simp add: abs_parse.simps [of _ "unparsed h"])
  then show ?thesis
    using parse_content_header_line [OF inv scan CHECK_STATE_HEADER, of "snd spec"] by (metis prod.collapse)
next
  case CHECK_STATE_REQUESTLINE
  then have "if request_url (until_NUL l) = None then fst spec = BAD_REQUEST else spec = abs_parse CHECK_STATE_HEADER rest"
    using scan unfolding spec_def by (auto simp: abs_parse.simps [of _ "unparsed h"])
  then show ?thesis
    using parse_content_request_line [OF inv scan CHECK_STATE_REQUESTLINE, of "snd spec"] by (metis prod.collapse)
qed

text \<open>The refinement itself, by induction over the bytes that are left.\<close>

lemma parse_content_refines:
  "http_inv h \<Longrightarrow>
   \<exists>code h' out. parse_content h = Some (code, h', out)
     \<and> refines h (abs_parse (checkstate h) (unparsed h)) (code, h')"
proof (induction "length (unparsed h)" arbitrary: h rule: less_induct)
  case less
  note abs = abs_parse.simps [of "checkstate h" "unparsed h"]
  show ?case
  proof (cases "scan_line (unparsed h)")
    case Scan_Open
    with parse_line_Open [OF less.prems] obtain c where
      "parse_line (buffer h) (checked_index h) (read_index h) = Some (LINE_OPEN, buffer h, c)"
      "http_inv (h\<lparr>checked_index := c\<rparr>)" by blast
    moreover have "unparsed (h\<lparr>checked_index := c\<rparr>) = unparsed h" by (simp add: unparsed_def)
    ultimately show ?thesis using Scan_Open abs by (simp add: parse_content.simps [of h] refines_def)
  next
    case Scan_Bad
    with parse_line_Bad [OF less.prems] show ?thesis using abs by (auto simp: parse_content.simps [of h] refines_def)
  next
    case (Scan_Line l rest)
    then have "length rest < length (unparsed h)" by (rule scan_line_shorter)
    then have IH: "\<exists>code h2 out. parse_content h' = Some (code, h2, out) \<and> refines h' (abs_parse st rest) (code, h2)"
      if "http_inv h'" "unparsed h' = rest" "checkstate h' = st" for h' st
      using less.hyps [of h'] that by auto
    from parse_content_line [OF less.prems Scan_Line] show ?thesis
    proof
      assume "goes_on h CHECK_STATE_HEADER rest \<and> abs_parse (checkstate h) (unparsed h) = abs_parse CHECK_STATE_HEADER rest"
      then show ?thesis using goes_on_refines [OF _ IH] by metis
    qed blast
  qed
qed

section \<open>The loop over one connection\<close>

lemma http_inv_fresh: "http_inv fresh_parser" "unparsed fresh_parser = []"
  by (simp_all add: http_inv_def unparsed_def fresh_parser_def)

lemma receive_inv:
  assumes "http_inv h" "read_index h + length d \<le> BUFFER_SIZE"
  shows "http_inv (receive h d)" "unparsed (receive h d) = unparsed h @ d"
proof -
  note inv = http_invD [OF assms(1)]
  let ?b = "buffer h" and ?r = "read_index h"
  let ?b' = "take ?r ?b @ d @ drop (?r + length d) ?b"
  have same: "take n ?b' = take n ?b" if "n \<le> ?r" for n
    using that inv by (simp add: min_def)
  have "0 < start_line h \<Longrightarrow> ?b' ! (start_line h - 1) = ?b ! (start_line h - 1)"
    using inv by (auto simp: nth_append)
  then show "http_inv (receive h d)"
    using assms inv same [of "checked_index h"] by (simp add: http_inv_def receive_def)
  show "unparsed (receive h d) = unparsed h @ d"
    using inv by (simp add: unparsed_def receive_def)
qed

text \<open>The answer the specification gives for the bytes of a connection.\<close>

definition answer :: "HTTP_CODE \<Rightarrow> client_end" where
  "answer code = (if code = NO_REQUEST then Peer_Closed
                  else if code = GET_REQUEST then Reply (szret ! 0) else Reply (szret ! 1))"

lemma serve_client_total: "http_inv h \<Longrightarrow> serve_client h evs \<noteq> None"
proof (induction h evs rule: serve_client.induct)
  case (3 h d evs)
  let ?room = "BUFFER_SIZE - read_index h"
  have inv: "http_inv (receive h (take ?room d))"
    using receive_inv(1) [OF "3.prems", of "take ?room d"] http_invD [OF "3.prems"] by simp
  then obtain code h' out where pc: "parse_content (receive h (take ?room d)) = Some (code, h', out)"
    and "code = NO_REQUEST \<Longrightarrow> http_inv h'"
    using parse_content_refines [OF inv] by (auto simp: refines_def)
  then show ?case using "3.IH" [OF refl refl _ pc] by (auto simp: Let_def)
qed simp_all

lemma pending_segments:
  assumes "[] \<notin> set ds"
  obtains ds2 where "pending x (map Recv_Bytes ds) = map Recv_Bytes ds2" "concat ds2 = x @ concat ds" "[] \<notin> set ds2"
proof (cases "x = []")
  case True
  then show ?thesis using that [of ds] assms by (simp add: pending_def)
next
  case False
  then show ?thesis using that [of "x # ds"] assms by (simp add: pending_def)
qed

text \<open>One segment that leaves the request incomplete, and one that decides it.\<close>

lemma receive_incomplete:
  assumes "refines (receive h d) (abs_parse (checkstate h) (unparsed h @ d)) (NO_REQUEST, h')"
  shows "http_inv h'" "read_index h' = read_index h + length d"
    and "abs_parse (checkstate h) (unparsed h @ d @ e) = abs_parse (checkstate h') (unparsed h' @ e)"
    and "fst (abs_parse (checkstate h') (unparsed h')) = NO_REQUEST"
proof -
  have abs: "abs_parse (checkstate h) (unparsed h @ d) = (NO_REQUEST, checkstate h', unparsed h')"
    using assms by (auto simp: refines_def)
  show "http_inv h'" "read_index h' = read_index h + length d" using assms by (auto simp: refines_def receive_def)
  show "abs_parse (checkstate h) (unparsed h @ d @ e) = abs_parse (checkstate h') (unparsed h' @ e)"
    using abs_parse_append [OF abs, of e] by simp
  show "fst (abs_parse (checkstate h') (unparsed h')) = NO_REQUEST"
    using abs_parse_append [OF abs, of "[]"] abs by (metis append_Nil2 fst_conv)
qed

lemma receive_decided:
  assumes "refines (receive h d) (abs_parse (checkstate h) (unparsed h @ d)) (code, h')" "code \<noteq> NO_REQUEST"
  shows "fst (abs_parse (checkstate h) (unparsed h @ d @ e)) = code"
proof -
  obtain st' d' where "abs_parse (checkstate h) (unparsed h @ d) = (code, st', d')"
    using assms(1) by (cases "abs_parse (checkstate h) (unparsed h @ d)") (auto simp: refines_def)
  then have "fst (abs_parse (checkstate h) ((unparsed h @ d) @ e)) = code" using abs_parse_final assms(2) by blast
  then show ?thesis by simp
qed

lemma serve_client_spec:
  assumes "http_inv h" "fst (abs_parse (checkstate h) (unparsed h)) = NO_REQUEST" "[] \<notin> set ds"
  shows "map_option fst (serve_client h (map Recv_Bytes ds)) =
    Some (answer (fst (abs_parse (checkstate h)
      (unparsed h @ take (BUFFER_SIZE - read_index h) (concat ds)))))"
  using assms
proof (induction h "map Recv_Bytes ds" arbitrary: ds rule: serve_client.induct)
  case (1 h)
  then show ?case by (simp add: answer_def)
next
  case (2 h evs)
  then show ?case by auto
next
  case (3 h d evs)
  from "3.hyps"(2) obtain ds' where ds: "ds = d # ds'" and evs: "evs = map Recv_Bytes ds'" by auto
  let ?room = "BUFFER_SIZE - read_index h"
  let ?data = "take ?room d"
  note inv = http_invD [OF "3.prems"(1)]
  show ?case
  proof (cases "?data = []")
    case True
    then have "?room = 0" using "3.prems"(3) ds by auto
    then show ?thesis using "3.prems"(2) ds True by (simp add: answer_def)
  next
    case False
    have r: "read_index h + length ?data \<le> BUFFER_SIZE" using inv by simp
    note rc = receive_inv [OF "3.prems"(1) r]
    obtain code h' out where pc: "parse_content (receive h ?data) = Some (code, h', out)"
      and ref: "refines (receive h ?data) (abs_parse (checkstate h) (unparsed h @ ?data)) (code, h')"
      using parse_content_refines [OF rc(1)] rc(2) by (auto simp: receive_def)
    let ?room' = "?room - length ?data" and ?rest = "drop ?room d @ concat ds'"
    have split: "take ?room (concat ds) = ?data @ take ?room' ?rest"
      using take_append_split [of ?room d "concat ds'"] ds by simp
    show ?thesis
    proof (cases "code = NO_REQUEST")
      case no: True
      note h' = receive_incomplete [OF ref [unfolded no]]
      have "[] \<notin> set ds'" using "3.prems"(3) ds by simp
      then obtain ds2 where ds2: "pending (drop ?room d) evs = map Recv_Bytes ds2" "concat ds2 = ?rest" "[] \<notin> set ds2"
        unfolding evs by (rule pending_segments)
      have "map_option fst (serve_client h' (map Recv_Bytes ds2)) =
          Some (answer (fst (abs_parse (checkstate h') (unparsed h' @ take (BUFFER_SIZE - read_index h') ?rest))))"
        using "3.hyps"(1) [OF refl refl False pc _ _ no ds2(1) h'(1,4) ds2(3)] ds2(2) by simp
      moreover have "BUFFER_SIZE - read_index h' = ?room'" using h'(2) by simp
      ultimately show ?thesis
        using False pc no ds evs ds2(1) split h'(3) [of "take ?room' ?rest"]
        by (auto simp: Let_def option.map_comp comp_def case_prod_unfold)
    next
      case final: False
      then show ?thesis
        using receive_decided [OF ref final, of "take ?room' ?rest"] False pc ds evs split by (simp add: answer_def)
    qed
  qed
qed

section \<open>Well-formed requests\<close>

definition http_request :: "string \<Rightarrow> string list \<Rightarrow> string" where
  "http_request u hs = ''GET '' @ u @ '' HTTP/1.1'' @ [CR, LF]
     @ concat (map (\<lambda>h. h @ [CR, LF]) hs) @ [CR, LF]"

definition is_path :: "string \<Rightarrow> bool" where
  "is_path u \<longleftrightarrow> u \<noteq> [] \<and> hd u = CHR ''/''
     \<and> list_all (\<lambda>c. \<not> is_blank c \<and> c \<noteq> CR \<and> c \<noteq> LF \<and> c \<noteq> NUL) u"

definition is_header :: "string \<Rightarrow> bool" where
  "is_header h \<longleftrightarrow> h \<noteq> [] \<and> list_all (\<lambda>c. c \<noteq> CR \<and> c \<noteq> LF \<and> c \<noteq> NUL) h"

lemma url_path_of_path: "is_path u \<Longrightarrow> url_path u = Some u"
  by (cases u) (auto simp: is_path_def url_path_def same_nocase_def tolower_def Let_def)

lemma request_url_of_path:
  assumes "is_path u"
  shows "request_url (''GET '' @ u @ '' HTTP/1.1'') = Some u"
proof -
  have nb: "\<And>c. c \<in> set u \<Longrightarrow> \<not> is_blank c" using assms by (auto simp: is_path_def list_all_iff)
  have tw: "takeWhile nonblank (u @ '' HTTP/1.1'') = u"
    using nb by (simp add: takeWhile_append2 is_blank_def)
  have dw: "dropWhile nonblank (u @ '' HTTP/1.1'') = '' HTTP/1.1''"
    using nb by (simp add: dropWhile_append2 is_blank_def)
  have "dropWhile is_blank (u @ '' HTTP/1.1'') = u @ '' HTTP/1.1''"
    using assms nb by (cases u) (auto simp: is_path_def)
  then have "dropWhile is_blank ('' '' @ u @ '' HTTP/1.1'') = u @ '' HTTP/1.1''"
    by (simp add: is_blank_def)
  moreover have "dropWhile nonblank (''GET '' @ u @ '' HTTP/1.1'') = '' '' @ u @ '' HTTP/1.1''"
    "takeWhile nonblank (''GET '' @ u @ '' HTTP/1.1'') = ''GET''"
    "dropWhile is_blank '' HTTP/1.1'' = ''HTTP/1.1''"
    by (simp_all add: is_blank_def)
  ultimately show ?thesis
    using tw dw url_path_of_path [OF assms] by (simp only: request_url_def Let_def) (simp add: same_nocase_def)
qed

lemma until_NUL_all: "NUL \<notin> set l \<Longrightarrow> until_NUL l = l"
  by (auto simp: takeWhile_eq_all_conv)

lemma abs_parse_headers:
  "list_all is_header hs \<Longrightarrow>
   fst (abs_parse CHECK_STATE_HEADER (concat (map (\<lambda>h. h @ [CR, LF]) hs) @ CR # LF # r)) = GET_REQUEST"
proof (induction hs)
  case Nil
  then show ?case by (simp add: abs_parse.simps)
next
  case (Cons h hs)
  let ?rest = "concat (map (\<lambda>h. h @ [CR, LF]) hs) @ CR # LF # r"
  have "CR \<notin> set h" "LF \<notin> set h" "NUL \<notin> set h" "h \<noteq> []"
    using Cons.prems by (auto simp: is_header_def list_all_iff)
  then have "scan_line (h @ CR # LF # ?rest) = Scan_Line h ?rest" "until_NUL h \<noteq> []"
    using scan_line_CRLF until_NUL_all [of h] by (blast, metis)
  then show ?case using Cons by (simp add: abs_parse.simps [of _ "h @ CR # LF # ?rest"])
qed

lemma abs_parse_request:
  assumes "is_path u" "list_all is_header hs"
  shows "fst (abs_parse CHECK_STATE_REQUESTLINE (http_request u hs @ r)) = GET_REQUEST"
proof -
  let ?l = "''GET '' @ u @ '' HTTP/1.1''"
  let ?rest = "concat (map (\<lambda>h. h @ [CR, LF]) hs) @ CR # LF # r"
  have "CR \<notin> set ?l" "LF \<notin> set ?l" "NUL \<notin> set ?l"
    using assms(1) by (auto simp: is_path_def list_all_iff)
  then have "scan_line (?l @ CR # LF # ?rest) = Scan_Line ?l ?rest" "until_NUL ?l = ?l"
    using scan_line_CRLF until_NUL_all by blast+
  moreover have "http_request u hs @ r = ?l @ CR # LF # ?rest" by (simp add: http_request_def)
  ultimately show ?thesis
    using request_url_of_path [OF assms(1)] abs_parse_headers [OF assms(2)]
    by (simp only: abs_parse.simps [of _ "?l @ CR # LF # ?rest"] line_scan.case CHECK_STATE.case option.case)
qed

section \<open>Properties\<close>

text \<open>
  C10. The parser refines its specification on the byte sequence. From any well-formed state
  \<open>parse_content\<close> returns (no access leaves the buffer, the loop ends), its result code is the one
  \<open>abs_parse\<close> gives for the bytes not yet parsed, it leaves the bytes beyond \<open>read_index\<close> alone, and
  when the request is still incomplete the new state is well formed and stands for the
  specification's remaining state.
\<close>

theorem parse_content_correct:
  assumes "http_inv h"
  shows "\<exists>code h' out. parse_content h = Some (code, h', out)
     \<and> refines h (abs_parse (checkstate h) (unparsed h)) (code, h')"
  by (rule parse_content_refines [OF assms])

theorem parse_content_correct_witness:
  "http_inv fresh_parser \<and> (\<exists>code h' out. parse_content fresh_parser = Some (code, h', out)
     \<and> refines fresh_parser (abs_parse CHECK_STATE_REQUESTLINE []) (code, h'))"
proof -
  have "checkstate fresh_parser = CHECK_STATE_REQUESTLINE" by (simp add: fresh_parser_def)
  then show ?thesis
    using http_inv_fresh parse_content_correct [OF http_inv_fresh(1)] by simp
qed

lemma serve_fresh_client:
  assumes "[] \<notin> set ds"
  shows "map_option fst (serve_client fresh_parser (map Recv_Bytes ds)) =
    Some (answer (fst (abs_parse CHECK_STATE_REQUESTLINE (take BUFFER_SIZE (concat ds)))))"
proof -
  have "checkstate fresh_parser = CHECK_STATE_REQUESTLINE" "read_index fresh_parser = 0"
    by (simp_all add: fresh_parser_def)
  moreover have "fst (abs_parse CHECK_STATE_REQUESTLINE []) = NO_REQUEST" by (simp add: abs_parse.simps)
  ultimately show ?thesis
    using serve_client_spec [OF http_inv_fresh(1) _ assms] http_inv_fresh(2) by simp
qed

text \<open>
  C2. A connection is answered as its byte sequence says, however the network cut it into segments:
  the answer is the specification's for the first \<open>BUFFER_SIZE\<close> bytes.
\<close>

theorem serve_client_segmentation:
  assumes "[] \<notin> set ds"
  shows "map_option fst (serve_client fresh_parser (map Recv_Bytes ds)) =
    Some (answer (fst (abs_parse CHECK_STATE_REQUESTLINE (take BUFFER_SIZE (concat ds)))))"
  by (rule serve_fresh_client) (rule assms)

theorem serve_client_segmentation_witness:
  "map_option fst (serve_client fresh_parser (map Recv_Bytes [''GE'', ''T'' @ [LF]])) = Some (Reply (szret ! 1))"
proof -
  have "fst (abs_parse CHECK_STATE_REQUESTLINE (take BUFFER_SIZE (concat [''GE'', ''T'' @ [LF]]))) = BAD_REQUEST"
    by (simp add: BUFFER_SIZE_def abs_parse.simps)
  then show ?thesis
    using serve_client_segmentation [of "[''GE'', ''T'' @ [LF]]"] by (simp add: answer_def)
qed

text \<open>
  C15. A well-formed GET request that fits the buffer gets the positive reply, whatever its path
  and headers are, however it is segmented, and whatever follows it.
\<close>

theorem serve_client_accepts:
  assumes "is_path u" "list_all is_header hs" "length (http_request u hs) \<le> BUFFER_SIZE"
    and "[] \<notin> set ds" "concat ds = http_request u hs @ extra"
  shows "map_option fst (serve_client fresh_parser (map Recv_Bytes ds)) = Some (Reply (szret ! 0))"
proof -
  have "take BUFFER_SIZE (concat ds) = http_request u hs @ take (BUFFER_SIZE - length (http_request u hs)) extra"
    using assms(3,5) by simp
  then show ?thesis
    using serve_fresh_client [OF assms(4)] abs_parse_request [OF assms(1,2)]
    by (simp add: answer_def)
qed

theorem serve_client_accepts_witness:
  "map_option fst (serve_client fresh_parser (map Recv_Bytes
      [''GET /a'', '' HTTP/1.1'' @ [CR], [LF] @ ''Host: x'' @ [CR, LF, CR], [LF]])) = Some (Reply (szret ! 0))"
  by (rule serve_client_accepts [where u = "''/a''" and hs = "[''Host: x'']" and extra = "[]"])
    (simp_all add: is_path_def is_header_def is_blank_def http_request_def BUFFER_SIZE_def)

text \<open>
  C35. Whatever a client sends, in any segments, with errors or not: the loop over its connection
  ends, and no access of the parser leaves the buffer.
\<close>

theorem serve_client_safe: "serve_client fresh_parser evs \<noteq> None"
  by (rule serve_client_total [OF http_inv_fresh(1)])

end
