(* ===== verification/Http_Conn.thy ===== *)
theory Http_Conn
  imports Http_Parser
begin

text \<open>
  The two methods of the web server's \<open>http_conn\<close> that the repository holds: the line scanner
  (\<open>parse_line.cpp\<close>) and the main state machine (\<open>process_read.cpp\<close>). The class itself and the
  methods \<open>process_read\<close> calls on it are not in the repository; they are the fields of the record
  \<open>conn_ops\<close>, an argument of the model, and the fields of the class that only they use are the
  extension of the record \<open>http_conn\<close>.
\<close>

datatype CONN_STATE = CONN_REQUESTLINE | CONN_HEADER | CONN_CONTENT

record http_conn =
  m_read_buf :: string
  m_checked_idx :: nat
  m_read_idx :: nat
  m_start_line :: nat
  m_check_state :: CONN_STATE
  m_close_log :: int

section \<open>The line scanner\<close>

function conn_parse_line :: "'z http_conn_scheme \<Rightarrow> (LINE_STATUS \<times> 'z http_conn_scheme) option" where
  "conn_parse_line c =
     (if m_checked_idx c < m_read_idx c then do {
        temp \<leftarrow> peek (m_read_buf c) (m_checked_idx c);
        if temp = CR then
          if m_checked_idx c + 1 = m_read_idx c then Some (LINE_OPEN, c)
          else do {
            succ \<leftarrow> peek (m_read_buf c) (m_checked_idx c + 1);
            if succ = LF then do {
              b \<leftarrow> poke (m_read_buf c) (m_checked_idx c) NUL;
              b \<leftarrow> poke b (m_checked_idx c + 1) NUL;
              Some (LINE_OK, c\<lparr>m_read_buf := b, m_checked_idx := m_checked_idx c + 2\<rparr>)
            } else Some (LINE_BAD, c)
          }
        else if temp = LF then
          if m_checked_idx c > 1 then do {
            pred \<leftarrow> peek (m_read_buf c) (m_checked_idx c - 1);
            if pred = CR then do {
              b \<leftarrow> poke (m_read_buf c) (m_checked_idx c - 1) NUL;
              b \<leftarrow> poke b (m_checked_idx c) NUL;
              Some (LINE_OK, c\<lparr>m_read_buf := b, m_checked_idx := m_checked_idx c + 1\<rparr>)
            } else Some (LINE_BAD, c)
          } else Some (LINE_BAD, c)
        else conn_parse_line (c\<lparr>m_checked_idx := m_checked_idx c + 1\<rparr>)
      } else Some (LINE_OPEN, c))"
  by pat_completeness auto
termination
  by (relation "measure (\<lambda>c. m_read_idx c - m_checked_idx c)") auto

declare conn_parse_line.simps [simp del]

section \<open>The main state machine\<close>

record ('r, 'z) conn_ops =
  get_line :: "'z http_conn_scheme \<Rightarrow> nat"
  parse_request_line :: "'z http_conn_scheme \<Rightarrow> nat \<Rightarrow> HTTP_CODE \<times> 'z http_conn_scheme"
  conn_parse_headers :: "'z http_conn_scheme \<Rightarrow> nat \<Rightarrow> HTTP_CODE \<times> 'z http_conn_scheme"
  conn_parse_content :: "'z http_conn_scheme \<Rightarrow> nat \<Rightarrow> HTTP_CODE \<times> 'z http_conn_scheme"
  do_request :: "'z http_conn_scheme \<Rightarrow> 'r \<times> 'z http_conn_scheme"

text \<open>The result of \<open>process_read\<close>: a code of its own, or what \<open>do_request\<close> returned.\<close>

datatype 'r read_result = Read_Code HTTP_CODE | Requested 'r

text \<open>
  The body of the loop. \<open>LOG_INFO("%s", text)\<close> reads the line as a C string when the log is open.
  The body either returns or goes on with the next \<open>line_status\<close>; the third component is what was
  logged.
\<close>

definition log_line :: "'z http_conn_scheme \<Rightarrow> nat \<Rightarrow> string list option" where
  "log_line c text =
     (if m_close_log c = 0 then map_option (\<lambda>s. [s]) (c_string (m_read_buf c) text) else Some [])"

definition read_body ::
  "('r, 'z) conn_ops \<Rightarrow> LINE_STATUS \<Rightarrow> 'z http_conn_scheme
   \<Rightarrow> (('r read_result + LINE_STATUS) \<times> 'z http_conn_scheme \<times> string list) option" where
  "read_body ops line_status c = do {
     let text = get_line ops c;
     let c = c\<lparr>m_start_line := m_checked_idx c\<rparr>;
     out \<leftarrow> log_line c text;
     Some (case m_check_state c of
       CONN_REQUESTLINE \<Rightarrow>
         (case parse_request_line ops c text of (ret, c) \<Rightarrow>
            if ret = BAD_REQUEST then (Inl (Read_Code BAD_REQUEST), c, out) else (Inr line_status, c, out))
     | CONN_HEADER \<Rightarrow>
         (case conn_parse_headers ops c text of (ret, c) \<Rightarrow>
            if ret = BAD_REQUEST then (Inl (Read_Code BAD_REQUEST), c, out)
            else if ret = GET_REQUEST then
              (case do_request ops c of (r, c) \<Rightarrow> (Inl (Requested r), c, out))
            else (Inr line_status, c, out))
     | CONN_CONTENT \<Rightarrow>
         (case conn_parse_content ops c text of (ret, c) \<Rightarrow>
            if ret = GET_REQUEST then
              (case do_request ops c of (r, c) \<Rightarrow> (Inl (Requested r), c, out))
            else (Inr LINE_OPEN, c, out)))
   }"

text \<open>The condition of the loop, with the call of \<open>parse_line\<close> it makes.\<close>

definition read_guard ::
  "LINE_STATUS \<Rightarrow> 'z http_conn_scheme \<Rightarrow> (LINE_STATUS \<times> 'z http_conn_scheme) option" where
  "read_guard line_status c =
     (if m_check_state c = CONN_CONTENT \<and> line_status = LINE_OK then Some (LINE_OK, c)
      else conn_parse_line c)"

text \<open>
  The loop. \<open>None\<close> is a loop that does not end; a returned \<open>Inl UndefinedBehaviour\<close> is an access
  outside the read buffer.
\<close>

partial_function (option) process_loop ::
  "('r, 'z) conn_ops \<Rightarrow> LINE_STATUS \<Rightarrow> 'z http_conn_scheme \<Rightarrow> string list
   \<Rightarrow> (cpp_error + 'r read_result \<times> 'z http_conn_scheme \<times> string list) option" where
  "process_loop ops line_status c logged =
     (case read_guard line_status c of
        None \<Rightarrow> Some (Inl UndefinedBehaviour)
      | Some (line_status, c) \<Rightarrow>
          if line_status \<noteq> LINE_OK then Some (Inr (Read_Code NO_REQUEST, c, logged))
          else case read_body ops line_status c of
                 None \<Rightarrow> Some (Inl UndefinedBehaviour)
               | Some (Inl r, c, out) \<Rightarrow> Some (Inr (r, c, logged @ out))
               | Some (Inr line_status, c, out) \<Rightarrow> process_loop ops line_status c (logged @ out))"

definition process_read ::
  "('r, 'z) conn_ops \<Rightarrow> 'z http_conn_scheme
   \<Rightarrow> (cpp_error + 'r read_result \<times> 'z http_conn_scheme \<times> string list) option" where
  "process_read ops c = process_loop ops LINE_OK c []"

section \<open>The scanner agrees with the one of the stand-alone parser\<close>

text \<open>
  The two scanners differ only in the branch for a LF that follows a CR, which neither reaches
  from a position whose preceding byte is not a CR.
\<close>

lemma conn_parse_line_eq:
  "0 < m_checked_idx c \<longrightarrow> m_read_buf c ! (m_checked_idx c - 1) \<noteq> CR \<Longrightarrow>
   m_read_idx c \<le> length (m_read_buf c) \<Longrightarrow>
   conn_parse_line c = map_option (\<lambda>(st, b, i). (st, c\<lparr>m_read_buf := b, m_checked_idx := i\<rparr>))
     (parse_line (m_read_buf c) (m_checked_idx c) (m_read_idx c))"
proof (induction c rule: conn_parse_line.induct)
  case (1 c)
  let ?b = "m_read_buf c" and ?i = "m_checked_idx c" and ?r = "m_read_idx c"
  show ?case
  proof (cases "?i < ?r")
    case False
    then show ?thesis by (simp add: conn_parse_line.simps [of c] parse_line.simps [of ?b ?i ?r])
  next
    case True
    then have x: "peek ?b ?i = Some (?b ! ?i)" using "1.prems"(2) by simp
    consider (cr) "?b ! ?i = CR" | (lf) "?b ! ?i = LF" | (other) "?b ! ?i \<noteq> CR" "?b ! ?i \<noteq> LF" by blast
    then show ?thesis
    proof cases
      case cr
      then show ?thesis
        using True x "1.prems"(2) by (simp add: conn_parse_line.simps [of c] parse_line.simps [of ?b ?i ?r])
    next
      case lf
      then show ?thesis
        using True x "1.prems" by (simp add: conn_parse_line.simps [of c] parse_line.simps [of ?b ?i ?r])
    next
      case other
      have "conn_parse_line (c\<lparr>m_checked_idx := ?i + 1\<rparr>) =
          map_option (\<lambda>(st, b, i). (st, c\<lparr>m_read_buf := b, m_checked_idx := i\<rparr>)) (parse_line ?b (?i + 1) ?r)"
        using "1.IH" [OF True x other] other "1.prems"(2) by simp
      then show ?thesis
        using True x other by (simp add: conn_parse_line.simps [of c] parse_line.simps [of ?b ?i ?r])
    qed
  qed
qed

lemma conn_parse_line_frame:
  "conn_parse_line c = Some (st, c') \<Longrightarrow>
   m_read_idx c' = m_read_idx c \<and> m_check_state c' = m_check_state c \<and> m_start_line c' = m_start_line c
   \<and> length (m_read_buf c') = length (m_read_buf c) \<and> m_checked_idx c \<le> m_checked_idx c'
   \<and> (st = LINE_OK \<longrightarrow> m_checked_idx c < m_checked_idx c' \<and> m_checked_idx c < m_read_idx c)"
proof (induction c rule: conn_parse_line.induct)
  case (1 c)
  show ?case
  proof (cases "m_checked_idx c < m_read_idx c")
    case False
    then show ?thesis using "1.prems" by (simp add: conn_parse_line.simps [of c])
  next
    case True
    then obtain x where x: "peek (m_read_buf c) (m_checked_idx c) = Some x"
      using "1.prems" by (auto simp: conn_parse_line.simps [of c] split: Option.bind_splits)
    show ?thesis
    proof (cases "x = CR \<or> x = LF")
      case end_of_line: True
      then show ?thesis
        using "1.prems" True x
        by (auto simp: conn_parse_line.simps [of c] poke_def split: if_splits Option.bind_splits)
    next
      case False
      then have "conn_parse_line (c\<lparr>m_checked_idx := m_checked_idx c + 1\<rparr>) = Some (st, c')"
        using "1.prems" True x by (simp add: conn_parse_line.simps [of c])
      then show ?thesis using "1.IH" [OF True x] False True by fastforce
    qed
  qed
qed

text \<open>Bytes without a line end are all checked and change nothing else.\<close>

lemma conn_parse_line_clean:
  "m_checked_idx c \<le> m_read_idx c \<Longrightarrow> m_read_idx c \<le> length (m_read_buf c) \<Longrightarrow>
   CR \<notin> set (drop (m_checked_idx c) (take (m_read_idx c) (m_read_buf c))) \<Longrightarrow>
   LF \<notin> set (drop (m_checked_idx c) (take (m_read_idx c) (m_read_buf c))) \<Longrightarrow>
   conn_parse_line c = Some (LINE_OPEN, c\<lparr>m_checked_idx := m_read_idx c\<rparr>)"
proof (induction c rule: conn_parse_line.induct)
  case (1 c)
  show ?case
  proof (cases "m_checked_idx c < m_read_idx c")
    case False
    then have "m_checked_idx c = m_read_idx c" using "1.prems"(1) by simp
    then have "c = c\<lparr>m_checked_idx := m_read_idx c\<rparr>" by simp
    with False show ?thesis by (simp add: conn_parse_line.simps [of c])
  next
    case True
    note d = drop_take_Cons [OF True "1.prems"(2)]
    have x: "peek (m_read_buf c) (m_checked_idx c) = Some (m_read_buf c ! m_checked_idx c)"
      "m_read_buf c ! m_checked_idx c \<noteq> CR" "m_read_buf c ! m_checked_idx c \<noteq> LF"
      using True "1.prems" d by auto
    then show ?thesis
      using "1.IH" [OF True x] "1.prems" d True by (simp add: conn_parse_line.simps [of c])
  qed
qed

section \<open>Termination of the main loop\<close>

text \<open>
  What the loop relies on in the methods it calls: they parse the line they are given and leave the
  two indices of the scanner alone.
\<close>

definition ops_frame :: "('r, 'z) conn_ops \<Rightarrow> bool" where
  "ops_frame ops \<longleftrightarrow>
     (\<forall>f \<in> {parse_request_line ops, conn_parse_headers ops, conn_parse_content ops}. \<forall>c text.
        m_read_idx (snd (f c text)) = m_read_idx c \<and> m_checked_idx (snd (f c text)) = m_checked_idx c)"

lemma read_body_frame:
  assumes "ops_frame ops" "read_body ops st c = Some (Inr st', c', out)"
  shows "m_read_idx c' = m_read_idx c" "m_checked_idx c' = m_checked_idx c"
    "st' = st \<or> st' = LINE_OPEN" "m_check_state c = CONN_CONTENT \<Longrightarrow> st' = LINE_OPEN"
proof -
  let ?c = "c\<lparr>m_start_line := m_checked_idx c\<rparr>" and ?t = "get_line ops c"
  have frame: "m_read_idx (snd (f ?c ?t)) = m_read_idx c" "m_checked_idx (snd (f ?c ?t)) = m_checked_idx c"
    if "f \<in> {parse_request_line ops, conn_parse_headers ops, conn_parse_content ops}" for f
    using assms(1) that by (auto simp: ops_frame_def)
  show "m_read_idx c' = m_read_idx c" "m_checked_idx c' = m_checked_idx c"
    using assms(2) frame(1,2) [of "parse_request_line ops"] frame(1,2) [of "conn_parse_headers ops"]
      frame(1,2) [of "conn_parse_content ops"]
    by (auto simp: read_body_def Let_def split: Option.bind_splits CONN_STATE.splits prod.splits if_splits)
  show "st' = st \<or> st' = LINE_OPEN" "m_check_state c = CONN_CONTENT \<Longrightarrow> st' = LINE_OPEN"
    using assms(2)
    by (auto simp: read_body_def Let_def split: Option.bind_splits CONN_STATE.splits prod.splits if_splits)
qed

text \<open>
  A pass that did not scan a line turns \<open>line_status\<close> to \<open>LINE_OPEN\<close>, so the next one has to scan;
  a pass that scanned a line has moved \<open>m_checked_idx\<close>.
\<close>

definition loop_measure :: "LINE_STATUS \<Rightarrow> 'z http_conn_scheme \<Rightarrow> nat" where
  "loop_measure st c = 2 * (m_read_idx c - m_checked_idx c) + (if st = LINE_OK then 1 else 0)"

lemma loop_measure_decreases:
  assumes "ops_frame ops" "read_guard st c = Some (LINE_OK, c1)" "read_body ops LINE_OK c1 = Some (Inr st', c', out)"
  shows "loop_measure st' c' < loop_measure st c"
proof (cases "m_check_state c = CONN_CONTENT \<and> st = LINE_OK")
  case True
  then show ?thesis
    using assms(2) read_body_frame [OF assms(1,3)] by (auto simp: read_guard_def loop_measure_def)
next
  case False
  then have "conn_parse_line c = Some (LINE_OK, c1)"
    using assms(2) by (simp add: read_guard_def split: if_splits)
  from conn_parse_line_frame [OF this] show ?thesis
    using read_body_frame [OF assms(1,3)] by (auto simp: loop_measure_def)
qed

lemma process_loop_returns:
  "ops_frame ops \<Longrightarrow> \<exists>r. process_loop ops st c logged = Some r"
proof (induction "loop_measure st c" arbitrary: st c logged rule: less_induct)
  case less
  show ?case
  proof (cases "read_guard st c")
    case None
    then show ?thesis by (simp add: process_loop.simps [of ops st c])
  next
    case (Some p)
    then obtain ls c1 where g: "read_guard st c = Some (ls, c1)" by (cases p) auto
    show ?thesis
    proof (cases "ls = LINE_OK")
      case False
      then show ?thesis using g by (simp add: process_loop.simps [of ops st c])
    next
      case ok: True
      show ?thesis
      proof (cases "read_body ops LINE_OK c1")
        case None
        then show ?thesis using g ok by (simp add: process_loop.simps [of ops st c])
      next
        case (Some q)
        then obtain v c' out where b: "read_body ops LINE_OK c1 = Some (v, c', out)" by (cases q) auto
        show ?thesis
        proof (cases v)
          case (Inl r)
          then show ?thesis using g ok b by (simp add: process_loop.simps [of ops st c])
        next
          case (Inr st')
          with b loop_measure_decreases [OF less.prems, of st c c1 st' c' out] g ok
          have "\<exists>r. process_loop ops st' c' (logged @ out) = Some r"
            using less.hyps less.prems by simp
          then show ?thesis using g ok b Inr by (simp add: process_loop.simps [of ops st c])
        qed
      qed
    qed
  qed
qed

section \<open>Properties\<close>

text \<open>
  C17. The two line scanners of the repository are equivalent wherever they are used: from a
  position whose preceding byte is not a CR they return the same status, cut the buffer in the same
  way and stop at the same place. The branch in which they differ is never reached.
\<close>

theorem line_scanners_equivalent:
  assumes "0 < m_checked_idx c \<longrightarrow> m_read_buf c ! (m_checked_idx c - 1) \<noteq> CR"
    and "m_read_idx c \<le> length (m_read_buf c)"
  shows "conn_parse_line c = map_option (\<lambda>(st, b, i). (st, c\<lparr>m_read_buf := b, m_checked_idx := i\<rparr>))
     (parse_line (m_read_buf c) (m_checked_idx c) (m_read_idx c))"
  by (rule conn_parse_line_eq [OF assms])

abbreviation sample_conn :: "string \<Rightarrow> CONN_STATE \<Rightarrow> http_conn" where
  "sample_conn bytes st \<equiv> \<lparr>m_read_buf = bytes @ [NUL, NUL], m_checked_idx = 0, m_read_idx = length bytes,
     m_start_line = 0, m_check_state = st, m_close_log = 1\<rparr>"

theorem line_scanners_equivalent_witness:
  "conn_parse_line (sample_conn [CHR ''a'', CR, LF] CONN_HEADER) =
   map_option (\<lambda>(st, b, i). (st, (sample_conn [CHR ''a'', CR, LF] CONN_HEADER)\<lparr>m_read_buf := b, m_checked_idx := i\<rparr>))
     (parse_line [CHR ''a'', CR, LF, NUL, NUL] 0 3)"
  using line_scanners_equivalent [of "sample_conn [CHR ''a'', CR, LF] CONN_HEADER"] by (simp add: numeral_3_eq_3)

text \<open>
  C16. \<open>process_read\<close> always returns, for any buffer and any state, provided the methods it calls
  leave the scanner's indices alone. What it returns may be an error: an access outside the buffer is a result of the model.
\<close>

theorem process_read_terminates:
  assumes "ops_frame ops"
  shows "\<exists>r. process_read ops c = Some r"
  unfolding process_read_def by (rule process_loop_returns [OF assms])

text \<open>Methods that accept every line and take an empty line for the end of the request.\<close>

definition sample_ops :: "(nat, unit) conn_ops" where
  "sample_ops = \<lparr>get_line = m_start_line,
     parse_request_line = (\<lambda>c t. (NO_REQUEST, c\<lparr>m_check_state := CONN_HEADER\<rparr>)),
     conn_parse_headers = (\<lambda>c t. (if peek (m_read_buf c) t = Some NUL then GET_REQUEST else NO_REQUEST, c)),
     conn_parse_content = (\<lambda>c t. (NO_REQUEST, c)),
     do_request = (\<lambda>c. (200, c))\<rparr>"

lemma ops_frame_sample: "ops_frame sample_ops"
  by (simp add: ops_frame_def sample_ops_def)

theorem process_read_terminates_witness:
  "ops_frame sample_ops \<and> (\<exists>r. process_read sample_ops (sample_conn [CHR ''a'', CR, LF, CR, LF] CONN_REQUESTLINE) = Some r)"
  using ops_frame_sample process_read_terminates [OF ops_frame_sample] by blast

text \<open>
  C40. A malformed line is not reported. Where the stand-alone parser answers \<open>BAD_REQUEST\<close> to a
  lone LF or a CR without LF, \<open>process_read\<close> leaves its loop and returns \<open>NO_REQUEST\<close>, which asks
  for more data.
\<close>

theorem process_read_ignores_bad_line:
  assumes "m_check_state c \<noteq> CONN_CONTENT" "m_checked_idx c \<le> m_read_idx c"
    and "0 < m_checked_idx c \<longrightarrow> m_read_buf c ! (m_checked_idx c - 1) \<noteq> CR"
    and "m_read_idx c \<le> length (m_read_buf c)"
    and "scan_line (drop (m_checked_idx c) (take (m_read_idx c) (m_read_buf c))) = Scan_Bad"
  shows "\<exists>c'. process_read ops c = Some (Inr (Read_Code NO_REQUEST, c', []))"
proof -
  obtain i where "parse_line (m_read_buf c) (m_checked_idx c) (m_read_idx c) = Some (LINE_BAD, m_read_buf c, i)"
    using parse_line_scan [of "m_read_idx c" "m_read_buf c" "m_checked_idx c"] assms(2-5) by (auto simp: line_found_def)
  then have "conn_parse_line c = Some (LINE_BAD, c\<lparr>m_checked_idx := i\<rparr>)"
    using conn_parse_line_eq [OF assms(3,4)] by simp
  then show ?thesis
    using assms(1) by (simp add: process_read_def process_loop.simps [of ops LINE_OK c] read_guard_def)
qed

theorem process_read_ignores_bad_line_witness:
  "(\<exists>c'. process_read sample_ops (sample_conn [CHR ''a'', LF] CONN_REQUESTLINE)
      = Some (Inr (Read_Code NO_REQUEST, c', [])))
   \<and> fst (abs_parse CHECK_STATE_REQUESTLINE [CHR ''a'', LF]) = BAD_REQUEST"
  using process_read_ignores_bad_line [of "sample_conn [CHR ''a'', LF] CONN_REQUESTLINE" sample_ops]
  by (simp add: abs_parse.simps)

text \<open>
  An incomplete message body is scanned as if it were a header. When \<open>parse_content\<close> asks for
  more data, the loop calls \<open>parse_line\<close> on the body; if the body has no line end the call
  returns with \<open>m_checked_idx\<close> behind the last byte received and \<open>m_start_line\<close> at the beginning
  of the body, so the next call no longer finds the body where \<open>m_checked_idx\<close> points.
\<close>

theorem process_read_consumes_body:
  assumes "m_check_state c = CONN_CONTENT" "m_close_log c \<noteq> 0"
    and body: "conn_parse_content ops (c\<lparr>m_start_line := m_checked_idx c\<rparr>) (get_line ops c)
      = (NO_REQUEST, c\<lparr>m_start_line := m_checked_idx c\<rparr>)"
    and "m_checked_idx c \<le> m_read_idx c" "m_read_idx c \<le> length (m_read_buf c)"
    and clean: "CR \<notin> set (drop (m_checked_idx c) (take (m_read_idx c) (m_read_buf c)))"
      "LF \<notin> set (drop (m_checked_idx c) (take (m_read_idx c) (m_read_buf c)))"
  shows "process_read ops c = Some (Inr (Read_Code NO_REQUEST,
    c\<lparr>m_start_line := m_checked_idx c, m_checked_idx := m_read_idx c\<rparr>, []))"
proof -
  let ?c = "c\<lparr>m_start_line := m_checked_idx c\<rparr>"
  have b: "read_body ops LINE_OK c = Some (Inr LINE_OPEN, ?c, [])"
    using assms(1,2) body by (simp add: read_body_def log_line_def Let_def)
  have "conn_parse_line ?c = Some (LINE_OPEN, ?c\<lparr>m_checked_idx := m_read_idx c\<rparr>)"
    using conn_parse_line_clean [of ?c] assms(4,5) clean by simp
  then show ?thesis
    using assms(1) b
    by (simp add: process_read_def process_loop.simps [of ops LINE_OK c] process_loop.simps [of ops LINE_OPEN ?c]
        read_guard_def)
qed

theorem process_read_consumes_body_witness:
  "process_read sample_ops (sample_conn ''user=x'' CONN_CONTENT) = Some (Inr (Read_Code NO_REQUEST,
     (sample_conn ''user=x'' CONN_CONTENT)\<lparr>m_start_line := 0, m_checked_idx := 6\<rparr>, []))"
  using process_read_consumes_body [of "sample_conn ''user=x'' CONN_CONTENT" sample_ops]
  by (simp add: sample_ops_def)

end
