(* ===== verification/C_Format.thy ===== *)
theory C_Format
  imports C_Strings
begin

text \<open>
  Formatted output and the copying functions of the C library, as the log and the servers use them:
  decimal conversions, bounded printing into a byte array, and block copies. A write that does
  not fit the array gives \<open>None\<close>.
\<close>

section \<open>Decimal conversions\<close>

definition digit :: "nat \<Rightarrow> char" where
  "digit d = char_of (48 + d)"

fun dec :: "nat \<Rightarrow> string" where
  "dec n = (if n < 10 then [digit n] else dec (n div 10) @ [digit (n mod 10)])"

declare dec.simps [simp del]

text \<open>\<open>%d\<close> and \<open>%0wd\<close>.\<close>

definition fmt_d :: "int \<Rightarrow> string" where
  "fmt_d i = (if i < 0 then CHR ''-'' # dec (nat (- i)) else dec (nat i))"

definition zeros :: "nat \<Rightarrow> string \<Rightarrow> string" where
  "zeros w s = replicate (w - length s) (CHR ''0'') @ s"

definition fmt_0d :: "nat \<Rightarrow> int \<Rightarrow> string" where
  "fmt_0d w i = (if i < 0 then CHR ''-'' # zeros (w - 1) (dec (nat (- i))) else zeros w (dec (nat i)))"

text \<open>Reading a decimal number back.\<close>

definition undec :: "string \<Rightarrow> nat" where
  "undec s = foldl (\<lambda>n c. 10 * n + (of_char c - 48)) 0 s"

lemma of_char_digit: "d < 10 \<Longrightarrow> of_char (digit d) = (48 + d :: nat)"
  by (simp add: digit_def)

lemma undec_dec [simp]: "undec (dec n) = n"
proof (induction n rule: dec.induct)
  case (1 n)
  then show ?case by (cases "n < 10") (simp_all add: dec.simps [of n] undec_def of_char_digit)
qed

lemma dec_inj: "dec m = dec n \<longleftrightarrow> m = n"
  by (metis undec_dec)

lemma dec_digits: "c \<in> set (dec n) \<Longrightarrow> \<exists>d < 10. c = digit d"
proof (induction n rule: dec.induct)
  case (1 n)
  have "n mod 10 < 10" by simp
  then show ?case using 1 by (cases "n < 10") (auto simp: dec.simps [of n] intro: exI [of _ "n mod 10"])
qed

lemma digit_not_NUL [simp]:
  assumes "d < 10"
  shows "digit d \<noteq> NUL" "NUL \<noteq> digit d"
proof -
  have "of_char (digit d) \<noteq> (of_char NUL :: nat)" using of_char_digit [OF assms] by simp
  then show "digit d \<noteq> NUL" by metis
  then show "NUL \<noteq> digit d" by metis
qed

lemma dec_no_NUL [simp]: "NUL \<notin> set (dec n)"
  using dec_digits by fastforce

lemma length_dec: "n < 10 ^ k \<Longrightarrow> 0 < k \<Longrightarrow> length (dec n) \<le> k"
proof (induction k arbitrary: n)
  case 0
  then show ?case by simp
next
  case (Suc k)
  show ?case
  proof (cases "n < 10")
    case True
    then show ?thesis by (simp add: dec.simps [of n])
  next
    case False
    then have "0 < k" using Suc.prems by (cases k) auto
    moreover have "n div 10 < 10 ^ k" using Suc.prems by (simp add: less_mult_imp_div_less mult.commute)
    ultimately have "length (dec (n div 10)) \<le> k" using Suc.IH by simp
    then show ?thesis using False by (simp add: dec.simps [of n])
  qed
qed

lemma length_dec_pos: "0 < length (dec n)"
  by (simp add: dec.simps [of n])

lemma length_fmt_0d: "0 \<le> i \<Longrightarrow> i < 10 ^ w \<Longrightarrow> 0 < w \<Longrightarrow> length (fmt_0d w i) = w"
  using length_dec [of "nat i" w] by (simp add: fmt_0d_def zeros_def nat_less_iff)

lemma length_fmt_d: "0 \<le> i \<Longrightarrow> i < 10 ^ w \<Longrightarrow> 0 < w \<Longrightarrow> length (fmt_d i) \<le> w"
  using length_dec [of "nat i" w] by (simp add: fmt_d_def nat_less_iff)

lemma fmt_no_NUL [simp]: "NUL \<notin> set (fmt_d i)" "NUL \<notin> set (fmt_0d w i)"
  by (auto simp: fmt_d_def fmt_0d_def zeros_def)

section \<open>Writing into byte arrays\<close>

definition mem_write :: "string \<Rightarrow> nat \<Rightarrow> string \<Rightarrow> string option" where
  "mem_write buf off bytes =
     (if off + length bytes \<le> length buf
      then Some (take off buf @ bytes @ drop (off + length bytes) buf) else None)"

text \<open>
  \<open>snprintf(buf + off, size, ...)\<close> with the formatted text; it returns the length of that text. The
  second form is the string left in a fresh array that is at least as long as \<open>size\<close>.
\<close>

definition snprintf :: "string \<Rightarrow> nat \<Rightarrow> int \<Rightarrow> string \<Rightarrow> string option" where
  "snprintf buf off len text =
     (if len = 0 then Some buf else mem_write buf off (take (nat (len - 1)) text @ [NUL]))"

definition snprintf_str :: "nat \<Rightarrow> string \<Rightarrow> string" where
  "snprintf_str len text = take (len - 1) text"

text \<open>\<open>strcpy\<close> and \<open>strncpy\<close> of a string that is at least as long as the count.\<close>

definition strcpy :: "string \<Rightarrow> string \<Rightarrow> string option" where
  "strcpy buf s = mem_write buf 0 (s @ [NUL])"

definition strncpy :: "string \<Rightarrow> string \<Rightarrow> nat \<Rightarrow> string option" where
  "strncpy buf s n = mem_write buf 0 (take n s)"

text \<open>\<open>strrchr\<close>: the last position of a character.\<close>

fun strrchr :: "string \<Rightarrow> char \<Rightarrow> nat option" where
  "strrchr [] c = None"
| "strrchr (d # s) c =
     (case strrchr s c of
        Some k \<Rightarrow> Some (Suc k)
      | None \<Rightarrow> (if d = c then Some 0 else None))"

lemma strrchr_None: "strrchr s c = None \<longleftrightarrow> c \<notin> set s"
  by (induction s) (auto split: option.splits)

lemma strrchr_split: "c \<notin> set t \<Longrightarrow> strrchr (s @ c # t) c = Some (length s)"
proof (induction s)
  case Nil
  then have "strrchr t c = None" by (simp add: strrchr_None)
  then show ?case by simp
qed simp

lemma length_mem_write: "mem_write buf off bytes = Some buf' \<Longrightarrow> length buf' = length buf"
  by (auto simp: mem_write_def split: if_splits)

end
