(* ===== verification/Sockets.thy ===== *)
theory Sockets
  imports C_Format "HOL-Library.Word"
begin

unbundle bit_operations_syntax

text \<open>
  How the servers open their listening socket and the clients their connection: \<open>set_nonblocking\<close>,
  the set-up that \<open>httprequest.cpp\<close>, \<open>chat_serv.cpp\<close>, \<open>epollet.cpp\<close> and \<open>nonactive_conn.cpp\<close> share, and the whole of
  \<open>nonblockconnect.cpp\<close>. The results of the system calls are an argument; the calls themselves are recorded, with
  the messages printed cut to their fixed part.
\<close>

datatype sys_call =
    Socket
  | Setsockopt int
  | Bind int "nat list"    \<comment> \<open>the two bytes of the port as they stand in memory\<close>
  | Listen int int
  | Connect int
  | Fcntl_Get int
  | Fcntl_Set int int
  | Select int
  | Getsockopt int
  | Close int
  | Say string

text \<open>The event bits of \<open>poll\<close>.\<close>

definition POLLIN :: "16 word" where "POLLIN = 0x001"
definition POLLOUT :: "16 word" where "POLLOUT = 0x004"
definition POLLERR :: "16 word" where "POLLERR = 0x008"
definition POLLHUP :: "16 word" where "POLLHUP = 0x010"
definition POLLNVAL :: "16 word" where "POLLNVAL = 0x020"
definition POLLRDHUP :: "16 word" where "POLLRDHUP = 0x2000"

section \<open>Numbers on the command line and on the wire\<close>

text \<open>\<open>atoi\<close>: white space, a sign, digits. A value outside \<open>int\<close> is undefined.\<close>

definition is_digit :: "char \<Rightarrow> bool" where
  "is_digit c = (let n = (of_char c :: nat) in 48 \<le> n \<and> n \<le> 57)"

definition is_space :: "char \<Rightarrow> bool" where
  "is_space c = (c = CHR '' '' \<or> (let n = (of_char c :: nat) in 9 \<le> n \<and> n \<le> 13))"

definition atoi :: "string \<Rightarrow> int option" where
  "atoi s =
     (let t = dropWhile is_space s;
          (neg, u) = (case t of c # r \<Rightarrow> if c = CHR ''-'' then (True, r) else if c = CHR ''+'' then (False, r) else (False, t)
                              | [] \<Rightarrow> (False, []));
          n = int (undec (takeWhile is_digit u));
          v = (if neg then - n else n)
      in if - (2 ^ 31) \<le> v \<and> v < 2 ^ 31 then Some v else None)"

text \<open>\<open>htons\<close>: the argument is cut to 16 bits and stored high byte first.\<close>

definition htons :: "int \<Rightarrow> nat list" where
  "htons n = (let w = nat (n mod 2 ^ 16) in [w div 256, w mod 256])"

text \<open>The port a peer reads from two bytes in network order.\<close>

definition ntohs :: "nat list \<Rightarrow> nat" where
  "ntohs bs = (case bs of [h, l] \<Rightarrow> 256 * h + l | _ \<Rightarrow> 0)"

lemma ntohs_htons: "ntohs (htons n) = nat (n mod 65536)"
  by (simp add: ntohs_def htons_def Let_def)

lemma digit_is_digit: "d < 10 \<Longrightarrow> is_digit (digit d)"
  by (simp add: is_digit_def of_char_digit Let_def)

lemma atoi_dec:
  assumes "int n < 2 ^ 31"
  shows "atoi (dec n) = Some (int n)"
proof -
  have digits: "\<forall>c \<in> set (dec n). is_digit c" using dec_digits digit_is_digit by blast
  obtain c cs where d: "dec n = c # cs" using length_dec_pos [of n] by (cases "dec n") auto
  have c: "is_digit c" using digits d by simp
  then have "\<not> is_space c" "c \<noteq> CHR ''-''" "c \<noteq> CHR ''+''" by (auto simp: is_digit_def is_space_def Let_def)
  then have "dropWhile is_space (dec n) = c # cs" using d by simp
  moreover have "takeWhile is_digit (c # cs) = dec n" using digits d by (simp add: takeWhile_eq_all_conv)
  ultimately show ?thesis
    using assms \<open>c \<noteq> CHR ''-''\<close> \<open>c \<noteq> CHR ''+''\<close> by (simp add: atoi_def Let_def)
qed

section \<open>Non-blocking mode\<close>

definition O_NONBLOCK :: int where "O_NONBLOCK = 0x800"

text \<open>
  The four copies of the function differ in what they return on success: the new flags, the old
  flags or zero. \<open>getfl\<close> and \<open>setfl\<close> are what the two \<open>fcntl\<close> calls return.
\<close>

definition set_nonblocking_with :: "(int \<Rightarrow> int \<Rightarrow> int) \<Rightarrow> int \<Rightarrow> int \<Rightarrow> int \<Rightarrow> sys_call list \<times> int" where
  "set_nonblocking_with result getfl setfl sockfd =
     (if getfl = -1 then ([Fcntl_Get sockfd], -1)
      else let flags = getfl OR O_NONBLOCK;
               calls = [Fcntl_Get sockfd, Fcntl_Set sockfd flags]
           in if setfl = -1 then (calls, -1) else (calls, result getfl flags))"

definition chat_set_nonblocking :: "int \<Rightarrow> int \<Rightarrow> int \<Rightarrow> sys_call list \<times> int" where
  "chat_set_nonblocking = set_nonblocking_with (\<lambda>old new. new)"

definition setnonblockingmode :: "int \<Rightarrow> int \<Rightarrow> int \<Rightarrow> sys_call list \<times> int" where
  "setnonblockingmode = set_nonblocking_with (\<lambda>old new. 0)"

definition idle_set_nonblocking :: "int \<Rightarrow> int \<Rightarrow> int \<Rightarrow> sys_call list \<times> int" where
  "idle_set_nonblocking = set_nonblocking_with (\<lambda>old new. old)"

definition connect_set_nonblocking :: "int \<Rightarrow> int \<Rightarrow> int \<Rightarrow> sys_call list \<times> int" where
  "connect_set_nonblocking = set_nonblocking_with (\<lambda>old new. 0)"

section \<open>Opening a listening socket\<close>

record server_env =
  sv_socket :: int
  sv_setsockopt :: int
  sv_bind :: int
  sv_listen :: int

text \<open>
  The set-up of the servers, from the arguments to \<open>listen\<close>. \<open>args\<close> are the arguments after the program
  name; only the first is used.
\<close>

definition open_server :: "server_env \<Rightarrow> string list \<Rightarrow> sys_call list \<times> (cpp_error + int)" where
  "open_server env args =
     (case args of
        [] \<Rightarrow> ([Say ''Usage''], Inl (ExitCall 1))
      | arg # _ \<Rightarrow>
          (let s = sv_socket env in
           if s < 0 then ([Socket], Inl AssertionFailed)
           else if sv_setsockopt env \<noteq> 0 then ([Socket, Setsockopt s, Close s], Inl (ExitCall (-1)))
           else case atoi arg of
                  None \<Rightarrow> ([Socket, Setsockopt s], Inl UndefinedBehaviour)
                | Some port \<Rightarrow>
                    (let calls = [Socket, Setsockopt s, Bind s (htons port)] in
                     if sv_bind env = -1 then (calls @ [Say ''bind() error''], Inl (ExitCall 1))
                     else if sv_listen env = -1 then (calls @ [Listen s 5, Say ''listen() error''], Inl (ExitCall 1))
                     else (calls @ [Listen s 5], Inr s))))"

section \<open>Connecting without blocking\<close>

record connect_env =
  cn_socket :: int
  cn_getfl :: int
  cn_setfl :: int
  cn_connect :: int
  cn_errno :: int           \<comment> \<open>the value of \<open>errno\<close> after \<open>connect\<close>, stale when the call succeeded\<close>
  cn_select :: int
  cn_isset :: bool
  cn_so_error :: int

definition EINPROGRESS :: int where "EINPROGRESS = 115"

definition connect_main :: "connect_env \<Rightarrow> sys_call list \<times> int" where
  "connect_main env =
     (let s = cn_socket env in
      if s < 0 then ([Socket], -1)
      else let (nb, r) = connect_set_nonblocking (cn_getfl env) (cn_setfl env) s in
           if r = -1 then (Socket # nb @ [Close s], -1)
           else if cn_connect env < 0 \<and> cn_errno env \<noteq> EINPROGRESS then (Socket # nb @ [Connect s, Close s], -1)
           else if cn_errno env = EINPROGRESS then
             (let pre = Socket # nb @ [Connect s, Say ''Connecting...'', Select s] in
              if cn_select env > 0 \<and> cn_isset env then
                (if cn_so_error env = 0
                 then (pre @ [Getsockopt s, Say ''Connection established!'', Close s], 0)
                 else (pre @ [Getsockopt s, Say ''Connection failed'', Close s], -1))
              else (pre @ [Say ''Connection timed out or failed.'', Close s], -1))
           else (Socket # nb @ [Connect s, Say ''Connection established immediately.'', Close s], 0))"

section \<open>Properties\<close>

text \<open>
  C28. A server listens on the port it is told. Given a port number below 65536 in decimal, and system
  calls that succeed, the server makes exactly the calls socket, setsockopt, bind, listen, and the bytes bound
  are that number in network order; a larger number, as long as it is an \<open>int\<close>, is bound modulo 65536.
\<close>

theorem server_listens_on_port:
  assumes "0 \<le> sv_socket env" "sv_setsockopt env = 0" "sv_bind env \<noteq> -1" "sv_listen env \<noteq> -1" "int n < 2 ^ 31"
  shows "\<exists>bytes. open_server env (dec n # rest) =
      ([Socket, Setsockopt (sv_socket env), Bind (sv_socket env) bytes, Listen (sv_socket env) 5], Inr (sv_socket env))
    \<and> ntohs bytes = n mod 65536 \<and> (n < 65536 \<longrightarrow> ntohs bytes = n)"
proof -
  have "ntohs (htons (int n)) = n mod 65536" by (simp add: ntohs_htons nat_mod_distrib)
  then show ?thesis using assms by (simp add: open_server_def atoi_dec Let_def)
qed

theorem server_listens_on_port_witness:
  "\<exists>bytes. open_server \<lparr>sv_socket = 3, sv_setsockopt = 0, sv_bind = 0, sv_listen = 0\<rparr> [''80''] =
      ([Socket, Setsockopt 3, Bind 3 bytes, Listen 3 5], Inr 3) \<and> ntohs bytes = 80"
proof -
  have "dec 80 = ''80''" by code_simp
  then show ?thesis
    using server_listens_on_port [of "\<lparr>sv_socket = 3, sv_setsockopt = 0, sv_bind = 0, sv_listen = 0\<rparr>" 80 "[]"] by simp
qed

text \<open>
  C37. The non-blocking connect releases its socket on every path. Whatever the system calls return, a
  socket that was opened is closed exactly once, by the last call; and when \<open>errno\<close> is right, that is not
  \<open>EINPROGRESS\<close> after an immediate success, the program returns 0 exactly if the connection was made.
\<close>

theorem connect_main_closes:
  "cn_socket env < 0 \<and> connect_main env = ([Socket], -1)
   \<or> 0 \<le> cn_socket env \<and> last (fst (connect_main env)) = Close (cn_socket env)
      \<and> filter (\<lambda>call. \<exists>f. call = Close f) (fst (connect_main env)) = [Close (cn_socket env)]
      \<and> snd (connect_main env) =
          (if cn_getfl env \<noteq> -1 \<and> cn_setfl env \<noteq> -1
              \<and> (if cn_errno env = EINPROGRESS then cn_select env > 0 \<and> cn_isset env \<and> cn_so_error env = 0
                 else 0 \<le> cn_connect env)
           then 0 else -1)"
proof (cases "cn_getfl env = -1 \<or> cn_setfl env = -1")
  case True
  then show ?thesis
    by (auto simp: connect_main_def connect_set_nonblocking_def set_nonblocking_with_def Let_def)
next
  case False
  then have nb: "connect_set_nonblocking (cn_getfl env) (cn_setfl env) s =
      ([Fcntl_Get s, Fcntl_Set s (cn_getfl env OR O_NONBLOCK)], 0)" for s
    by (simp add: connect_set_nonblocking_def set_nonblocking_with_def Let_def)
  show ?thesis using False by (simp add: connect_main_def nb Let_def)
qed

end
