(* ===== verification/Http_Main.thy ===== *)
theory Http_Main
  imports Http_Parser Sockets
begin

text \<open>
  The program \<open>httprequest.cpp\<close> as a whole: the set-up, and the loop that accepts five clients
  one after the other and serves each with the parser of \<^verbatim>\<open>Http_Parser\<close>. The connections are an argument: a failed
  \<open>accept\<close>, or the descriptor and what its client sends before it closes or an error occurs. (A client that does neither and sends no
  complete request keeps the program in \<open>recv\<close>.)
\<close>

datatype http_effect = Setup sys_call | Accepted int | Replied int string | Hang_Up int

type_synonym http_client = "int \<times> recv_event list"

text \<open>What serving one client does, in order; \<open>None\<close> is an access outside the buffer.\<close>

definition serve_effects :: "http_client \<Rightarrow> http_effect list option" where
  "serve_effects client =
     (case client of (sock, evs) \<Rightarrow>
        case serve_client fresh_parser evs of
          None \<Rightarrow> None
        | Some (Reply reply, printed) \<Rightarrow> Some [Accepted sock, Replied sock reply, Hang_Up sock]
        | Some (_, printed) \<Rightarrow> Some [Accepted sock, Hang_Up sock])"

text \<open>The loop, with the passes left. When no more connections come the program stays in \<open>accept\<close>.\<close>

datatype http_outcome = Waiting | Left cpp_error | Finished

fun http_loop :: "nat \<Rightarrow> http_client option list \<Rightarrow> http_effect list \<times> http_outcome" where
  "http_loop 0 conns = ([], Finished)"
| "http_loop (Suc n) [] = ([], Waiting)"
| "http_loop (Suc n) (None # conns) = ([], Left (ExitCall 1))"
| "http_loop (Suc n) (Some client # conns) =
     (case serve_effects client of
        None \<Rightarrow> ([], Left UndefinedBehaviour)
      | Some es \<Rightarrow> (case http_loop n conns of (es', r) \<Rightarrow> (es @ es', r)))"

definition http_main :: "server_env \<Rightarrow> string list \<Rightarrow> http_client option list \<Rightarrow> http_effect list \<times> http_outcome" where
  "http_main env args conns =
     (case open_server env args of
        (calls, Inl e) \<Rightarrow> (map Setup calls, Left e)
      | (calls, Inr s) \<Rightarrow>
          (case http_loop 5 conns of
             (es, Finished) \<Rightarrow> (map Setup calls @ es @ [Hang_Up s], Finished)
           | (es, r) \<Rightarrow> (map Setup calls @ es, r)))"

section \<open>Properties\<close>

lemma serve_effects_total:
  "\<exists>es. serve_effects (sock, evs) = Some (Accepted sock # es @ [Hang_Up sock]) \<and> length es \<le> 1"
proof -
  obtain e out where "serve_client fresh_parser evs = Some (e, out)"
    using serve_client_total [OF http_inv_fresh(1), of evs] by auto
  then show ?thesis by (cases e) (auto simp: serve_effects_def)
qed

definition effects_of :: "http_client \<Rightarrow> http_effect list" where
  "effects_of client = the (serve_effects client)"

lemma http_loop_served:
  "http_loop n (map Some clients @ rest) =
     (if n \<le> length clients then (concat (map effects_of (take n clients)), Finished)
      else case http_loop (n - length clients) rest of (es, r) \<Rightarrow> (concat (map effects_of clients) @ es, r))"
proof (induction clients arbitrary: n)
  case Nil
  then show ?case by (cases n) (auto split: prod.splits)
next
  case (Cons client clients)
  obtain sock evs where c: "client = (sock, evs)" by (cases client)
  obtain es where es: "serve_effects client = Some es" using serve_effects_total [of sock evs] c by auto
  then have "effects_of client = es" by (simp add: effects_of_def)
  then show ?case using es Cons [of "n - 1"] by (cases n) (auto split: prod.splits)
qed

text \<open>
  C25. The HTTP program serves five clients and stops. When its socket opens and at least five clients connect before an
  \<open>accept\<close> fails, the program accepts exactly the first five, in order; each is answered at most once, and hung up on before the
  next is accepted, whatever it sent before it closed; then the program closes its socket and ends. A sixth client is never accepted.
\<close>

theorem http_main_serves_five:
  assumes "open_server env args = (calls, Inr s)" "length clients = 5"
  shows "http_main env args (map Some clients @ rest) =
      (map Setup calls @ concat (map effects_of clients) @ [Hang_Up s], Finished)
    \<and> (\<forall>client \<in> set clients. \<exists>es. effects_of client = Accepted (fst client) # es @ [Hang_Up (fst client)] \<and> length es \<le> 1)"
proof -
  have "http_loop 5 (map Some clients @ rest) = (concat (map effects_of clients), Finished)"
    using http_loop_served [of 5 clients rest] assms(2) by simp
  moreover have "\<exists>es. effects_of client = Accepted (fst client) # es @ [Hang_Up (fst client)] \<and> length es \<le> 1" for client
    using serve_effects_total [of "fst client" "snd client"] by (auto simp: effects_of_def)
  ultimately show ?thesis using assms(1) by (simp add: http_main_def)
qed

theorem http_main_serves_five_witness:
  "\<exists>es. http_main \<lparr>sv_socket = 3, sv_setsockopt = 0, sv_bind = 0, sv_listen = 0\<rparr> [''80'']
      (map Some (map (\<lambda>s. (s, [Recv_Error])) [4, 5, 6, 7, 8]) @ [Some (9, [])]) = (es, Finished)"
proof -
  have "atoi ''80'' = Some 80" by code_simp
  then have "open_server \<lparr>sv_socket = 3, sv_setsockopt = 0, sv_bind = 0, sv_listen = 0\<rparr> [''80''] =
      ([Socket, Setsockopt 3, Bind 3 (htons 80), Listen 3 5], Inr 3)"
    by (simp add: open_server_def)
  from http_main_serves_five [OF this, of "map (\<lambda>s. (s, [Recv_Error])) [4, 5, 6, 7, 8]" "[Some (9, [])]"]
  show ?thesis by (auto simp del: map_append)
qed

end
