(* ===== verification/Resource.thy ===== *)
theory Resource
  imports Prelude "HOL-Library.Multiset"
begin

text \<open>
  The two interfaces of the repository's pools.

  The class \<open>sem\<close> wraps a POSIX semaphore and is not in the repository: its operations are a record
  that the pools take as an argument, and \<open>sem_laws\<close> states the documented behaviour of a counting
  semaphore that the pools rely on. \<open>counting_sem\<close> is the plain counter that satisfies it.

  \<open>resource_pool\<close> is what a worker thread relies on when it borrows a connection for the time of
  one request.
\<close>

record 's sem_ops =
  sem_make :: "int \<Rightarrow> 's"
  sem_wait :: "'s \<Rightarrow> 's option"
  sem_post :: "'s \<Rightarrow> 's"

text \<open>\<open>sem_wait\<close> gives \<open>None\<close> when the caller would block.\<close>

definition sem_laws :: "'s sem_ops \<Rightarrow> ('s \<Rightarrow> nat) \<Rightarrow> bool" where
  "sem_laws S val \<longleftrightarrow>
     (\<forall>n. 0 \<le> n \<longrightarrow> val (sem_make S n) = nat n)
     \<and> (\<forall>s. sem_wait S s = None \<longleftrightarrow> val s = 0)
     \<and> (\<forall>s s'. sem_wait S s = Some s' \<longrightarrow> val s = Suc (val s'))
     \<and> (\<forall>s. val (sem_post S s) = Suc (val s))"

lemma sem_lawsD:
  assumes "sem_laws S val"
  shows "0 \<le> n \<Longrightarrow> val (sem_make S n) = nat n"
    and "sem_wait S s = None \<longleftrightarrow> val s = 0"
    and "sem_wait S s = Some s' \<Longrightarrow> val s = Suc (val s')"
    and "val (sem_post S s) = Suc (val s)"
  using assms by (auto simp: sem_laws_def)

definition counting_sem :: "nat sem_ops" where
  "counting_sem = \<lparr>sem_make = nat, sem_wait = (\<lambda>n. if n = 0 then None else Some (n - 1)), sem_post = Suc\<rparr>"

lemma counting_sem_laws: "sem_laws counting_sem (\<lambda>n. n)"
  by (auto simp: sem_laws_def counting_sem_def split: if_splits)

section \<open>Borrowing a resource\<close>

text \<open>
  The scope of a \<open>connectionRAII\<close> object: acquire, run the body with the resource (or with a null
  pointer), release. \<open>None\<close> is a caller that blocks, \<open>Inl\<close> undefined behaviour while acquiring.
\<close>

definition with_resource ::
  "('p \<Rightarrow> (cpp_error + 'c option \<times> 'p) option) \<Rightarrow> ('c option \<Rightarrow> 'p \<Rightarrow> 'p) \<Rightarrow> ('c option \<Rightarrow> 'x) \<Rightarrow> 'p
   \<Rightarrow> (cpp_error + 'x \<times> 'p) option" where
  "with_resource acquire release body p =
     (case acquire p of
        None \<Rightarrow> None
      | Some (Inl e) \<Rightarrow> Some (Inl e)
      | Some (Inr (c, p1)) \<Rightarrow> Some (Inr (body c, release c p1)))"

locale resource_pool =
  fixes acquire :: "'p \<Rightarrow> (cpp_error + 'c option \<times> 'p) option"
    and release :: "'c option \<Rightarrow> 'p \<Rightarrow> 'p"
    and free :: "'p \<Rightarrow> 'c list"
    and invar :: "'p \<Rightarrow> bool"
    and lent :: "'p \<Rightarrow> int"
  assumes acquire_Nil: "invar p \<Longrightarrow> free p = [] \<Longrightarrow> acquire p = Some (Inr (None, p))"
    and acquire_Cons: "invar p \<Longrightarrow> free p = c # cs \<Longrightarrow>
      \<exists>p'. acquire p = Some (Inr (Some c, p')) \<and> free p' = cs \<and> invar p' \<and> lent p' = lent p + 1"
    and release_None: "release None p = p"
    and release_Some: "invar p \<Longrightarrow>
      free (release (Some c) p) = free p @ [c] \<and> invar (release (Some c) p) \<and> lent (release (Some c) p) = lent p - 1"
begin

lemma with_resource_restores:
  assumes "invar p"
  shows "\<exists>p'. with_resource acquire release body p =
       Some (Inr (body (case free p of [] \<Rightarrow> None | c # _ \<Rightarrow> Some c), p'))
     \<and> invar p' \<and> lent p' = lent p \<and> mset (free p') = mset (free p)"
proof (cases "free p")
  case Nil
  then show ?thesis
    using acquire_Nil [OF assms] release_None assms by (simp add: with_resource_def)
next
  case (Cons c cs)
  then obtain p1 where a: "acquire p = Some (Inr (Some c, p1))" "free p1 = cs" "invar p1" "lent p1 = lent p + 1"
    using acquire_Cons [OF assms] by blast
  then show ?thesis
    using release_Some [OF a(3), of c] Cons by (simp add: with_resource_def)
qed

text \<open>Any number of scopes one after the other keep the pool.\<close>

lemma scopes_restore:
  "invar p \<Longrightarrow>
   \<exists>p'. fold (\<lambda>body r. r \<bind> (\<lambda>q. case with_resource acquire release body q of
            Some (Inr (_, q')) \<Rightarrow> Some q' | _ \<Rightarrow> None)) bodies (Some p) = Some p'
     \<and> invar p' \<and> lent p' = lent p \<and> mset (free p') = mset (free p)"
proof (induction bodies arbitrary: p)
  case Nil
  then show ?case by simp
next
  case (Cons b bs)
  obtain p1 where p1: "with_resource acquire release b p =
       Some (Inr (b (case free p of [] \<Rightarrow> None | c # _ \<Rightarrow> Some c), p1))"
    "invar p1" "lent p1 = lent p" "mset (free p1) = mset (free p)"
    using with_resource_restores [OF Cons.prems] by blast
  from Cons.IH [OF p1(2)] show ?case using p1 by simp
qed

end

end
