(* ===== verification/Interleaving.thy ===== *)
theory Interleaving
  imports Prelude
begin

text \<open>
  Interleaved execution. A system is given by what an action does in a state, or that it cannot be
  taken there; an action is one atomic section of one thread. The states reachable by any interleaving and the
  result of a given schedule are the same notion for the connection pool, the worker pool, the growing
  thread pool, its example program and the log; the locale \<open>interleaving\<close> carries an invariant along both.
\<close>

inductive reach :: "('a \<Rightarrow> 's \<Rightarrow> 's option) \<Rightarrow> 's \<Rightarrow> 's \<Rightarrow> bool" for act s0 where
  start: "reach act s0 s0"
| step: "reach act s0 s \<Longrightarrow> act a s = Some t \<Longrightarrow> reach act s0 t"

fun schedule :: "('a \<Rightarrow> 's \<Rightarrow> 's option) \<Rightarrow> 'a list \<Rightarrow> 's \<Rightarrow> 's option" where
  "schedule act [] s = Some s"
| "schedule act (a # as) s = act a s \<bind> schedule act as"

lemma schedule_append: "schedule act (as @ bs) s = schedule act as s \<bind> schedule act bs"
  by (induction as arbitrary: s) (auto split: Option.bind_splits)

lemma reach_schedule: "schedule act as s = Some t \<Longrightarrow> reach act s0 s \<Longrightarrow> reach act s0 t"
proof (induction as arbitrary: s)
  case (Cons a as)
  then show ?case by (auto simp: bind_eq_Some_conv intro: reach.step)
qed simp

lemma schedule_reach: "schedule act as s = Some t \<Longrightarrow> reach act s t"
  by (rule reach_schedule [OF _ reach.start])

text \<open>The reachable states are the results of the schedules.\<close>

lemma reach_iff_schedule: "reach act s t \<longleftrightarrow> (\<exists>as. schedule act as s = Some t)"
proof
  show "reach act s t \<Longrightarrow> \<exists>as. schedule act as s = Some t"
  proof (induction rule: reach.induct)
    case start
    show ?case by (rule exI [of _ "[]"]) simp
  next
    case (step t a u)
    then obtain as where "schedule act as s = Some t" by blast
    then have "schedule act (as @ [a]) s = Some u" using step.hyps(2) by (simp add: schedule_append)
    then show ?case by blast
  qed
qed (auto intro: schedule_reach)

locale interleaving =
  fixes act :: "'a \<Rightarrow> 's \<Rightarrow> 's option"
    and inv :: "'s \<Rightarrow> bool"
  assumes act_inv: "inv s \<Longrightarrow> act a s = Some t \<Longrightarrow> inv t"
begin

lemma reach_inv: "reach act s t \<Longrightarrow> inv s \<Longrightarrow> inv t"
  by (induction rule: reach.induct) (auto intro: act_inv)

lemma schedule_inv: "schedule act as s = Some t \<Longrightarrow> inv s \<Longrightarrow> inv t"
  by (blast intro: reach_inv schedule_reach)

end

end
