(* ===== verification/Sql_Pool.thy ===== *)
theory Sql_Pool
  imports Resource Interleaving
begin

text \<open>
  The MySQL connection pool (\<open>sql_connection_pool.h\<close>, \<open>sql_connection_pool.cpp\<close>). A connection is
  an element of a type \<open>'c\<close> of non-null pointers; \<open>None\<close> is the null pointer. The mutex \<open>lock\<close>
  makes each critical section one atomic operation; the semaphore \<open>reserve\<close> is an argument. What
  the MySQL library does on a connection attempt is an argument of \<open>init\<close>.

  The sequential methods come first, then the interleaving of any number of threads that call
  them, one step per atomic section.
\<close>

record ('c, 's) connection_pool =
  m_MaxConn :: int
  m_CurConn :: int
  m_FreeConn :: int
  connList :: "'c list"
  reserve :: 's
  m_url :: string
  m_Port :: string
  m_User :: string
  m_PassWord :: string
  m_DatabaseName :: string
  m_close_log :: int

text \<open>
  The single instance is a static object: the fields the constructor does not set are zero or
  empty. \<open>s0\<close> is what the default constructor of \<open>sem\<close> makes.
\<close>

definition connection_pool_new :: "'s \<Rightarrow> ('c, 's) connection_pool" where
  "connection_pool_new s0 = \<lparr>m_MaxConn = 0, m_CurConn = 0, m_FreeConn = 0, connList = [], reserve = s0,
     m_url = [], m_Port = [], m_User = [], m_PassWord = [], m_DatabaseName = [], m_close_log = 0\<rparr>"

section \<open>Initialisation\<close>

datatype 'c mysql_attempt = Init_Failed | Connect_Failed | Connected 'c

text \<open>
  The loop of \<open>init\<close>, with the number of passes left and the outcome of each attempt. A failure logs
  a line, if the log is open, and exits. The result is the lines logged and the pool.
\<close>

fun init_loop ::
  "(nat \<Rightarrow> 'c mysql_attempt) \<Rightarrow> nat \<Rightarrow> nat \<Rightarrow> ('c, 's) connection_pool
   \<Rightarrow> string list \<times> (cpp_error + ('c, 's) connection_pool)" where
  "init_loop mysql i 0 p = ([], Inr p)"
| "init_loop mysql i (Suc n) p =
     (let failed = ((if m_close_log p = 0 then [''MySQL Error''] else []), Inl (ExitCall 1)) in
      case mysql i of
        Init_Failed \<Rightarrow> failed
      | Connect_Failed \<Rightarrow> failed
      | Connected con \<Rightarrow>
          init_loop mysql (Suc i) n (p\<lparr>connList := connList p @ [con], m_FreeConn := m_FreeConn p + 1\<rparr>))"

text \<open>
  Assigning the integer \<open>Port\<close> to the string \<open>m_Port\<close> selects the assignment of a single character,
  the low byte of the integer.
\<close>

definition init ::
  "'s sem_ops \<Rightarrow> (nat \<Rightarrow> 'c mysql_attempt) \<Rightarrow> string \<Rightarrow> string \<Rightarrow> string \<Rightarrow> string \<Rightarrow> int \<Rightarrow> int \<Rightarrow> int
   \<Rightarrow> ('c, 's) connection_pool \<Rightarrow> string list \<times> (cpp_error + ('c, 's) connection_pool)" where
  "init S mysql url User PassWord DBName Port MaxConn close_log p =
     (case init_loop mysql 0 (nat MaxConn)
             (p\<lparr>m_url := url, m_Port := [char_of Port], m_User := User, m_PassWord := PassWord,
                m_DatabaseName := DBName, m_close_log := close_log\<rparr>) of
        (logged, Inl e) \<Rightarrow> (logged, Inl e)
      | (logged, Inr p) \<Rightarrow>
          (logged, Inr (p\<lparr>reserve := sem_make S (m_FreeConn p), m_MaxConn := m_FreeConn p\<rparr>)))"

section \<open>The methods\<close>

text \<open>The critical sections of \<open>GetConnection\<close> and \<open>ReleaseConnection\<close>.\<close>

definition take_conn :: "('c, 's) connection_pool \<Rightarrow> cpp_error + 'c \<times> ('c, 's) connection_pool" where
  "take_conn p =
     (case connList p of
        [] \<Rightarrow> Inl UndefinedBehaviour
      | con # rest \<Rightarrow>
          Inr (con, p\<lparr>connList := rest, m_FreeConn := m_FreeConn p - 1, m_CurConn := m_CurConn p + 1\<rparr>))"

definition put_conn :: "'c \<Rightarrow> ('c, 's) connection_pool \<Rightarrow> ('c, 's) connection_pool" where
  "put_conn con p =
     p\<lparr>connList := connList p @ [con], m_FreeConn := m_FreeConn p + 1, m_CurConn := m_CurConn p - 1\<rparr>"

text \<open>\<open>GetConnection\<close> by one thread alone; \<open>None\<close> is a thread that blocks on the semaphore.\<close>

definition GetConnection ::
  "'s sem_ops \<Rightarrow> ('c, 's) connection_pool \<Rightarrow> (cpp_error + 'c option \<times> ('c, 's) connection_pool) option" where
  "GetConnection S p =
     (if length (connList p) = 0 then Some (Inr (None, p))
      else case sem_wait S (reserve p) of
             None \<Rightarrow> None
           | Some r \<Rightarrow>
               (case take_conn (p\<lparr>reserve := r\<rparr>) of
                  Inl e \<Rightarrow> Some (Inl e)
                | Inr (con, p') \<Rightarrow> Some (Inr (Some con, p'))))"

definition ReleaseConnection ::
  "'s sem_ops \<Rightarrow> 'c option \<Rightarrow> ('c, 's) connection_pool \<Rightarrow> bool \<times> ('c, 's) connection_pool" where
  "ReleaseConnection S con p =
     (case con of
        None \<Rightarrow> (False, p)
      | Some con \<Rightarrow> (let p = put_conn con p in (True, p\<lparr>reserve := sem_post S (reserve p)\<rparr>)))"

text \<open>\<open>DestroyPool\<close>, which the destructor calls: the connections closed, and the pool.\<close>

definition DestroyPool :: "('c, 's) connection_pool \<Rightarrow> 'c list \<times> ('c, 's) connection_pool" where
  "DestroyPool p =
     (if length (connList p) > 0
      then (connList p, p\<lparr>m_CurConn := 0, m_FreeConn := 0, connList := []\<rparr>)
      else ([], p))"

definition GetFreeConn :: "('c, 's) connection_pool \<Rightarrow> int" where
  "GetFreeConn p = m_FreeConn p"

text \<open>
  \<open>connectionRAII\<close>: the constructor acquires and remembers the connection, the destructor releases
  what was remembered.
\<close>

definition connectionRAII ::
  "'s sem_ops \<Rightarrow> ('c, 's) connection_pool \<Rightarrow> (cpp_error + 'c option \<times> ('c, 's) connection_pool) option" where
  "connectionRAII S p = GetConnection S p"

definition connectionRAII_end ::
  "'s sem_ops \<Rightarrow> 'c option \<Rightarrow> ('c, 's) connection_pool \<Rightarrow> ('c, 's) connection_pool" where
  "connectionRAII_end S conRAII p = snd (ReleaseConnection S conRAII p)"

section \<open>Any number of threads\<close>

text \<open>
  Where a thread stands: outside the pool, past the unlocked test of \<open>connList.size()\<close>, past
  \<open>reserve.wait()\<close>, holding what \<open>GetConnection\<close> returned, or between the critical section of
  \<open>ReleaseConnection\<close> and its \<open>reserve.post()\<close>.
\<close>

datatype 'c conn_pc =
    Outside
  | Size_Tested
  | Reserved
  | Holding "'c option"
  | Pushed_Back

record ('c, 's) pool_system =
  pool :: "('c, 's) connection_pool"
  pcs :: "'c conn_pc list"

inductive pool_step ::
  "'s sem_ops \<Rightarrow> ('c, 's) pool_system \<Rightarrow> ('c, 's) pool_system \<Rightarrow> bool" for S where
  found_empty: "i < length (pcs s) \<Longrightarrow> pcs s ! i = Outside \<Longrightarrow> length (connList (pool s)) = 0 \<Longrightarrow>
     pool_step S s (s\<lparr>pcs := (pcs s)[i := Holding None]\<rparr>)"
| found_some: "i < length (pcs s) \<Longrightarrow> pcs s ! i = Outside \<Longrightarrow> length (connList (pool s)) \<noteq> 0 \<Longrightarrow>
     pool_step S s (s\<lparr>pcs := (pcs s)[i := Size_Tested]\<rparr>)"
| waited: "i < length (pcs s) \<Longrightarrow> pcs s ! i = Size_Tested \<Longrightarrow> sem_wait S (reserve (pool s)) = Some r \<Longrightarrow>
     pool_step S s (s\<lparr>pool := (pool s)\<lparr>reserve := r\<rparr>, pcs := (pcs s)[i := Reserved]\<rparr>)"
| taken: "i < length (pcs s) \<Longrightarrow> pcs s ! i = Reserved \<Longrightarrow> take_conn (pool s) = Inr (con, p) \<Longrightarrow>
     pool_step S s (s\<lparr>pool := p, pcs := (pcs s)[i := Holding (Some con)]\<rparr>)"
| released_null: "i < length (pcs s) \<Longrightarrow> pcs s ! i = Holding None \<Longrightarrow>
     pool_step S s (s\<lparr>pcs := (pcs s)[i := Outside]\<rparr>)"
| pushed_back: "i < length (pcs s) \<Longrightarrow> pcs s ! i = Holding (Some con) \<Longrightarrow>
     pool_step S s (s\<lparr>pool := put_conn con (pool s), pcs := (pcs s)[i := Pushed_Back]\<rparr>)"
| posted: "i < length (pcs s) \<Longrightarrow> pcs s ! i = Pushed_Back \<Longrightarrow>
     pool_step S s (s\<lparr>pool := (pool s)\<lparr>reserve := sem_post S (reserve (pool s))\<rparr>, pcs := (pcs s)[i := Outside]\<rparr>)"

text \<open>
  The same steps as a function: what thread \<open>i\<close> does next, if it can go on. A schedule names the
  threads that move, in order.
\<close>

definition pool_next :: "'s sem_ops \<Rightarrow> nat \<Rightarrow> ('c, 's) pool_system \<Rightarrow> ('c, 's) pool_system option" where
  "pool_next S i s =
     (if i < length (pcs s) then
        (case pcs s ! i of
           Outside \<Rightarrow>
             Some (s\<lparr>pcs := (pcs s)[i := (if length (connList (pool s)) = 0 then Holding None else Size_Tested)]\<rparr>)
         | Size_Tested \<Rightarrow>
             map_option (\<lambda>r. s\<lparr>pool := (pool s)\<lparr>reserve := r\<rparr>, pcs := (pcs s)[i := Reserved]\<rparr>)
               (sem_wait S (reserve (pool s)))
         | Reserved \<Rightarrow>
             (case take_conn (pool s) of
                Inl e \<Rightarrow> None
              | Inr (con, p) \<Rightarrow> Some (s\<lparr>pool := p, pcs := (pcs s)[i := Holding (Some con)]\<rparr>))
         | Holding None \<Rightarrow> Some (s\<lparr>pcs := (pcs s)[i := Outside]\<rparr>)
         | Holding (Some con) \<Rightarrow> Some (s\<lparr>pool := put_conn con (pool s), pcs := (pcs s)[i := Pushed_Back]\<rparr>)
         | Pushed_Back \<Rightarrow>
             Some (s\<lparr>pool := (pool s)\<lparr>reserve := sem_post S (reserve (pool s))\<rparr>, pcs := (pcs s)[i := Outside]\<rparr>))
      else None)"

lemma pool_step_iff: "pool_step S s t \<longleftrightarrow> (\<exists>i. pool_next S i s = Some t)"
proof
  show "pool_step S s t \<Longrightarrow> \<exists>i. pool_next S i s = Some t"
    by (induction rule: pool_step.induct) (rule_tac x = i in exI, simp add: pool_next_def)+
  show "\<exists>i. pool_next S i s = Some t \<Longrightarrow> pool_step S s t"
    by (auto simp: pool_next_def intro: pool_step.intros
        split: if_splits conn_pc.splits option.splits sum.splits)
qed

abbreviation pool_reachable :: "'s sem_ops \<Rightarrow> ('c, 's) pool_system \<Rightarrow> ('c, 's) pool_system \<Rightarrow> bool" where
  "pool_reachable S \<equiv> reach (pool_next S)"

text \<open>The connections the threads hold.\<close>

fun held_by :: "'c conn_pc \<Rightarrow> 'c list" where
  "held_by (Holding (Some c)) = [c]"
| "held_by _ = []"

definition held :: "'c conn_pc list \<Rightarrow> 'c list" where
  "held ps = concat (map held_by ps)"

text \<open>
  The invariant for a pool of the connections \<open>M\<close>: the counters count, no connection is lost or
  duplicated, and every listed connection is accounted for by the semaphore, by a thread past its
  wait, or by a post still to come.
\<close>

definition pool_inv :: "('s \<Rightarrow> nat) \<Rightarrow> 'c multiset \<Rightarrow> ('c, 's) pool_system \<Rightarrow> bool" where
  "pool_inv val M s \<longleftrightarrow>
     m_FreeConn (pool s) = int (length (connList (pool s)))
     \<and> m_CurConn (pool s) = int (length (held (pcs s)))
     \<and> mset (connList (pool s)) + mset (held (pcs s)) = M
     \<and> int (val (reserve (pool s))) + cnt (\<lambda>x. x = Reserved) (pcs s) + cnt (\<lambda>x. x = Pushed_Back) (pcs s)
         = int (length (connList (pool s)))"

lemma mset_held_update:
  "i < length ps \<Longrightarrow> mset (held (ps[i := v])) + mset (held_by (ps ! i)) = mset (held ps) + mset (held_by v)"
proof (induction ps arbitrary: i)
  case Nil
  then show ?case by simp
next
  case (Cons p ps)
  show ?case
  proof (cases i)
    case 0
    then show ?thesis by (simp add: held_def)
  next
    case (Suc j)
    then have "mset (held (ps[j := v])) + mset (held_by (ps ! j)) = mset (held ps) + mset (held_by v)"
      using Cons by simp
    then show ?thesis using Suc by (simp add: held_def add.assoc)
  qed
qed

text \<open>The forms in which the invariant proof uses it.\<close>

lemma held_same:
  assumes "i < length ps" "held_by (ps ! i) = held_by v"
  shows "mset (held (ps[i := v])) = mset (held ps)" "length (held (ps[i := v])) = length (held ps)"
proof -
  show "mset (held (ps[i := v])) = mset (held ps)"
    using mset_held_update [OF assms(1), of v] assms(2) by simp
  then show "length (held (ps[i := v])) = length (held ps)" by (metis size_mset)
qed

lemma held_gain:
  assumes "i < length ps" "held_by (ps ! i) = []" "held_by v = [c]"
  shows "mset (held (ps[i := v])) = add_mset c (mset (held ps))"
    "length (held (ps[i := v])) = Suc (length (held ps))"
proof -
  show "mset (held (ps[i := v])) = add_mset c (mset (held ps))"
    using mset_held_update [OF assms(1), of v] assms(2,3) by simp
  then show "length (held (ps[i := v])) = Suc (length (held ps))" by (metis size_mset size_add_mset)
qed

lemma held_loss:
  assumes "i < length ps" "held_by (ps ! i) = [c]" "held_by v = []"
  shows "add_mset c (mset (held (ps[i := v]))) = mset (held ps)"
    "length (held ps) = Suc (length (held (ps[i := v])))"
proof -
  show eq: "add_mset c (mset (held (ps[i := v]))) = mset (held ps)"
    using mset_held_update [OF assms(1), of v] assms(2,3) by simp
  then show "length (held ps) = Suc (length (held (ps[i := v])))" by (metis size_mset size_add_mset)
qed

text \<open>One lemma per step, then all steps.\<close>

lemma pool_step_inv:
  assumes laws: "sem_laws S val"
  shows "pool_step S s t \<Longrightarrow> pool_inv val M s \<Longrightarrow> pool_inv val M t"
proof (induction rule: pool_step.induct)
  case (found_empty i s)
  then show ?case by (simp add: pool_inv_def held_same cnt_update)
next
  case (found_some i s)
  then show ?case by (simp add: pool_inv_def held_same cnt_update)
next
  case (waited i s r)
  then show ?case
    using sem_lawsD(3) [OF laws waited(3)] by (simp add: pool_inv_def held_same cnt_update)
next
  case (taken i s con p)
  then obtain rest where "connList (pool s) = con # rest"
    "p = (pool s)\<lparr>connList := rest, m_FreeConn := m_FreeConn (pool s) - 1, m_CurConn := m_CurConn (pool s) + 1\<rparr>"
    by (auto simp: take_conn_def split: list.splits)
  then show ?case using taken by (simp add: pool_inv_def held_gain cnt_update)
next
  case (released_null i s)
  then show ?case by (simp add: pool_inv_def held_same cnt_update)
next
  case (pushed_back i s con)
  have h: "held_by (pcs s ! i) = [con]" using pushed_back by simp
  note loss = held_loss [OF pushed_back(1) h, of Pushed_Back]
  then show ?case
    using pushed_back by (auto simp: pool_inv_def put_conn_def cnt_update simp flip: loss(1))
next
  case (posted i s)
  then show ?case
    using sem_lawsD(4) [OF laws] by (simp add: pool_inv_def held_same cnt_update)
qed

interpretation conns: interleaving "pool_next S" "\<lambda>s. sem_laws S val \<longrightarrow> pool_inv val M s"
  by unfold_locales (metis pool_step_iff pool_step_inv)

text \<open>A thread that got past the semaphore finds a connection in the list.\<close>

lemma reserved_takes:
  assumes "pool_inv val M s" "i < length (pcs s)" "pcs s ! i = Reserved"
  shows "\<exists>con p. take_conn (pool s) = Inr (con, p)"
proof -
  have "1 \<le> cnt (\<lambda>x. x = Reserved) (pcs s)" using assms(2,3) by (rule cnt_pos)
  moreover have "0 \<le> cnt (\<lambda>x. x = Pushed_Back) (pcs s)" by simp
  moreover have "int (val (reserve (pool s))) + cnt (\<lambda>x. x = Reserved) (pcs s)
      + cnt (\<lambda>x. x = Pushed_Back) (pcs s) = int (length (connList (pool s)))"
    using assms(1) by (simp add: pool_inv_def)
  ultimately have "0 < length (connList (pool s))" by linarith
  then show ?thesis by (auto simp: take_conn_def split: list.splits)
qed

section \<open>The pool a successful initialisation makes\<close>

lemma init_loop_connected:
  "\<forall>j. i \<le> j \<and> j < i + n \<longrightarrow> mysql j = Connected (f j) \<Longrightarrow>
   init_loop mysql i n p =
     ([], Inr (p\<lparr>connList := connList p @ map f [i..<i + n], m_FreeConn := m_FreeConn p + int n\<rparr>))"
proof (induction n arbitrary: i p)
  case 0
  then show ?case by simp
next
  case (Suc n)
  have "mysql i = Connected (f i)" using Suc.prems by simp
  moreover have "\<forall>j. Suc i \<le> j \<and> j < Suc i + n \<longrightarrow> mysql j = Connected (f j)" using Suc.prems by simp
  moreover have "[i..<i + Suc n] = i # [Suc i..<Suc i + n]" by (simp add: upt_conv_Cons del: upt_Suc)
  ultimately show ?case using Suc.IH [of "Suc i"] by (simp add: add.assoc del: upt_Suc)
qed

lemma init_loop_failed:
  "j < n \<Longrightarrow> (\<And>k. k < j \<Longrightarrow> \<exists>c. mysql (i + k) = Connected c) \<Longrightarrow>
   mysql (i + j) = Init_Failed \<or> mysql (i + j) = Connect_Failed \<Longrightarrow>
   init_loop mysql i n p = ((if m_close_log p = 0 then [''MySQL Error''] else []), Inl (ExitCall 1))"
proof (induction n arbitrary: i j p)
  case 0
  then show ?case by simp
next
  case (Suc n)
  show ?case
  proof (cases j)
    case 0
    then show ?thesis using Suc.prems(3) by (auto simp: Let_def)
  next
    case (Suc k)
    obtain c where "mysql i = Connected c" using Suc.prems(2) [of 0] Suc by auto
    moreover have "\<And>m. m < k \<Longrightarrow> \<exists>c. mysql (Suc i + m) = Connected c"
      using Suc.prems(2) Suc by (metis Suc_less_eq add_Suc_shift)
    ultimately show ?thesis using Suc.IH [of k "Suc i"] Suc.prems Suc by (simp add: Let_def)
  qed
qed

definition idle_system :: "('c, 's) connection_pool \<Rightarrow> nat \<Rightarrow> ('c, 's) pool_system" where
  "idle_system p threads = \<lparr>pool = p, pcs = replicate threads Outside\<rparr>"

lemma held_replicate [simp]: "held (replicate n Outside) = []"
  by (simp add: held_def)

lemma init_connected:
  assumes "\<forall>j < nat MaxConn. mysql j = Connected (f j)"
  shows "init S mysql url u pw db Port MaxConn cl (connection_pool_new s0) =
    ([], Inr \<lparr>m_MaxConn = int (nat MaxConn), m_CurConn = 0, m_FreeConn = int (nat MaxConn),
       connList = map f [0..<nat MaxConn], reserve = sem_make S (int (nat MaxConn)), m_url = url,
       m_Port = [char_of Port], m_User = u, m_PassWord = pw, m_DatabaseName = db, m_close_log = cl\<rparr>)"
  using assms by (simp add: init_def connection_pool_new_def init_loop_connected [where f = f])

lemma init_pool_inv:
  assumes "sem_laws S val"
    and "\<forall>j < nat MaxConn. mysql j = Connected (f j)"
    and "init S mysql url u pw db Port MaxConn cl (connection_pool_new s0) = (logged, Inr p)"
  shows "pool_inv val (mset (map f [0..<nat MaxConn])) (idle_system p threads)"
  using assms(3) unfolding init_connected [OF assms(2)]
  using sem_lawsD(1) [OF assms(1)] by (auto simp: pool_inv_def idle_system_def)

section \<open>The pool as a provider of resources\<close>

text \<open>Between two calls, with no thread inside the pool, the semaphore counts the listed connections.\<close>

definition pool_ready :: "'s sem_ops \<Rightarrow> ('s \<Rightarrow> nat) \<Rightarrow> ('c, 's) connection_pool \<Rightarrow> bool" where
  "pool_ready S val p \<longleftrightarrow>
     sem_laws S val \<and> val (reserve p) = length (connList p) \<and> m_FreeConn p = int (length (connList p))"

lemma GetConnection_ready:
  assumes "pool_ready S val p" "connList p = c # cs"
  shows "\<exists>r. GetConnection S p = Some (Inr (Some c, p\<lparr>connList := cs, reserve := r,
       m_FreeConn := m_FreeConn p - 1, m_CurConn := m_CurConn p + 1\<rparr>)) \<and> val r = length cs"
proof -
  have laws: "sem_laws S val" and "val (reserve p) \<noteq> 0"
    using assms by (auto simp: pool_ready_def)
  then obtain r where r: "sem_wait S (reserve p) = Some r"
    using sem_lawsD(2) [OF laws] by (metis option.exhaust)
  moreover have "val r = length cs"
    using sem_lawsD(3) [OF laws r] assms by (simp add: pool_ready_def)
  ultimately show ?thesis
    using assms(2) by (intro exI [of _ r]) (simp add: GetConnection_def take_conn_def)
qed

interpretation conn: resource_pool "connectionRAII S" "connectionRAII_end S" connList "pool_ready S val" m_CurConn
  for S :: "'s sem_ops" and val
proof
  fix p :: "('c, 's) connection_pool" and c cs
  show "pool_ready S val p \<Longrightarrow> connList p = [] \<Longrightarrow> connectionRAII S p = Some (Inr (None, p))"
    by (simp add: connectionRAII_def GetConnection_def)
  show "connectionRAII_end S None p = p"
    by (simp add: connectionRAII_end_def ReleaseConnection_def)
  show "\<exists>p'. connectionRAII S p = Some (Inr (Some c, p')) \<and> connList p' = cs \<and> pool_ready S val p'
      \<and> m_CurConn p' = m_CurConn p + 1" if "pool_ready S val p" "connList p = c # cs"
    using GetConnection_ready [OF that] that by (auto simp: connectionRAII_def pool_ready_def)
  show "connList (connectionRAII_end S (Some c) p) = connList p @ [c] \<and> pool_ready S val (connectionRAII_end S (Some c) p)
      \<and> m_CurConn (connectionRAII_end S (Some c) p) = m_CurConn p - 1" if "pool_ready S val p"
    using that sem_lawsD(4) [of S val]
    by (auto simp: connectionRAII_end_def ReleaseConnection_def put_conn_def pool_ready_def Let_def)
qed

section \<open>Properties\<close>

lemma held_distinct:
  assumes "pool_inv val (mset cs) s" "distinct cs"
  shows "distinct (connList (pool s) @ held (pcs s))"
proof -
  have "mset (connList (pool s) @ held (pcs s)) = mset cs" using assms(1) by (simp add: pool_inv_def)
  then show ?thesis using assms(2) by (metis mset_eq_imp_distinct_iff)
qed

lemma pool_inv_total:
  assumes "pool_inv val (mset cs) s"
  shows "m_FreeConn (pool s) + m_CurConn (pool s) = int (length cs)"
proof -
  have "mset (connList (pool s) @ held (pcs s)) = mset cs" using assms by (simp add: pool_inv_def)
  then have "length (connList (pool s) @ held (pcs s)) = length cs" by (metis size_mset)
  then show ?thesis using assms by (simp add: pool_inv_def)
qed

text \<open>
  C3. The connection pool is safe under every interleaving. After a successful \<open>init\<close> that
  made distinct connections, and whatever any number of threads have done with \<open>GetConnection\<close> and
  \<open>ReleaseConnection\<close> since: a thread that got past the semaphore finds a connection, so \<open>front()\<close> is
  never called on an empty list; \<open>GetFreeConn\<close> is the length of the list and \<open>m_CurConn\<close> the number of
  connections held; together they are the number of connections made; and no connection is listed
  twice, held by two threads, or listed while it is held.
\<close>

theorem sql_pool_safe:
  assumes "sem_laws S val"
    and "\<forall>j < nat MaxConn. mysql j = Connected (f j)" and "inj_on f {..<nat MaxConn}"
    and "init S mysql url User PassWord DBName Port MaxConn close_log (connection_pool_new s0) = (logged, Inr p)"
    and "pool_reachable S (idle_system p threads) s"
  shows "(\<forall>i < length (pcs s). pcs s ! i = Reserved \<longrightarrow> (\<exists>con p'. take_conn (pool s) = Inr (con, p')))
     \<and> GetFreeConn (pool s) = int (length (connList (pool s)))
     \<and> m_CurConn (pool s) = int (length (held (pcs s)))
     \<and> GetFreeConn (pool s) + m_CurConn (pool s) = int (nat MaxConn)
     \<and> distinct (connList (pool s) @ held (pcs s))"
proof -
  let ?cs = "map f [0..<nat MaxConn]"
  have inv: "pool_inv val (mset ?cs) s"
    using conns.reach_inv [OF assms(5), of val] init_pool_inv [OF assms(1,2,4)] assms(1) by blast
  have "distinct ?cs" using assms(3) by (simp add: distinct_map atLeast0LessThan)
  with inv have "distinct (connList (pool s) @ held (pcs s))" by (rule held_distinct)
  moreover have "m_FreeConn (pool s) + m_CurConn (pool s) = int (nat MaxConn)"
    using pool_inv_total [OF inv] by simp
  ultimately show ?thesis
    using inv reserved_takes [OF inv] by (simp add: pool_inv_def GetFreeConn_def)
qed

theorem sql_pool_safe_witness:
  "\<exists>s :: (nat, nat) pool_system. pcs s = [Holding (Some 0), Size_Tested] \<and> distinct (connList (pool s) @ held (pcs s))
     \<and> GetFreeConn (pool s) + m_CurConn (pool s) = 1"
proof -
  define p where "p = \<lparr>m_MaxConn = 1, m_CurConn = 0, m_FreeConn = 1, connList = [0::nat], reserve = 1::nat,
    m_url = ''u'', m_Port = [CHR 234], m_User = ''r'', m_PassWord = ''p'', m_DatabaseName = ''d'', m_close_log = 1\<rparr>"
  define s where "s = \<lparr>pool = p\<lparr>connList := [], reserve := 0, m_FreeConn := 0, m_CurConn := 1\<rparr>,
    pcs = [Holding (Some 0), Size_Tested]\<rparr>"
  have i: "init counting_sem Connected ''u'' ''r'' ''p'' ''d'' 3306 1 1 (connection_pool_new 0) = ([], Inr p)"
    by (simp add: init_def connection_pool_new_def numeral_eq_Suc counting_sem_def p_def char_of_def bit_simps)
  have "pool_reachable counting_sem (idle_system p 2) s"
    by (rule schedule_reach [where as = "[0, 1, 0, 0]"])
      (simp add: idle_system_def s_def p_def pool_next_def numeral_eq_Suc counting_sem_def take_conn_def)
  from sql_pool_safe [OF counting_sem_laws _ _ i this, of "\<lambda>j. j"]
  have "distinct (connList (pool s) @ held (pcs s)) \<and> GetFreeConn (pool s) + m_CurConn (pool s) = 1"
    by simp
  moreover have "pcs s = [Holding (Some 0), Size_Tested]" by (simp add: s_def)
  ultimately show ?thesis by blast
qed

text \<open>
  C14. The pool does not deadlock. In every reachable state of a pool with at least one connection,
  a thread that blocks on \<open>reserve.wait()\<close> does so only while some other thread still has a
  connection in hand, has one reserved, or is about to post.
\<close>

theorem sql_pool_wait_justified:
  assumes "sem_laws S val"
    and "\<forall>j < nat MaxConn. mysql j = Connected (f j)" and "0 < MaxConn"
    and "init S mysql url User PassWord DBName Port MaxConn close_log (connection_pool_new s0) = (logged, Inr p)"
    and "pool_reachable S (idle_system p threads) s"
    and "sem_wait S (reserve (pool s)) = None"
  shows "held (pcs s) \<noteq> [] \<or> Reserved \<in> set (pcs s) \<or> Pushed_Back \<in> set (pcs s)"
proof (rule ccontr)
  let ?cs = "map f [0..<nat MaxConn]"
  assume none: "\<not> ?thesis"
  have inv: "pool_inv val (mset ?cs) s"
    using conns.reach_inv [OF assms(5), of val] init_pool_inv [OF assms(1,2,4)] assms(1) by blast
  have "cnt (\<lambda>x. x = Reserved) (pcs s) = 0" "cnt (\<lambda>x. x = Pushed_Back) (pcs s) = 0"
    using none by (auto simp: cnt_zero_iff)
  moreover have "val (reserve (pool s)) = 0" using assms(6) sem_lawsD(2) [OF assms(1)] by simp
  ultimately have "connList (pool s) = []" using inv by (simp add: pool_inv_def)
  then have "m_FreeConn (pool s) + m_CurConn (pool s) = 0" using inv none by (simp add: pool_inv_def)
  then show False using pool_inv_total [OF inv] assms(3) by simp
qed

theorem sql_pool_wait_justified_witness:
  "\<exists>s :: (nat, nat) pool_system. pcs s = [Holding (Some 0), Size_Tested] \<and> sem_wait counting_sem (reserve (pool s)) = None
     \<and> (held (pcs s) \<noteq> [] \<or> Reserved \<in> set (pcs s) \<or> Pushed_Back \<in> set (pcs s))"
proof -
  define p where "p = \<lparr>m_MaxConn = 1, m_CurConn = 0, m_FreeConn = 1, connList = [0::nat], reserve = 1::nat,
    m_url = ''u'', m_Port = [CHR 234], m_User = ''r'', m_PassWord = ''p'', m_DatabaseName = ''d'', m_close_log = 1\<rparr>"
  define s where "s = \<lparr>pool = p\<lparr>connList := [], reserve := 0, m_FreeConn := 0, m_CurConn := 1\<rparr>,
    pcs = [Holding (Some 0), Size_Tested]\<rparr>"
  have i: "init counting_sem Connected ''u'' ''r'' ''p'' ''d'' 3306 1 1 (connection_pool_new 0) = ([], Inr p)"
    by (simp add: init_def connection_pool_new_def numeral_eq_Suc counting_sem_def p_def char_of_def bit_simps)
  have r: "pool_reachable counting_sem (idle_system p 2) s"
    by (rule schedule_reach [where as = "[0, 1, 0, 0]"])
      (simp add: idle_system_def s_def p_def pool_next_def numeral_eq_Suc counting_sem_def take_conn_def)
  have w: "sem_wait counting_sem (reserve (pool s)) = None" by (simp add: s_def p_def counting_sem_def)
  have "held (pcs s) \<noteq> [] \<or> Reserved \<in> set (pcs s) \<or> Pushed_Back \<in> set (pcs s)"
    using sql_pool_wait_justified [OF counting_sem_laws _ _ i r w, of "\<lambda>j. j"] by simp
  moreover have "pcs s = [Holding (Some 0), Size_Tested]" by (simp add: s_def)
  ultimately show ?thesis using w by blast
qed

text \<open>
  C23. \<open>init\<close> on every branch. When every attempt connects, nothing is logged, the list holds the
  connections in the order they were made, \<open>m_FreeConn\<close>, \<open>m_MaxConn\<close> and the semaphore all count
  them, and the settings are recorded. When an attempt fails after successful ones, one line is
  logged, provided the log is on, and the process exits with status 1.
\<close>

theorem init_spec:
  fixes S :: "'s sem_ops" and f :: "nat \<Rightarrow> 'c"
  assumes "sem_laws S val"
  shows "((\<forall>j < nat MaxConn. mysql j = Connected (f j)) \<longrightarrow>
      (\<exists>p. init S mysql url User PassWord DBName Port MaxConn close_log (connection_pool_new s0) = ([], Inr p)
         \<and> connList p = map f [0..<nat MaxConn] \<and> m_FreeConn p = int (nat MaxConn) \<and> m_MaxConn p = int (nat MaxConn)
         \<and> m_CurConn p = 0 \<and> val (reserve p) = nat MaxConn \<and> m_url p = url \<and> m_User p = User
         \<and> m_PassWord p = PassWord \<and> m_DatabaseName p = DBName \<and> m_close_log p = close_log))
    \<and> (j < nat MaxConn \<and> (\<forall>k < j. mysql k = Connected (f k)) \<and> (mysql j = Init_Failed \<or> mysql j = Connect_Failed) \<longrightarrow>
      init S mysql url User PassWord DBName Port MaxConn close_log (connection_pool_new s0) =
        ((if close_log = 0 then [''MySQL Error''] else []), Inl (ExitCall 1)))"
proof (intro conjI impI, goal_cases)
  case 1
  then show ?case using sem_lawsD(1) [OF assms] by (simp add: init_connected [where f = f])
next
  case 2
  then have "\<And>q :: ('c, 's) connection_pool. init_loop mysql 0 (nat MaxConn) q = ((if m_close_log q = 0 then [''MySQL Error''] else []), Inl (ExitCall 1))"
    by (intro init_loop_failed [where j = j]) auto
  then show ?case by (simp add: init_def)
qed

theorem init_spec_witness:
  "init counting_sem (\<lambda>j. if j = 0 then Connected j else Connect_Failed) ''u'' ''r'' ''p'' ''d'' 3306 2 0 (connection_pool_new 0) =
     ([''MySQL Error''], Inl (ExitCall 1))"
  using init_spec [OF counting_sem_laws, of 2 "\<lambda>j. if j = 0 then Connected j else Connect_Failed" "\<lambda>j. j"
      "''u''" "''r''" "''p''" "''d''" 3306 0 0 1] by simp

text \<open>
  The recorded port is not the port. \<open>m_Port\<close> holds a single character, and two ports that
  agree in their low byte leave the same pool: 3306 cannot be told from 234.
\<close>

theorem init_port_truncated:
  assumes "\<forall>j < nat MaxConn. mysql j = Connected (f j)" and "Port mod 256 = Port' mod 256"
  shows "\<exists>p. init S mysql url User PassWord DBName Port MaxConn close_log (connection_pool_new s0) = ([], Inr p)
    \<and> init S mysql url User PassWord DBName Port' MaxConn close_log (connection_pool_new s0) = ([], Inr p)
    \<and> length (m_Port p) = 1"
proof -
  have "char_of Port = (char_of Port' :: char)" using assms(2) by (metis char_of_mod_256)
  then show ?thesis by (simp add: init_connected [OF assms(1)])
qed

theorem init_port_truncated_witness:
  "\<exists>p. init counting_sem (Connected :: nat \<Rightarrow> nat mysql_attempt) [] [] [] [] 3306 1 0 (connection_pool_new 0) = ([], Inr p)
    \<and> init counting_sem Connected [] [] [] [] 234 1 0 (connection_pool_new 0) = ([], Inr p)
    \<and> length (m_Port p) = 1"
  by (rule init_port_truncated [where f = "\<lambda>j. j"]) simp_all

text \<open>
  C22. A request that borrows a connection through \<open>connectionRAII\<close> gives it back. From a
  pool at rest the scope always ends, without undefined behaviour and without blocking; the body gets
  the first free connection, or a null pointer when there is none; afterwards the same connections
  are free, the semaphore and \<open>m_FreeConn\<close> count them, and \<open>m_CurConn\<close> is as before.
\<close>

theorem connectionRAII_scope:
  assumes "sem_laws S val" "val (reserve p) = length (connList p)" "m_FreeConn p = int (length (connList p))"
  shows "\<exists>p'. with_resource (connectionRAII S) (connectionRAII_end S) body p =
       Some (Inr (body (case connList p of [] \<Rightarrow> None | c # _ \<Rightarrow> Some c), p'))
     \<and> mset (connList p') = mset (connList p) \<and> val (reserve p') = length (connList p')
     \<and> m_FreeConn p' = int (length (connList p')) \<and> m_CurConn p' = m_CurConn p"
proof -
  have "pool_ready S val p" using assms by (simp add: pool_ready_def)
  from conn.with_resource_restores [OF this, of body] show ?thesis by (auto simp: pool_ready_def)
qed

theorem connectionRAII_scope_witness:
  "\<exists>p'. with_resource (connectionRAII counting_sem) (connectionRAII_end counting_sem) (\<lambda>c. c = Some True)
      (put_conn True (connection_pool_new 1)) = Some (Inr (True, p'))
    \<and> mset (connList p') = {#True#} \<and> m_CurConn p' = -1"
proof -
  let ?p = "put_conn True (connection_pool_new (1::nat))"
  have "\<exists>p'. with_resource (connectionRAII counting_sem) (connectionRAII_end counting_sem) (\<lambda>c. c = Some True) ?p =
       Some (Inr ((case connList ?p of [] \<Rightarrow> None | c # _ \<Rightarrow> Some c) = Some True, p'))
     \<and> mset (connList p') = mset (connList ?p) \<and> reserve p' = length (connList p')
     \<and> m_FreeConn p' = int (length (connList p')) \<and> m_CurConn p' = m_CurConn ?p"
    by (rule connectionRAII_scope [OF counting_sem_laws]) (simp_all add: put_conn_def connection_pool_new_def)
  then show ?thesis by (auto simp: put_conn_def connection_pool_new_def)
qed

text \<open>
  C31. Destroying the pool under a borrowed connection breaks it. If some connections are lent and
  some are free, \<open>DestroyPool\<close> closes exactly the free ones and zeroes the counters without resetting the
  semaphore: a connection given back afterwards is listed, still open, with a negative count of used
  connections, and the semaphore admits more takers than the list can serve.
\<close>

theorem DestroyPool_under_use:
  assumes "sem_laws S val" "val (reserve p) = length (connList p)" "connList p \<noteq> []"
    and "DestroyPool p = (closed, p1)" "ReleaseConnection S (Some c) p1 = (ok, p2)"
  shows "closed = connList p \<and> ok \<and> connList p2 = [c] \<and> m_CurConn p2 = -1 \<and> GetFreeConn p2 = 1
    \<and> length (connList p2) < val (reserve p2)
    \<and> (\<exists>r. sem_wait S (reserve p1) = Some r \<and> take_conn (p1\<lparr>reserve := r\<rparr>) = Inl UndefinedBehaviour)"
proof -
  have closed: "closed = connList p" and p1: "p1 = p\<lparr>m_CurConn := 0, m_FreeConn := 0, connList := []\<rparr>"
    using assms(3,4) by (auto simp: DestroyPool_def)
  have p2: "ok" "p2 = (put_conn c p1)\<lparr>reserve := sem_post S (reserve p1)\<rparr>"
    using assms(5) by (auto simp: ReleaseConnection_def Let_def put_conn_def)
  have "val (reserve p1) \<noteq> 0" using assms(2,3) p1 by simp
  then obtain r where "sem_wait S (reserve p1) = Some r"
    using sem_lawsD(2) [OF assms(1)] by (metis option.exhaust)
  then show ?thesis
    using closed p1 p2 assms(2,3) sem_lawsD(4) [OF assms(1)]
    by (simp add: put_conn_def GetFreeConn_def take_conn_def)
qed

theorem DestroyPool_under_use_witness:
  "(let p = put_conn True (connection_pool_new (1::nat)) in
    case DestroyPool p of (closed, p1) \<Rightarrow>
    case ReleaseConnection counting_sem (Some False) p1 of (ok, p2) \<Rightarrow>
      closed = [True] \<and> connList p2 = [False] \<and> m_CurConn p2 = -1)"
proof -
  let ?p = "put_conn True (connection_pool_new (1::nat))"
  obtain closed p1 where d: "DestroyPool ?p = (closed, p1)" by (cases "DestroyPool ?p")
  obtain ok p2 where r: "ReleaseConnection counting_sem (Some False) p1 = (ok, p2)"
    by (cases "ReleaseConnection counting_sem (Some False) p1")
  have ready: "reserve ?p = length (connList ?p)" "connList ?p = [True]"
    by (simp_all add: put_conn_def connection_pool_new_def)
  have "connList ?p \<noteq> []" unfolding ready(2) by simp
  from DestroyPool_under_use [OF counting_sem_laws ready(1) this d r]
  show ?thesis unfolding Let_def d r prod.case ready(2) by simp
qed

end
