(* ===== verification/Thread_Pool.thy ===== *)
theory Thread_Pool
  imports Fifo Sql_Pool
begin

text \<open>
  The worker thread pool (\<open>threadpool.h\<close>). Requests are pointers to connection objects: an address,
  or \<open>None\<close> for a null pointer, and a heap gives the object at an address. The class of the
  connection objects is not in the repository; of it the pool uses the fields \<open>m_state\<close>, \<open>improv\<close>,
  \<open>timer_flag\<close> and \<open>mysql\<close>, and the methods \<open>read_once\<close>, \<open>write\<close> and \<open>process\<close>, which are an argument.

  First the operations one thread performs, with the critical sections under \<open>m_queuelocker\<close> as
  operations of their own; then the interleaving of any number of appending threads and workers.
\<close>

record ('c, 'x) request =
  m_state :: int
  improv :: int
  timer_flag :: int
  mysql :: "'c option"
  conn_data :: 'x

record ('c, 'x) conn_methods =
  read_once :: "('c, 'x) request \<Rightarrow> bool \<times> ('c, 'x) request"
  conn_write :: "('c, 'x) request \<Rightarrow> bool \<times> ('c, 'x) request"
  process :: "('c, 'x) request \<Rightarrow> ('c, 'x) request"

type_synonym ('c, 'x) conn_heap = "nat \<Rightarrow> ('c, 'x) request"

record 's threadpool =
  m_thread_number :: int
  m_max_requests :: int
  m_workqueue :: "nat option list"
  m_queuestat :: 's
  m_actor_model :: int

section \<open>Construction\<close>

text \<open>
  The loop that starts the workers, with the index of the next thread and the number of passes left.
  The result is the number of threads that run, and whether the loop got through.
\<close>

fun start_workers :: "(nat \<Rightarrow> bool) \<Rightarrow> (nat \<Rightarrow> bool) \<Rightarrow> nat \<Rightarrow> nat \<Rightarrow> nat \<times> bool" where
  "start_workers create detach i 0 = (i, True)"
| "start_workers create detach i (Suc n) =
     (if \<not> create i then (i, False)
      else if \<not> detach i then (Suc i, False)
      else start_workers create detach (Suc i) n)"

text \<open>
  The constructor: the number of worker threads it leaves running, and the pool or the exception.
  \<open>s0\<close> is what the default constructor of \<open>sem\<close> makes.
\<close>

definition threadpool_new ::
  "'s \<Rightarrow> (nat \<Rightarrow> bool) \<Rightarrow> (nat \<Rightarrow> bool) \<Rightarrow> int \<Rightarrow> int \<Rightarrow> int \<Rightarrow> nat \<times> (cpp_error + 's threadpool)" where
  "threadpool_new s0 create detach actor_model thread_number max_requests =
     (if thread_number \<le> 0 \<or> max_requests \<le> 0 then (0, Inl StdException)
      else case start_workers create detach 0 (nat thread_number) of
             (k, False) \<Rightarrow> (k, Inl StdException)
           | (k, True) \<Rightarrow>
               (k, Inr \<lparr>m_thread_number = thread_number, m_max_requests = max_requests, m_workqueue = [],
                  m_queuestat = s0, m_actor_model = actor_model\<rparr>))"

section \<open>Appending requests\<close>

text \<open>The comparison with \<open>size()\<close> converts the signed bound to \<open>size_t\<close>.\<close>

definition queue_full :: "'s threadpool \<Rightarrow> bool" where
  "queue_full tp \<longleftrightarrow> to_size_t (m_max_requests tp) \<le> int (length (m_workqueue tp))"

text \<open>The critical section of both methods: refuse, or append at the end.\<close>

definition push_request :: "nat option \<Rightarrow> 's threadpool \<Rightarrow> 's threadpool option" where
  "push_request r tp = (if queue_full tp then None else Some (tp\<lparr>m_workqueue := m_workqueue tp @ [r]\<rparr>))"

definition append_p :: "'s sem_ops \<Rightarrow> nat option \<Rightarrow> 's threadpool \<Rightarrow> bool \<times> 's threadpool" where
  "append_p S r tp =
     (case push_request r tp of
        None \<Rightarrow> (False, tp)
      | Some tp \<Rightarrow> (True, tp\<lparr>m_queuestat := sem_post S (m_queuestat tp)\<rparr>))"

text \<open>\<open>append\<close> also sets the state of the request, which dereferences the pointer.\<close>

definition append_request ::
  "'s sem_ops \<Rightarrow> nat option \<Rightarrow> int \<Rightarrow> ('c, 'x) conn_heap \<Rightarrow> 's threadpool
   \<Rightarrow> cpp_error + bool \<times> ('c, 'x) conn_heap \<times> 's threadpool" where
  "append_request S r state h tp =
     (if queue_full tp then Inr (False, h, tp)
      else case r of
             None \<Rightarrow> Inl UndefinedBehaviour
           | Some a \<Rightarrow>
               (case append_p S r tp of
                  (ok, tp) \<Rightarrow> Inr (ok, h(a := (h a)\<lparr>m_state := state\<rparr>), tp)))"

section \<open>The worker\<close>

text \<open>The critical section of \<open>run\<close>; \<open>None\<close> when the queue is empty.\<close>

definition take_request :: "'s threadpool \<Rightarrow> (nat option \<times> 's threadpool) option" where
  "take_request tp =
     (case m_workqueue tp of
        [] \<Rightarrow> None
      | r # rs \<Rightarrow> Some (r, tp\<lparr>m_workqueue := rs\<rparr>))"

text \<open>
  What a worker does with a request: the reactor reads or writes itself, the proactor only
  processes. A connection to the database is borrowed for the time of \<open>process\<close>.
\<close>

definition process_borrowing ::
  "('c, 'x) conn_methods \<Rightarrow> 's sem_ops \<Rightarrow> ('c, 'x) request \<Rightarrow> ('c, 's) connection_pool
   \<Rightarrow> (cpp_error + ('c, 'x) request \<times> ('c, 's) connection_pool) option" where
  "process_borrowing M S r cp =
     with_resource (connectionRAII S) (connectionRAII_end S) (\<lambda>con. process M (r\<lparr>mysql := con\<rparr>)) cp"

definition handle_request ::
  "('c, 'x) conn_methods \<Rightarrow> 's sem_ops \<Rightarrow> int \<Rightarrow> ('c, 'x) request \<Rightarrow> ('c, 's) connection_pool
   \<Rightarrow> (cpp_error + ('c, 'x) request \<times> ('c, 's) connection_pool) option" where
  "handle_request M S actor_model r cp =
     (if 1 = actor_model then
        if 0 = m_state r then
          (case read_once M r of
             (True, r) \<Rightarrow> process_borrowing M S (r\<lparr>improv := 1\<rparr>) cp
           | (False, r) \<Rightarrow> Some (Inr (r\<lparr>improv := 1, timer_flag := 1\<rparr>, cp)))
        else
          (case conn_write M r of
             (True, r) \<Rightarrow> Some (Inr (r\<lparr>improv := 1\<rparr>, cp))
           | (False, r) \<Rightarrow> Some (Inr (r\<lparr>improv := 1, timer_flag := 1\<rparr>, cp)))
      else process_borrowing M S r cp)"

text \<open>One pass of the loop of \<open>run\<close> by a worker alone; \<open>None\<close> is a worker that blocks.\<close>

type_synonym ('c, 'x, 's) server_state =
  "'s threadpool \<times> ('c, 'x) conn_heap \<times> ('c, 's) connection_pool"

definition run_pass ::
  "('c, 'x) conn_methods \<Rightarrow> 's sem_ops \<Rightarrow> ('c, 'x, 's) server_state
   \<Rightarrow> (cpp_error + ('c, 'x, 's) server_state) option" where
  "run_pass M S st =
     (case st of (tp, h, cp) \<Rightarrow>
        case sem_wait S (m_queuestat tp) of
          None \<Rightarrow> None
        | Some v \<Rightarrow>
            (case take_request (tp\<lparr>m_queuestat := v\<rparr>) of
               None \<Rightarrow> Some (Inr (tp\<lparr>m_queuestat := v\<rparr>, h, cp))
             | Some (None, tp) \<Rightarrow> Some (Inr (tp, h, cp))
             | Some (Some a, tp) \<Rightarrow>
                 (case handle_request M S (m_actor_model tp) (h a) cp of
                    None \<Rightarrow> None
                  | Some (Inl e) \<Rightarrow> Some (Inl e)
                  | Some (Inr (r, cp)) \<Rightarrow> Some (Inr (tp, h(a := r), cp)))))"

text \<open>The loop of \<open>run\<close> never ends of itself; a number of passes bounds it.\<close>

fun run ::
  "('c, 'x) conn_methods \<Rightarrow> 's sem_ops \<Rightarrow> nat \<Rightarrow> ('c, 'x, 's) server_state
   \<Rightarrow> (cpp_error + ('c, 'x, 's) server_state) option" where
  "run M S 0 st = Some (Inr st)"
| "run M S (Suc n) st =
     (case run_pass M S st of
        Some (Inr st) \<Rightarrow> run M S n st
      | other \<Rightarrow> other)"

section \<open>The request queue is a bounded queue\<close>

definition tp_ok :: "'s threadpool \<Rightarrow> bool" where
  "tp_ok tp \<longleftrightarrow> 0 < m_max_requests tp \<and> m_max_requests tp < 2 ^ 31"

lemma queue_full_iff: "tp_ok tp \<Longrightarrow> queue_full tp \<longleftrightarrow> m_max_requests tp \<le> int (length (m_workqueue tp))"
  by (simp add: queue_full_def tp_ok_def to_size_t_def)

interpretation wq: bounded_fifo push_request take_request m_workqueue tp_ok "\<lambda>tp. \<not> queue_full tp"
    "\<lambda>tp. nat (m_max_requests tp)"
  by unfold_locales
    (auto simp: push_request_def take_request_def tp_ok_def queue_full_iff split: list.splits if_splits)

section \<open>Appending threads and workers interleaved\<close>

text \<open>
  An appending thread is away, or has pushed and still has to post. A worker waits, has got past the
  semaphore, or handles a request. Two history variables record the requests that were accepted
  and the ones that workers have taken, each in order.
\<close>

datatype client_pc = Away | To_Post
datatype worker_pc = Waiting | Woken | Busy nat

record 's tp_system =
  tpool :: "'s threadpool"
  clients :: "client_pc list"
  workers :: "worker_pc list"
  accepted :: "nat option list"
  started :: "nat option list"

datatype tp_action =
    Push nat "nat option"  \<comment> \<open>the critical section of \<open>append\<close> or \<open>append_p\<close> by an appending thread\<close>
  | Post nat
  | Wake nat               \<comment> \<open>\<open>m_queuestat.wait()\<close> returns\<close>
  | Take nat               \<comment> \<open>the critical section of \<open>run\<close>\<close>
  | Finish nat             \<comment> \<open>the request has been handled\<close>

fun tp_next :: "'s sem_ops \<Rightarrow> tp_action \<Rightarrow> 's tp_system \<Rightarrow> 's tp_system option" where
  "tp_next S (Push i r) s =
     (if i < length (clients s) \<and> clients s ! i = Away then
        (case push_request r (tpool s) of
           None \<Rightarrow> Some s
         | Some tp \<Rightarrow> Some (s\<lparr>tpool := tp, clients := (clients s)[i := To_Post], accepted := accepted s @ [r]\<rparr>))
      else None)"
| "tp_next S (Post i) s =
     (if i < length (clients s) \<and> clients s ! i = To_Post then
        Some (s\<lparr>tpool := (tpool s)\<lparr>m_queuestat := sem_post S (m_queuestat (tpool s))\<rparr>, clients := (clients s)[i := Away]\<rparr>)
      else None)"
| "tp_next S (Wake j) s =
     (if j < length (workers s) \<and> workers s ! j = Waiting then
        map_option (\<lambda>v. s\<lparr>tpool := (tpool s)\<lparr>m_queuestat := v\<rparr>, workers := (workers s)[j := Woken]\<rparr>)
          (sem_wait S (m_queuestat (tpool s)))
      else None)"
| "tp_next S (Take j) s =
     (if j < length (workers s) \<and> workers s ! j = Woken then
        (case take_request (tpool s) of
           None \<Rightarrow> Some (s\<lparr>workers := (workers s)[j := Waiting]\<rparr>)
         | Some (None, tp) \<Rightarrow> Some (s\<lparr>tpool := tp, workers := (workers s)[j := Waiting], started := started s @ [None]\<rparr>)
         | Some (Some a, tp) \<Rightarrow> Some (s\<lparr>tpool := tp, workers := (workers s)[j := Busy a], started := started s @ [Some a]\<rparr>))
      else None)"
| "tp_next S (Finish j) s =
     (if j < length (workers s) \<and> (\<exists>a. workers s ! j = Busy a)
      then Some (s\<lparr>workers := (workers s)[j := Waiting]\<rparr>) else None)"

abbreviation tp_reachable :: "'s sem_ops \<Rightarrow> 's tp_system \<Rightarrow> 's tp_system \<Rightarrow> bool" where
  "tp_reachable S \<equiv> reach (tp_next S)"

definition tp_start :: "'s threadpool \<Rightarrow> nat \<Rightarrow> nat \<Rightarrow> 's tp_system" where
  "tp_start tp n k =
     \<lparr>tpool = tp, clients = replicate n Away, workers = replicate k Waiting, accepted = [], started = []\<rparr>"

definition tp_inv :: "('s \<Rightarrow> nat) \<Rightarrow> 's tp_system \<Rightarrow> bool" where
  "tp_inv val s \<longleftrightarrow>
     tp_ok (tpool s)
     \<and> int (length (m_workqueue (tpool s))) \<le> m_max_requests (tpool s)
     \<and> accepted s = started s @ m_workqueue (tpool s)
     \<and> int (val (m_queuestat (tpool s))) + cnt (\<lambda>w. w = Woken) (workers s) + cnt (\<lambda>c. c = To_Post) (clients s)
         = int (length (m_workqueue (tpool s)))"

lemma woken_queue:
  assumes "tp_inv val s" "j < length (workers s)" "workers s ! j = Woken"
  shows "m_workqueue (tpool s) \<noteq> []"
proof -
  have "1 \<le> cnt (\<lambda>w. w = Woken) (workers s)" using assms(2,3) by (rule cnt_pos)
  moreover have "0 \<le> cnt (\<lambda>c. c = To_Post) (clients s)" by simp
  moreover have "int (val (m_queuestat (tpool s))) + cnt (\<lambda>w. w = Woken) (workers s)
      + cnt (\<lambda>c. c = To_Post) (clients s) = int (length (m_workqueue (tpool s)))"
    using assms(1) by (simp add: tp_inv_def)
  ultimately have "0 < length (m_workqueue (tpool s))" by linarith
  then show ?thesis by simp
qed

lemma tp_next_inv:
  assumes "sem_laws S val" "tp_next S a s = Some t" "tp_inv val s"
  shows "tp_inv val t"
proof (cases a)
  case (Push i r)
  then show ?thesis
    using assms(2,3) queue_full_iff [of "tpool s"]
    by (auto simp: tp_inv_def push_request_def tp_ok_def cnt_update split: if_splits)
next
  case (Post i)
  then show ?thesis
    using assms(2,3) sem_lawsD(4) [OF assms(1)]
    by (auto simp: tp_inv_def tp_ok_def cnt_update split: if_splits)
next
  case (Wake j)
  then show ?thesis
    using assms(2,3) by (auto simp: tp_inv_def tp_ok_def cnt_update dest: sem_lawsD(3) [OF assms(1)] split: if_splits)
next
  case (Take j)
  then have j: "j < length (workers s)" "workers s ! j = Woken" using assms(2) by (auto split: if_splits)
  obtain r rs where q: "m_workqueue (tpool s) = r # rs"
    using woken_queue [OF assms(3) j] by (cases "m_workqueue (tpool s)") auto
  then show ?thesis
    using Take assms(2,3) j by (cases r) (auto simp: tp_inv_def tp_ok_def take_request_def cnt_update)
next
  case (Finish j)
  then show ?thesis
    using assms(2,3) by (auto simp: tp_inv_def tp_ok_def cnt_update split: if_splits)
qed

interpretation tps: interleaving "tp_next S" "\<lambda>s. sem_laws S val \<longrightarrow> tp_inv val s"
  by unfold_locales (blast intro: tp_next_inv)

lemma tp_start_inv:
  assumes "val s0 = 0" "threadpool_new s0 create detach am tn mr = (k, Inr tp)" "mr < 2 ^ 31"
  shows "tp_inv val (tp_start tp n k)"
  using assms by (auto simp: threadpool_new_def tp_inv_def tp_start_def tp_ok_def split: if_splits prod.splits bool.splits)

section \<open>Properties\<close>

text \<open>
  C4. The worker pool under every interleaving. From a freshly constructed pool, whatever any number
  of appending threads and the workers do: the queue never exceeds \<open>max_requests\<close>; the requests the
  workers have taken, followed by those in the queue, are exactly the accepted ones in the order of
  their acceptance, so none is lost, duplicated or overtaken; a worker that got past the semaphore
  never finds the queue empty; and no wake-up is lost: if a request is queued, then a
  waiting worker can go on, a worker is already on its way to it, or its appender is about to post.
\<close>

theorem threadpool_safe:
  assumes "sem_laws S val" "val s0 = 0" "max_requests < 2 ^ 31"
    and "threadpool_new s0 create detach actor_model thread_number max_requests = (k, Inr tp)"
    and "tp_reachable S (tp_start tp n k) s"
  shows "int (length (m_workqueue (tpool s))) \<le> m_max_requests (tpool s)
    \<and> accepted s = started s @ m_workqueue (tpool s)
    \<and> (\<forall>j < length (workers s). workers s ! j = Woken \<longrightarrow> m_workqueue (tpool s) \<noteq> [])
    \<and> (m_workqueue (tpool s) \<noteq> [] \<longrightarrow>
        sem_wait S (m_queuestat (tpool s)) \<noteq> None \<or> Woken \<in> set (workers s) \<or> To_Post \<in> set (clients s))"
proof -
  have inv: "tp_inv val s"
    using tps.reach_inv [OF assms(5), of val] tp_start_inv [of val s0, OF assms(2,4,3)] assms(1) by blast
  have "sem_wait S (m_queuestat (tpool s)) \<noteq> None \<or> Woken \<in> set (workers s) \<or> To_Post \<in> set (clients s)"
    if "m_workqueue (tpool s) \<noteq> []"
  proof (rule ccontr)
    assume "\<not> ?thesis"
    then have "cnt (\<lambda>w. w = Woken) (workers s) = 0" "cnt (\<lambda>c. c = To_Post) (clients s) = 0"
      "val (m_queuestat (tpool s)) = 0"
      using sem_lawsD(2) [OF assms(1)] by (auto simp: cnt_zero_iff)
    then show False using inv that by (simp add: tp_inv_def)
  qed
  then show ?thesis using inv woken_queue [OF inv] by (simp add: tp_inv_def)
qed

theorem threadpool_safe_witness:
  "\<exists>s :: nat tp_system. workers s = [Woken] \<and> clients s = [Away, To_Post]
     \<and> accepted s = started s @ m_workqueue (tpool s) \<and> m_workqueue (tpool s) \<noteq> []"
proof -
  define tp where "tp = \<lparr>m_thread_number = 1, m_max_requests = 2, m_workqueue = [], m_queuestat = 0::nat, m_actor_model = 1\<rparr>"
  define s where "s = \<lparr>tpool = tp\<lparr>m_workqueue := [Some 7, Some 8]\<rparr>, clients = [Away, To_Post], workers = [Woken],
    accepted = [Some 7, Some 8], started = []\<rparr>"
  have new: "threadpool_new 0 (\<lambda>_. True) (\<lambda>_. True) 1 1 2 = (1, Inr tp)"
    by (simp add: threadpool_new_def numeral_eq_Suc tp_def)
  have "tp_reachable counting_sem (tp_start tp 2 1) s"
    by (rule schedule_reach [where as = "[Push 0 (Some 7), Post 0, Wake 0, Push 1 (Some 8), Push 0 (Some 9)]"])
      (simp add: tp_start_def s_def tp_def push_request_def queue_full_def to_size_t_def counting_sem_def numeral_eq_Suc)
  from threadpool_safe [OF counting_sem_laws _ _ new this]
  have "accepted s = started s @ m_workqueue (tpool s)" "m_workqueue (tpool s) \<noteq> []"
    by (auto simp: s_def)
  then show ?thesis by (intro exI [of _ s]) (simp add: s_def)
qed

text \<open>
  The request queue as a bounded list. Any sequence of accepted or refused pushes and
  takes on a pool whose bound is a positive \<open>int\<close> hands out, in order, exactly what it held and accepted,
  keeps the rest, and never holds more than \<open>max_requests\<close>.
\<close>

theorem workqueue_fifo:
  assumes "0 < m_max_requests tp" "m_max_requests tp < 2 ^ 31"
    and "int (length (m_workqueue tp)) \<le> m_max_requests tp"
    and "fifo_run push_request take_request calls tp = (acc, out, tp')"
  shows "m_workqueue tp @ acc = out @ m_workqueue tp' \<and> int (length (m_workqueue tp')) \<le> m_max_requests tp
    \<and> m_max_requests tp' = m_max_requests tp"
proof -
  have ok: "tp_ok tp" using assms(1,2) by (simp add: tp_ok_def)
  have "tp_ok tp'" "m_workqueue tp @ acc = out @ m_workqueue tp'"
    using wq.fifo_run_conserves [OF ok assms(4)] by auto
  moreover have "length (m_workqueue tp') \<le> nat (m_max_requests tp')" "nat (m_max_requests tp') = nat (m_max_requests tp)"
    using wq.fifo_run_bounded [OF ok _ assms(4)] assms(1,3) by (auto simp: le_nat_iff)
  ultimately show ?thesis using assms(1) by (auto simp: tp_ok_def le_nat_iff)
qed

theorem workqueue_fifo_witness:
  "fifo_run push_request take_request [Enq (Some 1), Enq (Some 2), Enq (Some 3), Deq]
     \<lparr>m_thread_number = 1, m_max_requests = 2, m_workqueue = [], m_queuestat = 0::nat, m_actor_model = 0\<rparr>
   = ([Some 1, Some 2], [Some 1],
      \<lparr>m_thread_number = 1, m_max_requests = 2, m_workqueue = [Some 2], m_queuestat = 0, m_actor_model = 0\<rparr>)
   \<and> [Some 1, Some 2] = [Some 1] @ [Some (2::nat)]"
proof -
  let ?tp = "\<lparr>m_thread_number = 1, m_max_requests = 2, m_workqueue = [], m_queuestat = 0::nat, m_actor_model = 0\<rparr>"
  have run: "fifo_run push_request take_request [Enq (Some 1), Enq (Some 2), Enq (Some 3), Deq] ?tp
      = ([Some 1, Some 2], [Some 1], ?tp\<lparr>m_workqueue := [Some 2]\<rparr>)"
    by (simp add: push_request_def take_request_def queue_full_def to_size_t_def)
  with workqueue_fifo [OF _ _ _ run] show ?thesis by simp
qed

text \<open>
  C34. The constructor on every branch. It throws, without starting a thread, when a size is not
  positive; with positive sizes and no failing call it starts exactly \<open>thread_number\<close> workers and makes an
  empty pool. When the call for thread \<open>j\<close> fails it throws although \<open>j\<close> workers (one more when it is the
  detaching that fails) are already running on the object that is being destroyed.
\<close>

theorem threadpool_new_spec:
  "(thread_number \<le> 0 \<or> max_requests \<le> 0 \<longrightarrow>
      threadpool_new s0 create detach actor_model thread_number max_requests = (0, Inl StdException))
   \<and> (0 < thread_number \<and> 0 < max_requests \<and> (\<forall>i < nat thread_number. create i \<and> detach i) \<longrightarrow>
      (\<exists>tp. threadpool_new s0 create detach actor_model thread_number max_requests = (nat thread_number, Inr tp)
        \<and> m_workqueue tp = [] \<and> m_max_requests tp = max_requests \<and> m_thread_number tp = thread_number
        \<and> m_actor_model tp = actor_model \<and> m_queuestat tp = s0))
   \<and> (0 < max_requests \<and> j < nat thread_number \<and> (\<forall>i < j. create i \<and> detach i) \<and> \<not> (create j \<and> detach j) \<longrightarrow>
      threadpool_new s0 create detach actor_model thread_number max_requests =
        (if create j then Suc j else j, Inl StdException))"
proof -
  have all: "start_workers create detach i n = (i + n, True)"
    if "\<forall>k. i \<le> k \<and> k < i + n \<longrightarrow> create k \<and> detach k" for i n
    using that by (induction n arbitrary: i) auto
  have some: "start_workers create detach i n = (if create j then Suc j else j, False)"
    if "i \<le> j" "j < i + n" "\<forall>k. i \<le> k \<and> k < j \<longrightarrow> create k \<and> detach k" "\<not> (create j \<and> detach j)" for i n
    using that
  proof (induction n arbitrary: i)
    case (Suc n)
    then show ?case by (cases "i = j") auto
  qed simp
  show ?thesis
    using all [of 0 "nat thread_number"] some [of 0 "nat thread_number"]
    by (auto simp: threadpool_new_def)
qed

theorem threadpool_new_spec_witness:
  "threadpool_new (0::nat) (\<lambda>i. i \<noteq> 2) (\<lambda>_. True) 1 8 10000 = (2, Inl StdException)"
  using threadpool_new_spec [of 8 10000 "0::nat" "\<lambda>i. i \<noteq> 2" "\<lambda>_. True" 1 2] by simp

text \<open>
  \<open>append\<close> on every branch. A full queue refuses and changes nothing, not even the state of the
  request. Otherwise a request that is not null gets its state set, goes to the end of the queue and
  raises the semaphore by one; a null pointer is dereferenced.
\<close>

theorem append_request_spec:
  assumes "sem_laws S val" "0 < m_max_requests tp" "m_max_requests tp < 2 ^ 31"
  shows "if m_max_requests tp \<le> int (length (m_workqueue tp))
    then append_request S r state h tp = Inr (False, h, tp) \<and> append_p S r tp = (False, tp)
    else \<exists>tp'. append_p S r tp = (True, tp') \<and> m_workqueue tp' = m_workqueue tp @ [r]
        \<and> val (m_queuestat tp') = Suc (val (m_queuestat tp)) \<and> m_max_requests tp' = m_max_requests tp
        \<and> append_request S r state h tp =
            (case r of
               None \<Rightarrow> Inl UndefinedBehaviour
             | Some a \<Rightarrow> Inr (True, h(a := (h a)\<lparr>m_state := state\<rparr>), tp'))"
proof -
  have ok: "tp_ok tp" using assms(2,3) by (simp add: tp_ok_def)
  show ?thesis
    using queue_full_iff [OF ok] sem_lawsD(4) [OF assms(1)]
    by (auto simp: append_request_def append_p_def push_request_def split: option.splits)
qed

theorem append_request_spec_witness:
  "append_request counting_sem (Some 3) 1 (\<lambda>_. \<lparr>m_state = 0, improv = 0, timer_flag = 0, mysql = None :: unit option, conn_data = ()\<rparr>)
     \<lparr>m_thread_number = 1, m_max_requests = 1, m_workqueue = [Some 2], m_queuestat = 1, m_actor_model = 0\<rparr>
   = Inr (False, (\<lambda>_. \<lparr>m_state = 0, improv = 0, timer_flag = 0, mysql = None, conn_data = ()\<rparr>),
       \<lparr>m_thread_number = 1, m_max_requests = 1, m_workqueue = [Some 2], m_queuestat = 1, m_actor_model = 0\<rparr>)"
  using append_request_spec [OF counting_sem_laws,
      of "\<lparr>m_thread_number = 1, m_max_requests = 1, m_workqueue = [Some 2], m_queuestat = 1, m_actor_model = 0\<rparr>"
      "Some 3" 1 "\<lambda>_. \<lparr>m_state = 0, improv = 0, timer_flag = 0, mysql = None :: unit option, conn_data = ()\<rparr>"]
  by simp

text \<open>What one request does to a pool of connections at rest.\<close>

definition pool_kept :: "'s sem_ops \<Rightarrow> ('s \<Rightarrow> nat) \<Rightarrow> ('c, 's) connection_pool \<Rightarrow> ('c, 's) connection_pool \<Rightarrow> bool" where
  "pool_kept S val cp cp' \<longleftrightarrow>
     pool_ready S val cp' \<and> mset (connList cp') = mset (connList cp) \<and> m_CurConn cp' = m_CurConn cp"

definition first_free :: "('c, 's) connection_pool \<Rightarrow> 'c option" where
  "first_free cp = (case connList cp of [] \<Rightarrow> None | c # _ \<Rightarrow> Some c)"

lemma pool_kept_iff:
  assumes "pool_ready S val cp"
  shows "pool_kept S val cp cp' \<longleftrightarrow>
    mset (connList cp') = mset (connList cp) \<and> val (reserve cp') = length (connList cp')
    \<and> m_FreeConn cp' = m_FreeConn cp \<and> m_CurConn cp' = m_CurConn cp"
  using assms by (auto simp: pool_kept_def pool_ready_def dest: mset_eq_length)

lemma process_borrowing_ready:
  assumes "pool_ready S val cp"
  shows "\<exists>cp'. process_borrowing M S r cp = Some (Inr (process M (r\<lparr>mysql := first_free cp\<rparr>), cp'))
    \<and> pool_kept S val cp cp'"
  using conn.with_resource_restores [OF assms, of "\<lambda>con. process M (r\<lparr>mysql := con\<rparr>)"]
  by (auto simp: process_borrowing_def pool_kept_def first_free_def)

lemma handle_request_ready:
  assumes "pool_ready S val cp"
  shows "\<exists>r' cp'. handle_request M S am r cp = Some (Inr (r', cp')) \<and> pool_kept S val cp cp'
    \<and> r' = (if am = 1 \<and> m_state r \<noteq> 0 then
              (case conn_write M r of (ok, w) \<Rightarrow> if ok then w\<lparr>improv := 1\<rparr> else w\<lparr>improv := 1, timer_flag := 1\<rparr>)
            else if am = 1 then
              (case read_once M r of (ok, w) \<Rightarrow>
                 if ok then process M (w\<lparr>improv := 1, mysql := first_free cp\<rparr>) else w\<lparr>improv := 1, timer_flag := 1\<rparr>)
            else process M (r\<lparr>mysql := first_free cp\<rparr>))"
proof -
  have kept: "pool_kept S val cp cp" using assms by (simp add: pool_kept_def)
  obtain cp1 where p1: "process_borrowing M S r cp = Some (Inr (process M (r\<lparr>mysql := first_free cp\<rparr>), cp1))"
    "pool_kept S val cp cp1" using process_borrowing_ready [OF assms] by blast
  obtain b w where rd: "read_once M r = (b, w)" by (cases "read_once M r")
  obtain cp2 where p2: "process_borrowing M S (w\<lparr>improv := 1\<rparr>) cp =
      Some (Inr (process M (w\<lparr>improv := 1, mysql := first_free cp\<rparr>), cp2))" "pool_kept S val cp cp2"
    using process_borrowing_ready [OF assms] by blast
  show ?thesis
    using kept p1 p2 rd by (cases b; cases "conn_write M r"; cases "fst (conn_write M r)") (auto simp: handle_request_def)
qed

text \<open>
  C24. What a worker does with a request, on every branch. With the connection pool at rest the
  worker neither blocks nor fails and leaves the pool as it was. In reactor mode a request in state 0 is
  read and, if that succeeded, marked and processed with the first free connection; a request in another
  state is written; a failed transfer marks the request and raises its timer flag. In proactor mode
  the request is only processed, with the first free connection.
\<close>

theorem handle_request_spec:
  assumes "sem_laws S val" "val (reserve cp) = length (connList cp)" "m_FreeConn cp = int (length (connList cp))"
  shows "\<exists>r' cp'. handle_request M S actor_model r cp = Some (Inr (r', cp'))
    \<and> mset (connList cp') = mset (connList cp) \<and> val (reserve cp') = length (connList cp')
    \<and> m_FreeConn cp' = m_FreeConn cp \<and> m_CurConn cp' = m_CurConn cp
    \<and> r' = (if actor_model = 1 \<and> m_state r \<noteq> 0 then
              (case conn_write M r of (ok, w) \<Rightarrow> if ok then w\<lparr>improv := 1\<rparr> else w\<lparr>improv := 1, timer_flag := 1\<rparr>)
            else if actor_model = 1 then
              (case read_once M r of (ok, w) \<Rightarrow>
                 if ok then process M (w\<lparr>improv := 1, mysql := first_free cp\<rparr>) else w\<lparr>improv := 1, timer_flag := 1\<rparr>)
            else process M (r\<lparr>mysql := first_free cp\<rparr>))"
proof -
  have ready: "pool_ready S val cp" using assms by (simp add: pool_ready_def)
  show ?thesis
    using handle_request_ready [OF ready, of M actor_model r] unfolding pool_kept_iff [OF ready] conj_assoc .
qed

definition echo_methods :: "('c, string) conn_methods" where
  "echo_methods = \<lparr>read_once = (\<lambda>r. (conn_data r \<noteq> [], r)), conn_write = (\<lambda>r. (False, r)),
     process = (\<lambda>r. r\<lparr>conn_data := rev (conn_data r)\<rparr>)\<rparr>"

theorem handle_request_spec_witness:
  "\<exists>r' cp'. handle_request echo_methods counting_sem 1
        \<lparr>m_state = 0, improv = 0, timer_flag = 0, mysql = None, conn_data = ''ab''\<rparr> (put_conn True (connection_pool_new 1))
      = Some (Inr (r', cp')) \<and> r' = \<lparr>m_state = 0, improv = 1, timer_flag = 0, mysql = Some True, conn_data = ''ba''\<rparr>"
proof -
  let ?cp = "put_conn True (connection_pool_new (1::nat))"
  have "reserve ?cp = length (connList ?cp)" "m_FreeConn ?cp = int (length (connList ?cp))" "first_free ?cp = Some True"
    by (simp_all add: put_conn_def connection_pool_new_def first_free_def)
  from handle_request_spec [OF counting_sem_laws this(1,2), of echo_methods 1
      "\<lparr>m_state = 0, improv = 0, timer_flag = 0, mysql = None, conn_data = ''ab''\<rparr>"] this(3)
  show ?thesis by (auto simp: echo_methods_def)
qed

lemma run_pass_ready:
  assumes "sem_laws S val" "val (m_queuestat tp) = length (m_workqueue tp)" "m_workqueue tp = r # rs" "pool_ready S val cp"
  shows "\<exists>tp' h' cp'. run_pass M S (tp, h, cp) = Some (Inr (tp', h', cp')) \<and> m_workqueue tp' = rs
    \<and> val (m_queuestat tp') = length rs \<and> pool_kept S val cp cp' \<and> (\<forall>a. Some a \<noteq> r \<longrightarrow> h' a = h a)"
proof -
  have "sem_wait S (m_queuestat tp) \<noteq> None" using assms(2,3) sem_lawsD(2) [OF assms(1)] by simp
  then obtain v where v: "sem_wait S (m_queuestat tp) = Some v" by auto
  have val: "val v = length rs" using sem_lawsD(3) [OF assms(1) v] assms(2,3) by simp
  show ?thesis
  proof (cases r)
    case None
    then show ?thesis using v val assms(3,4) by (auto simp: run_pass_def take_request_def pool_kept_def)
  next
    case (Some a)
    obtain r' cp' where "handle_request M S (m_actor_model tp) (h a) cp = Some (Inr (r', cp'))" "pool_kept S val cp cp'"
      using handle_request_ready [OF assms(4)] by blast
    then show ?thesis using Some v val assms(3) by (auto simp: run_pass_def take_request_def)
  qed
qed

lemma run_drains_ready:
  assumes "sem_laws S val"
  shows "val (m_queuestat tp) = length (m_workqueue tp) \<Longrightarrow> pool_ready S val cp \<Longrightarrow>
    \<exists>tp' h' cp'. run M S (length (m_workqueue tp)) (tp, h, cp) = Some (Inr (tp', h', cp')) \<and> m_workqueue tp' = []
      \<and> val (m_queuestat tp') = 0 \<and> pool_kept S val cp cp' \<and> (\<forall>a. Some a \<notin> set (m_workqueue tp) \<longrightarrow> h' a = h a)"
proof (induction "m_workqueue tp" arbitrary: tp h cp)
  case Nil
  then show ?case by (auto simp: pool_kept_def)
next
  case (Cons r rs)
  obtain tp1 h1 cp1 where 1: "run_pass M S (tp, h, cp) = Some (Inr (tp1, h1, cp1))" "m_workqueue tp1 = rs"
    "val (m_queuestat tp1) = length rs" "pool_kept S val cp cp1" "\<forall>a. Some a \<noteq> r \<longrightarrow> h1 a = h a"
    using run_pass_ready [OF assms Cons.prems(1) Cons.hyps(2) [symmetric] Cons.prems(2)] by blast
  have "pool_ready S val cp1" using 1(4) by (simp add: pool_kept_def)
  with Cons.hyps(1) [of tp1 cp1 h1] 1(2,3) obtain tp2 h2 cp2 where
    2: "run M S (length rs) (tp1, h1, cp1) = Some (Inr (tp2, h2, cp2))" "m_workqueue tp2 = []"
    "val (m_queuestat tp2) = 0" "pool_kept S val cp1 cp2" "\<forall>a. Some a \<notin> set rs \<longrightarrow> h2 a = h1 a" by auto
  have "pool_kept S val cp cp2" using 1(4) 2(4) by (auto simp: pool_kept_def)
  then show ?case using 1 2 Cons.hyps(2) [symmetric] by auto
qed

text \<open>
  C13. A worker empties the queue and then sleeps. With the semaphore counting the queued
  requests and the connection pool at rest, as many passes of \<open>run\<close> as there are requests all complete;
  afterwards the queue is empty, the next pass blocks on the semaphore, every connection is back in
  the pool with its counters as before, and only objects that were queued have been touched.
\<close>

theorem run_drains_queue:
  assumes "sem_laws S val" "val (m_queuestat tp) = length (m_workqueue tp)"
    and "val (reserve cp) = length (connList cp)" "m_FreeConn cp = int (length (connList cp))"
  shows "\<exists>tp' h' cp'. run M S (length (m_workqueue tp)) (tp, h, cp) = Some (Inr (tp', h', cp'))
    \<and> m_workqueue tp' = [] \<and> run_pass M S (tp', h', cp') = None
    \<and> mset (connList cp') = mset (connList cp) \<and> m_FreeConn cp' = m_FreeConn cp \<and> m_CurConn cp' = m_CurConn cp
    \<and> (\<forall>a. Some a \<notin> set (m_workqueue tp) \<longrightarrow> h' a = h a)"
proof -
  have ready: "pool_ready S val cp" using assms by (simp add: pool_ready_def)
  obtain tp' h' cp' where r: "run M S (length (m_workqueue tp)) (tp, h, cp) = Some (Inr (tp', h', cp'))"
    "m_workqueue tp' = []" "val (m_queuestat tp') = 0" "pool_kept S val cp cp'"
    "\<forall>a. Some a \<notin> set (m_workqueue tp) \<longrightarrow> h' a = h a"
    using run_drains_ready [OF assms(1,2) ready] by blast
  have "run_pass M S (tp', h', cp') = None"
    using r(3) sem_lawsD(2) [OF assms(1), of "m_queuestat tp'"] by (simp add: run_pass_def)
  then show ?thesis using r by (auto simp: pool_kept_iff [OF ready])
qed

theorem run_drains_queue_witness:
  "\<exists>tp' h' cp'. run echo_methods counting_sem 2
       (\<lparr>m_thread_number = 1, m_max_requests = 8, m_workqueue = [Some 4, None], m_queuestat = 2, m_actor_model = 0\<rparr>,
        (\<lambda>_. \<lparr>m_state = 0, improv = 0, timer_flag = 0, mysql = None, conn_data = ''ab''\<rparr>),
        put_conn True (connection_pool_new 1)) = Some (Inr (tp', h', cp'))
    \<and> m_workqueue tp' = [] \<and> run_pass echo_methods counting_sem (tp', h', cp') = None"
proof -
  let ?cp = "put_conn True (connection_pool_new (1::nat))"
  let ?tp = "\<lparr>m_thread_number = 1, m_max_requests = 8, m_workqueue = [Some 4, None], m_queuestat = 2::nat, m_actor_model = 0\<rparr>"
  have cp: "reserve ?cp = length (connList ?cp)" "m_FreeConn ?cp = int (length (connList ?cp))"
    by (simp_all add: put_conn_def connection_pool_new_def)
  have tp: "m_queuestat ?tp = length (m_workqueue ?tp)" "length (m_workqueue ?tp) = 2" by simp_all
  from run_drains_queue [OF counting_sem_laws tp(1) cp, of echo_methods
      "\<lambda>_. \<lparr>m_state = 0, improv = 0, timer_flag = 0, mysql = None, conn_data = ''ab''\<rparr>"]
  show ?thesis unfolding tp(2) by blast
qed

end
