(* ===== verification/Async_Log.thy ===== *)
theory Async_Log
  imports Block_Queue C_Format Interleaving "HOL-Library.Multiset"
begin

text \<open>
  The log (\<open>log.h\<close>, \<open>log.cpp\<close>). The character arrays of the class are byte lists of their declared
  length. The file system is seen through \<open>fopen\<close>: an argument says which names can be opened, a
  stream is the name it was opened under, and \<open>out\<close> records every line given to \<open>fputs\<close> with the stream
  it went to, of which the first \<open>flushed\<close> are known to have left the buffers of the process. The variable arguments of \<open>write_log\<close> are
  represented by the text they format to, shorter than \<open>INT_MAX\<close>.

  The sections of \<open>write_log\<close> that hold \<open>m_mutex\<close> are operations of their own, and so are, further down, the steps between which
  the logging thread and the writing thread can be interleaved.
\<close>

record tm =
  tm_year :: int
  tm_mon :: int
  tm_mday :: int
  tm_hour :: int
  tm_min :: int
  tm_sec :: int

record Log =
  dir_name :: string
  log_name :: string
  m_split_lines :: int
  m_log_buf_size :: int
  m_count :: int
  m_today :: int
  m_fp :: "string option"
  m_buf :: string
  m_log_queue :: "string block_queue option"
  m_is_async :: bool
  m_close_log :: int
  out :: "(string \<times> string) list"
  flushed :: nat

text \<open>The single instance is static: what the constructor does not set is zero.\<close>

definition Log_new :: Log where
  "Log_new = \<lparr>dir_name = replicate 128 NUL, log_name = replicate 128 NUL, m_split_lines = 0, m_log_buf_size = 0,
     m_count = 0, m_today = 0, m_fp = None, m_buf = [], m_log_queue = None, m_is_async = False, m_close_log = 0,
     out = [], flushed = 0\<rparr>"

section \<open>Opening the log\<close>

definition date_prefix :: "tm \<Rightarrow> string" where
  "date_prefix t = fmt_d (tm_year t + 1900) @ ''_'' @ fmt_0d 2 (tm_mon t + 1) @ ''_'' @ fmt_0d 2 (tm_mday t) @ ''_''"

text \<open>\<open>fopen(name, "a")\<close>.\<close>

definition open_log :: "(string \<Rightarrow> bool) \<Rightarrow> string \<Rightarrow> Log \<Rightarrow> Log" where
  "open_log can_open name L = L\<lparr>m_fp := (if can_open name then Some name else None)\<rparr>"

text \<open>\<open>fputs(line, m_fp)\<close>, \<open>fflush(m_fp)\<close> and \<open>fclose(m_fp)\<close>. \<open>fflush\<close> accepts a null pointer.\<close>

definition put_line :: "string \<Rightarrow> Log \<Rightarrow> cpp_error + Log" where
  "put_line line L =
     (case m_fp L of
        None \<Rightarrow> Inl UndefinedBehaviour
      | Some f \<Rightarrow> Inr (L\<lparr>out := out L @ [(f, line)]\<rparr>))"

definition flush :: "Log \<Rightarrow> Log" where
  "flush L = L\<lparr>flushed := length (out L)\<rparr>"

definition close_log :: "Log \<Rightarrow> cpp_error + Log" where
  "close_log L = (case m_fp L of None \<Rightarrow> Inl UndefinedBehaviour | Some f \<Rightarrow> Inr ((flush L)\<lparr>m_fp := None\<rparr>))"

text \<open>The name of the log file at start-up, and the two name arrays.\<close>

definition init_names :: "string \<Rightarrow> tm \<Rightarrow> Log \<Rightarrow> cpp_error + string \<times> Log" where
  "init_names file_name t L =
     (case strrchr file_name (CHR ''/'') of
        None \<Rightarrow> Inr (snprintf_str 255 (date_prefix t @ file_name), L)
      | Some p \<Rightarrow>
          (case strcpy (log_name L) (drop (p + 1) file_name) of
             None \<Rightarrow> Inl UndefinedBehaviour
           | Some ln \<Rightarrow>
               (case strncpy (dir_name L) file_name (p + 1) of
                  None \<Rightarrow> Inl UndefinedBehaviour
                | Some dn \<Rightarrow>
                    (case (c_string dn 0, c_string ln 0) of
                       (Some d, Some l) \<Rightarrow>
                         Inr (snprintf_str 255 (d @ date_prefix t @ l), L\<lparr>log_name := ln, dir_name := dn\<rparr>)
                     | _ \<Rightarrow> Inl UndefinedBehaviour))))"

text \<open>The queue and the asynchronous mode, when a queue length is given.\<close>

definition init_queue :: "int \<Rightarrow> Log \<Rightarrow> cpp_error + Log" where
  "init_queue max_queue_size L =
     (if max_queue_size \<ge> 1 then
        (case block_queue_new [] max_queue_size of
           Inl e \<Rightarrow> Inl e
         | Inr q \<Rightarrow> Inr (L\<lparr>m_is_async := True, m_log_queue := Some q\<rparr>))
      else Inr L)"

definition init ::
  "(string \<Rightarrow> bool) \<Rightarrow> string \<Rightarrow> int \<Rightarrow> int \<Rightarrow> int \<Rightarrow> int \<Rightarrow> tm \<Rightarrow> Log \<Rightarrow> cpp_error + bool \<times> Log" where
  "init can_open file_name cl log_buf_size split_lines max_queue_size t L =
     (case init_queue max_queue_size L of
        Inl e \<Rightarrow> Inl e
      | Inr L \<Rightarrow>
          (let L = L\<lparr>m_close_log := cl, m_log_buf_size := log_buf_size\<rparr> in
           if log_buf_size < 0 then Inl StdException
           else
             (let L = L\<lparr>m_buf := replicate (nat log_buf_size) NUL, m_split_lines := split_lines\<rparr> in
              case init_names file_name t L of
                Inl e \<Rightarrow> Inl e
              | Inr (name, L) \<Rightarrow>
                  (let L = open_log can_open name (L\<lparr>m_today := tm_mday t\<rparr>) in Inr (m_fp L \<noteq> None, L)))))"

section \<open>Writing a line\<close>

definition level_tag :: "int \<Rightarrow> string" where
  "level_tag level =
     (if level = 0 then ''[debug]:'' else if level = 1 then ''[info]:'' else if level = 2 then ''[warn]:''
      else if level = 3 then ''[erro]:'' else ''[info]:'')"

text \<open>The first critical section: count the line and start a new file when it is due.\<close>

definition rotate_name :: "tm \<Rightarrow> Log \<Rightarrow> string option" where
  "rotate_name t L =
     (case (c_string (dir_name L) 0, c_string (log_name L) 0) of
        (Some d, Some l) \<Rightarrow>
          (let tail = snprintf_str 16 (date_prefix t) in
           Some (if m_today L \<noteq> tm_mday t then snprintf_str 255 (d @ tail @ l)
                 else snprintf_str 255 (d @ tail @ l @ ''.'' @ fmt_d (m_count L sdiv m_split_lines L))))
      | _ \<Rightarrow> None)"

definition log_rotate :: "(string \<Rightarrow> bool) \<Rightarrow> tm \<Rightarrow> Log \<Rightarrow> cpp_error + Log" where
  "log_rotate can_open t L =
     (let L = L\<lparr>m_count := m_count L + 1\<rparr> in
      if m_today L = tm_mday t \<and> m_split_lines L = 0 then Inl UndefinedBehaviour
      else if m_today L \<noteq> tm_mday t \<or> m_count L smod m_split_lines L = 0 then
        (case close_log (flush L) of
           Inl e \<Rightarrow> Inl e
         | Inr L \<Rightarrow>
             (case rotate_name t L of
                None \<Rightarrow> Inl UndefinedBehaviour
              | Some name \<Rightarrow>
                  Inr (open_log can_open name
                        (if m_today L \<noteq> tm_mday t then L\<lparr>m_today := tm_mday t, m_count := 0\<rparr> else L))))
      else Inr L)"

text \<open>The second critical section: format the line into \<open>m_buf\<close> and copy it out.\<close>

definition line_header :: "int \<Rightarrow> tm \<Rightarrow> int \<Rightarrow> string" where
  "line_header level t usec =
     fmt_d (tm_year t + 1900) @ ''-'' @ fmt_0d 2 (tm_mon t + 1) @ ''-'' @ fmt_0d 2 (tm_mday t) @ '' ''
     @ fmt_0d 2 (tm_hour t) @ '':'' @ fmt_0d 2 (tm_min t) @ '':'' @ fmt_0d 2 (tm_sec t) @ ''.''
     @ fmt_0d 6 usec @ '' '' @ level_tag level @ '' ''"

definition log_format :: "int \<Rightarrow> string \<Rightarrow> tm \<Rightarrow> int \<Rightarrow> Log \<Rightarrow> cpp_error + string \<times> Log" where
  "log_format level msg t usec L =
     (let header = line_header level t usec; n = length header; m = length msg in
      case do {
        b1 \<leftarrow> snprintf (m_buf L) 0 48 header;
        b2 \<leftarrow> snprintf b1 n (to_size_t (m_log_buf_size L - int n - 1)) msg;
        b3 \<leftarrow> poke b2 (n + m) LF;
        b4 \<leftarrow> poke b3 (n + m + 1) NUL;
        log_str \<leftarrow> c_string b4 0;
        Some (log_str, b4)
      } of
        None \<Rightarrow> Inl UndefinedBehaviour
      | Some (log_str, b) \<Rightarrow> Inr (log_str, L\<lparr>m_buf := b\<rparr>))"

text \<open>Handing the line over: to the queue if the log is asynchronous and the queue is not full.\<close>

definition log_push :: "string \<Rightarrow> Log \<Rightarrow> cpp_error + Log" where
  "log_push line L =
     (case m_log_queue L of
        None \<Rightarrow> Inl UndefinedBehaviour
      | Some q \<Rightarrow>
          (case push q line of
             Inl e \<Rightarrow> Inl e
           | Inr r \<Rightarrow> Inr (L\<lparr>m_log_queue := Some (after_push r)\<rparr>)))"

definition queue_open :: "Log \<Rightarrow> bool" where
  "queue_open L = (m_is_async L \<and> (case m_log_queue L of None \<Rightarrow> True | Some q \<Rightarrow> \<not> full q))"

definition log_emit :: "string \<Rightarrow> Log \<Rightarrow> cpp_error + Log" where
  "log_emit line L = (if queue_open L then log_push line L else put_line line L)"

definition write_log ::
  "(string \<Rightarrow> bool) \<Rightarrow> int \<Rightarrow> string \<Rightarrow> tm \<Rightarrow> int \<Rightarrow> Log \<Rightarrow> cpp_error + Log" where
  "write_log can_open level msg t usec L =
     (case log_rotate can_open t L of
        Inl e \<Rightarrow> Inl e
      | Inr L \<Rightarrow>
          (case log_format level msg t usec L of
             Inl e \<Rightarrow> Inl e
           | Inr (line, L) \<Rightarrow> log_emit line L))"

text \<open>The macros \<open>LOG_DEBUG\<close> to \<open>LOG_ERROR\<close>, with the \<open>m_close_log\<close> of the object that logs.\<close>

definition LOG ::
  "(string \<Rightarrow> bool) \<Rightarrow> int \<Rightarrow> int \<Rightarrow> string \<Rightarrow> tm \<Rightarrow> int \<Rightarrow> Log \<Rightarrow> cpp_error + Log" where
  "LOG can_open caller_close_log level msg t usec L =
     (if 0 = caller_close_log
      then (case write_log can_open level msg t usec L of Inl e \<Rightarrow> Inl e | Inr L \<Rightarrow> Inr (flush L))
      else Inr L)"

section \<open>The writing thread\<close>

text \<open>
  One pass of the loop of \<open>async_write_log\<close>, with the returns of the wait inside \<open>pop\<close>; \<open>None\<close> is a thread
  that is still blocked. When \<open>pop\<close> fails the loop ends and the function, declared to return a pointer,
  runs off its end.
\<close>

definition async_write_pass :: "(bool \<times> string block_queue) list \<Rightarrow> Log \<Rightarrow> (cpp_error + Log) option" where
  "async_write_pass waits L =
     (case m_log_queue L of
        None \<Rightarrow> Some (Inl UndefinedBehaviour)
      | Some q \<Rightarrow>
          (case pop q waits of
             Inl e \<Rightarrow> Some (Inl e)
           | Inr PopBlocked \<Rightarrow> None
           | Inr (PopFalse q) \<Rightarrow> Some (Inl UndefinedBehaviour)
           | Inr (PopItem line q) \<Rightarrow> Some (put_line line (L\<lparr>m_log_queue := Some q\<rparr>))))"

definition Log_end :: "Log \<Rightarrow> Log" where
  "Log_end L = (if m_fp L \<noteq> None then (flush L)\<lparr>m_fp := None\<rparr> else L)"

section \<open>The line is formatted exactly when it fits\<close>

lemma mem_write_snoc:
  "off \<le> length buf \<Longrightarrow> mem_write buf off bytes = Some buf' \<Longrightarrow> take (off + length bytes) buf' = take off buf @ bytes"
  by (auto simp: mem_write_def split: if_splits)

lemma take_snoc_update:
  "n < length xs \<Longrightarrow> take (Suc n) (xs[n := v]) = take n xs @ [v]"
  by (simp add: take_Suc_conv_app_nth)

lemma c_string_prefix:
  assumes "take (Suc k) buf = s @ [NUL]" "length s = k" "NUL \<notin> set s"
  shows "c_string buf 0 = Some s"
proof -
  have "buf = (s @ [NUL]) @ drop (Suc k) buf" using assms(1) by (metis append_take_drop_id)
  then have "buf = s @ NUL # drop (Suc k) buf" by simp
  then show ?thesis using c_string_from_term [OF assms(3)] by (metis c_string_def drop0)
qed

definition log_buf_ok :: "Log \<Rightarrow> bool" where
  "log_buf_ok L \<longleftrightarrow> int (length (m_buf L)) = m_log_buf_size L \<and> m_log_buf_size L < 2 ^ 31"

lemma log_format_fits:
  assumes "log_buf_ok L" "length (line_header level t usec) < 48"
    and "int (length (line_header level t usec)) + int (length msg) + 2 \<le> m_log_buf_size L"
    and "NUL \<notin> set (line_header level t usec)" "NUL \<notin> set msg"
  shows "\<exists>b. log_format level msg t usec L = Inr (line_header level t usec @ msg @ [LF], L\<lparr>m_buf := b\<rparr>)
    \<and> length b = length (m_buf L)"
proof -
  define h where "h = line_header level t usec"
  let ?n = "length h" and ?m = "length msg"
  have len: "?n + ?m + 2 \<le> length (m_buf L)" using assms(1,3) by (simp add: log_buf_ok_def h_def)
  obtain b1 where b1: "snprintf (m_buf L) 0 48 h = Some b1" "take ?n b1 = h" "length b1 = length (m_buf L)"
    using len assms(2) by (auto simp: snprintf_def mem_write_def h_def)
  have size: "to_size_t (m_log_buf_size L - int ?n - 1) = m_log_buf_size L - int ?n - 1"
    using assms(1) len by (intro to_size_t_small) (auto simp: log_buf_ok_def)
  have "?m \<le> nat (m_log_buf_size L - int ?n - 1 - 1)"
    using assms(1) len by (auto simp: log_buf_ok_def)
  then have whole: "take (nat (m_log_buf_size L - int ?n - 1 - 1)) msg = msg" by simp
  obtain b2 where b2: "snprintf b1 ?n (to_size_t (m_log_buf_size L - int ?n - 1)) msg = Some b2"
    "take (?n + ?m) b2 = h @ msg" "length b2 = length (m_buf L)"
    using b1(2,3) len assms(1) unfolding size snprintf_def whole
    by (auto simp: mem_write_def log_buf_ok_def)
  have "take (Suc (?n + ?m)) (b2[?n + ?m := LF]) = (h @ msg) @ [LF]"
    using b2(2,3) len take_snoc_update [of "?n + ?m" b2] by simp
  then have t4: "take (Suc (Suc (?n + ?m))) (b2[?n + ?m := LF, ?n + ?m + 1 := NUL]) = (h @ msg @ [LF]) @ [NUL]"
    using b2(3) len take_snoc_update [of "Suc (?n + ?m)" "b2[?n + ?m := LF]"] by simp
  have "c_string (b2[?n + ?m := LF, ?n + ?m + 1 := NUL]) 0 = Some (h @ msg @ [LF])"
    using assms(4,5) by (intro c_string_prefix [OF t4]) (auto simp: h_def)
  then show ?thesis
    using b1(1) b2(1,3) len unfolding log_format_def h_def [symmetric] Let_def
    by (intro exI [of _ "b2[?n + ?m := LF, ?n + ?m + 1 := NUL]"]) simp
qed

lemma log_format_overflow:
  assumes "log_buf_ok L" "m_log_buf_size L < int (length (line_header level t usec)) + int (length msg) + 2"
  shows "log_format level msg t usec L = Inl UndefinedBehaviour"
proof -
  define h where "h = line_header level t usec"
  let ?n = "length h" and ?m = "length msg"
  have "\<not> (snprintf (m_buf L) 0 48 h = Some b1 \<and> snprintf b1 ?n k msg = Some b2
    \<and> poke b2 (?n + ?m) LF = Some b3 \<and> poke b3 (?n + ?m + 1) NUL = Some b4)" for b1 b2 b3 b4 k
  proof
    assume b: "snprintf (m_buf L) 0 48 h = Some b1 \<and> snprintf b1 ?n k msg = Some b2
      \<and> poke b2 (?n + ?m) LF = Some b3 \<and> poke b3 (?n + ?m + 1) NUL = Some b4"
    then have "length b1 = length (m_buf L)" "length b2 = length b1"
      by (auto simp: snprintf_def split: if_splits dest: length_mem_write)
    moreover have "?n + ?m + 1 < length b2"
      using b by (auto simp: poke_def split: if_splits)
    ultimately show False using assms by (simp add: log_buf_ok_def h_def)
  qed
  then show ?thesis
    unfolding log_format_def h_def [symmetric] Let_def
    by (fastforce simp: bind_eq_Some_conv split: option.split)
qed

text \<open>A sensible clock reading.\<close>

definition tm_ok :: "tm \<Rightarrow> bool" where
  "tm_ok t \<longleftrightarrow> 0 \<le> tm_year t + 1900 \<and> tm_year t + 1900 \<le> 9999 \<and> 0 \<le> tm_mon t \<and> tm_mon t < 12
     \<and> 1 \<le> tm_mday t \<and> tm_mday t \<le> 31 \<and> 0 \<le> tm_hour t \<and> tm_hour t < 24 \<and> 0 \<le> tm_min t \<and> tm_min t < 60
     \<and> 0 \<le> tm_sec t \<and> tm_sec t \<le> 60"

lemma length_date_prefix:
  assumes "tm_ok t"
  shows "length (date_prefix t) \<le> 11"
  using assms length_fmt_d [of "tm_year t + 1900" 4] length_fmt_0d [of "tm_mon t + 1" 2] length_fmt_0d [of "tm_mday t" 2]
  by (simp add: date_prefix_def tm_ok_def)

lemma length_line_header:
  assumes "tm_ok t" "0 \<le> usec" "usec < 1000000"
  shows "length (line_header level t usec) \<le> 36"
  using assms length_fmt_d [of "tm_year t + 1900" 4] length_fmt_0d [of "tm_mon t + 1" 2] length_fmt_0d [of "tm_mday t" 2]
    length_fmt_0d [of "tm_hour t" 2] length_fmt_0d [of "tm_min t" 2] length_fmt_0d [of "tm_sec t" 2] length_fmt_0d [of usec 6]
  by (simp add: line_header_def tm_ok_def level_tag_def)

lemma line_header_no_NUL [simp]: "NUL \<notin> set (line_header level t usec)"
  by (simp add: line_header_def level_tag_def)

section \<open>Properties\<close>

text \<open>
  C21. Formatting a line is exact when it fits and overflows the buffer otherwise. With a
  sensible clock and a message without NUL, the line handed over is the time stamp, the level, the
  message and a newline, provided these and the terminator fit \<open>m_log_buf_size\<close>; in every other case
  the stores after \<open>vsnprintf\<close> leave \<open>m_buf\<close>: a message that \<open>vsnprintf\<close> had to cut always overflows, since the
  length it returns is that of the uncut message.
\<close>

theorem log_format_spec:
  assumes "int (length (m_buf L)) = m_log_buf_size L" "m_log_buf_size L < 2 ^ 31"
    and "tm_ok t" "0 \<le> usec" "usec < 1000000" "NUL \<notin> set msg"
  shows "if int (length (line_header level t usec)) + int (length msg) + 2 \<le> m_log_buf_size L
    then \<exists>b. length b = length (m_buf L)
      \<and> log_format level msg t usec L = Inr (line_header level t usec @ msg @ [LF], L\<lparr>m_buf := b\<rparr>)
    else log_format level msg t usec L = Inl UndefinedBehaviour"
proof -
  have "log_buf_ok L" using assms(1,2) by (simp add: log_buf_ok_def)
  moreover have "length (line_header level t usec) < 48" using length_line_header [OF assms(3-5), of level] by simp
  ultimately show ?thesis
    using log_format_fits [of L level t usec msg] log_format_overflow [of L level t usec msg] assms(6) by auto
qed

definition sample_tm :: tm where
  "sample_tm = \<lparr>tm_year = 124, tm_mon = 4, tm_mday = 6, tm_hour = 7, tm_min = 8, tm_sec = 9\<rparr>"

theorem log_format_spec_witness:
  "(\<exists>b. log_format 1 ''hi'' sample_tm 42 (Log_new\<lparr>m_buf := replicate 64 NUL, m_log_buf_size := 64\<rparr>) =
      Inr (''2024-05-06 07:08:09.000042 [info]: hi'' @ [LF], Log_new\<lparr>m_log_buf_size := 64, m_buf := b\<rparr>))
   \<and> log_format 1 ''hi'' sample_tm 42 (Log_new\<lparr>m_buf := replicate 37 NUL, m_log_buf_size := 37\<rparr>) = Inl UndefinedBehaviour"
proof -
  have ok: "tm_ok sample_tm" by (simp add: tm_ok_def sample_tm_def)
  have h: "line_header 1 sample_tm 42 = ''2024-05-06 07:08:09.000042 [info]: ''"
    by code_simp
  show ?thesis
    using log_format_spec [OF _ _ ok, of "Log_new\<lparr>m_buf := replicate 64 NUL, m_log_buf_size := 64\<rparr>" 42 "''hi''" 1]
      log_format_spec [OF _ _ ok, of "Log_new\<lparr>m_buf := replicate 37 NUL, m_log_buf_size := 37\<rparr>" 42 "''hi''" 1]
    unfolding h by auto
qed

section \<open>Where the lines go\<close>

text \<open>The lines in the queue, and the lines put into files.\<close>

definition queued :: "Log \<Rightarrow> string list" where
  "queued L = (if m_is_async L then (case m_log_queue L of None \<Rightarrow> [] | Some q \<Rightarrow> queue_list q) else [])"

definition put_lines :: "Log \<Rightarrow> string list" where
  "put_lines L = map snd (out L)"

section \<open>One logging thread and the writing thread\<close>

text \<open>
  The calls of one logging thread and the loop of the writing thread, interleaved at the critical sections. A call of \<open>LOG\<close> goes through the
  section that counts the line, the one that formats it, the test \<open>full()\<close>, the hand-over to the queue or to the
  file, and the flush; a pass of the writing thread takes a line from the queue in \<open>pop\<close> and then
  puts it into the file. \<open>caller\<close> is where the logging thread stands and what it holds, \<open>popped\<close> the
  line the writing thread holds, \<open>logged\<close> the lines of all calls begun so far, and \<open>overflowed\<close> whether a call
  of an asynchronous log found the queue full.
\<close>

datatype caller = Idle | Counted int string tm int | Formatted string | Queue_Free string | Queue_Full string | Handed

record log_sys =
  the_log :: Log
  caller :: caller
  popped :: "string option"
  logged :: "string list"
  overflowed :: bool

definition log_start :: "Log \<Rightarrow> log_sys" where
  "log_start L = \<lparr>the_log = L, caller = Idle, popped = None, logged = [], overflowed = False\<rparr>"

definition log_line :: "int \<Rightarrow> string \<Rightarrow> tm \<Rightarrow> int \<Rightarrow> string" where
  "log_line level msg t usec = line_header level t usec @ msg @ [LF]"

text \<open>
  The sections. \<open>None\<close>: the thread is not at this section, or \<open>pop\<close> waits. A call begins with a clock reading, which is sensible,
  and a message without NUL.
\<close>

datatype log_action = Count int string tm int | Format | Test_Full | Hand_Over | Flush_File | Pop_Line | Put_Popped

definition count_section :: "(string \<Rightarrow> bool) \<Rightarrow> int \<Rightarrow> string \<Rightarrow> tm \<Rightarrow> int \<Rightarrow> log_sys \<Rightarrow> (cpp_error + log_sys) option" where
  "count_section can_open level msg t usec s =
     (if caller s = Idle \<and> tm_ok t \<and> 0 \<le> usec \<and> usec < 1000000 \<and> NUL \<notin> set msg
      then Some (case log_rotate can_open t (the_log s) of
             Inl e \<Rightarrow> Inl e
           | Inr L \<Rightarrow> Inr (s\<lparr>the_log := L, caller := Counted level msg t usec, logged := logged s @ [log_line level msg t usec]\<rparr>))
      else None)"

definition format_section :: "log_sys \<Rightarrow> (cpp_error + log_sys) option" where
  "format_section s =
     (case caller s of
        Counted level msg t usec \<Rightarrow>
          Some (case log_format level msg t usec (the_log s) of
            Inl e \<Rightarrow> Inl e
          | Inr (line, L) \<Rightarrow> Inr (s\<lparr>the_log := L, caller := Formatted line\<rparr>))
      | _ \<Rightarrow> None)"

definition test_section :: "log_sys \<Rightarrow> (cpp_error + log_sys) option" where
  "test_section s =
     (case caller s of
        Formatted line \<Rightarrow>
          Some (if queue_open (the_log s) then Inr (s\<lparr>caller := Queue_Free line\<rparr>)
                else Inr (s\<lparr>caller := Queue_Full line, overflowed := overflowed s \<or> m_is_async (the_log s)\<rparr>))
      | _ \<Rightarrow> None)"

definition hand_over_section :: "log_sys \<Rightarrow> (cpp_error + log_sys) option" where
  "hand_over_section s =
     (case caller s of
        Queue_Free line \<Rightarrow> Some (case log_push line (the_log s) of Inl e \<Rightarrow> Inl e | Inr L \<Rightarrow> Inr (s\<lparr>the_log := L, caller := Handed\<rparr>))
      | Queue_Full line \<Rightarrow> Some (case put_line line (the_log s) of Inl e \<Rightarrow> Inl e | Inr L \<Rightarrow> Inr (s\<lparr>the_log := L, caller := Handed\<rparr>))
      | _ \<Rightarrow> None)"

definition flush_section :: "log_sys \<Rightarrow> (cpp_error + log_sys) option" where
  "flush_section s = (if caller s = Handed then Some (Inr (s\<lparr>the_log := flush (the_log s), caller := Idle\<rparr>)) else None)"

definition pop_section :: "log_sys \<Rightarrow> (cpp_error + log_sys) option" where
  "pop_section s =
     (if m_is_async (the_log s) \<and> popped s = None then
        (case m_log_queue (the_log s) of
           None \<Rightarrow> Some (Inl UndefinedBehaviour)
         | Some q \<Rightarrow>
             (case pop q [] of
                Inl e \<Rightarrow> Some (Inl e)
              | Inr PopBlocked \<Rightarrow> None
              | Inr (PopFalse q) \<Rightarrow> Some (Inl UndefinedBehaviour)
              | Inr (PopItem line q) \<Rightarrow> Some (Inr (s\<lparr>the_log := (the_log s)\<lparr>m_log_queue := Some q\<rparr>, popped := Some line\<rparr>))))
      else None)"

definition put_section :: "log_sys \<Rightarrow> (cpp_error + log_sys) option" where
  "put_section s =
     (case popped s of
        None \<Rightarrow> None
      | Some line \<Rightarrow> Some (case put_line line (the_log s) of Inl e \<Rightarrow> Inl e | Inr L \<Rightarrow> Inr (s\<lparr>the_log := L, popped := None\<rparr>)))"

fun log_section :: "(string \<Rightarrow> bool) \<Rightarrow> log_action \<Rightarrow> log_sys \<Rightarrow> (cpp_error + log_sys) option" where
  "log_section can_open (Count level msg t usec) s = count_section can_open level msg t usec s"
| "log_section can_open Format s = format_section s"
| "log_section can_open Test_Full s = test_section s"
| "log_section can_open Hand_Over s = hand_over_section s"
| "log_section can_open Flush_File s = flush_section s"
| "log_section can_open Pop_Line s = pop_section s"
| "log_section can_open Put_Popped s = put_section s"

definition log_act :: "(string \<Rightarrow> bool) \<Rightarrow> log_action \<Rightarrow> log_sys \<Rightarrow> log_sys option" where
  "log_act can_open a s = (case log_section can_open a s of Some (Inr t) \<Rightarrow> Some t | _ \<Rightarrow> None)"

lemma log_act_iff [simp]: "log_act can_open a s = Some t \<longleftrightarrow> log_section can_open a s = Some (Inr t)"
  by (auto simp: log_act_def split: option.splits sum.splits)

lemmas section_defs = count_section_def format_section_def test_section_def hand_over_section_def flush_section_def
  pop_section_def put_section_def

text \<open>Run one after the other, the sections of a call are the macro, and those of the writing thread are a pass of its loop.\<close>

lemma sections_LOG:
  assumes "LOG can_open 0 level msg t usec L = Inr L'" "tm_ok t" "0 \<le> usec" "usec < 1000000" "NUL \<notin> set msg"
    and "the_log s = L" "caller s = Idle"
  shows "\<exists>s'. schedule (log_act can_open) [Count level msg t usec, Format, Test_Full, Hand_Over, Flush_File] s = Some s'
    \<and> the_log s' = L' \<and> caller s' = Idle \<and> popped s' = popped s"
proof -
  obtain L1 where 1: "log_rotate can_open t L = Inr L1" using assms(1) by (auto simp: LOG_def write_log_def split: sum.splits)
  obtain line L2 where 2: "log_format level msg t usec L1 = Inr (line, L2)"
    using assms(1) 1 by (auto simp: LOG_def write_log_def split: sum.splits)
  obtain L3 where 3: "log_emit line L2 = Inr L3" "L' = flush L3" using assms(1) 1 2 by (auto simp: LOG_def write_log_def split: sum.splits)
  then show ?thesis
    using assms(2-7) 1 2 by (cases "queue_open L2") (simp_all add: log_act_def section_defs log_emit_def)
qed

lemma sections_pass:
  assumes "async_write_pass [] (the_log s) = Some (Inr L')" "m_is_async (the_log s)" "popped s = None"
  shows "schedule (log_act can_open) [Pop_Line, Put_Popped] s = Some (s\<lparr>the_log := L'\<rparr>)"
proof -
  obtain q where q: "m_log_queue (the_log s) = Some q" using assms(1) by (auto simp: async_write_pass_def split: option.splits)
  obtain line q' where "pop q [] = Inr (PopItem line q')" "put_line line ((the_log s)\<lparr>m_log_queue := Some q'\<rparr>) = Inr L'"
    using assms(1) q by (auto simp: async_write_pass_def split: sum.splits pop_result.splits)
  then show ?thesis using q assms(2,3) by (simp add: log_act_def section_defs)
qed

section \<open>The invariant of the two threads\<close>

text \<open>The lines a thread holds.\<close>

definition in_call :: "log_sys \<Rightarrow> string list" where
  "in_call s = (case caller s of Idle \<Rightarrow> [] | Counted level msg t usec \<Rightarrow> [log_line level msg t usec] | Formatted line \<Rightarrow> [line]
     | Queue_Free line \<Rightarrow> [line] | Queue_Full line \<Rightarrow> [line] | Handed \<Rightarrow> [])"

definition in_hand :: "log_sys \<Rightarrow> string list" where
  "in_hand s = (case popped s of None \<Rightarrow> [] | Some line \<Rightarrow> [line])"

text \<open>The log as the sections leave it: what they never change, and what they keep.\<close>

definition log_kept :: "(string \<Rightarrow> bool) \<Rightarrow> Log \<Rightarrow> Log \<Rightarrow> bool" where
  "log_kept can_open L0 L \<longleftrightarrow> log_buf_ok L \<and> c_string (dir_name L) 0 \<noteq> None \<and> c_string (log_name L) 0 \<noteq> None
     \<and> (m_fp L = None \<longrightarrow> (\<exists>name. \<not> can_open name)) \<and> m_split_lines L = m_split_lines L0 \<and> m_log_buf_size L = m_log_buf_size L0
     \<and> m_is_async L = m_is_async L0 \<and> (m_is_async L \<longrightarrow> (\<exists>q. m_log_queue L = Some q \<and> queue_inv q))"

text \<open>What the position of the logging thread says.\<close>

definition caller_ok :: "log_sys \<Rightarrow> bool" where
  "caller_ok s \<longleftrightarrow> (case caller s of
       Counted level msg t usec \<Rightarrow> tm_ok t \<and> 0 \<le> usec \<and> usec < 1000000 \<and> NUL \<notin> set msg
     | Queue_Free line \<Rightarrow> queue_open (the_log s)
     | Queue_Full line \<Rightarrow> m_is_async (the_log s) \<longrightarrow> overflowed s
     | _ \<Rightarrow> True)"

definition lines_kept :: "string list \<Rightarrow> log_sys \<Rightarrow> bool" where
  "lines_kept base s \<longleftrightarrow>
     mset (put_lines (the_log s)) + mset (in_hand s) + mset (queued (the_log s)) + mset (in_call s) = mset base + mset (logged s)
     \<and> (\<not> overflowed s \<longrightarrow> put_lines (the_log s) @ in_hand s @ queued (the_log s) @ in_call s = base @ logged s)"

definition log_sys_inv :: "(string \<Rightarrow> bool) \<Rightarrow> Log \<Rightarrow> log_sys \<Rightarrow> bool" where
  "log_sys_inv can_open L0 s \<longleftrightarrow> log_kept can_open L0 (the_log s) \<and> caller_ok s \<and> (popped s \<noteq> None \<longrightarrow> m_is_async (the_log s))
     \<and> lines_kept (put_lines L0 @ queued L0) s"

lemma log_start_inv:
  assumes "m_fp L \<noteq> None" "m_is_async L \<longrightarrow> (\<exists>q. m_log_queue L = Some q \<and> queue_inv q)" "log_buf_ok L"
    and "c_string (dir_name L) 0 \<noteq> None" "c_string (log_name L) 0 \<noteq> None"
  shows "log_sys_inv can_open L (log_start L)"
  using assms by (auto simp: log_sys_inv_def log_kept_def caller_ok_def lines_kept_def log_start_def in_call_def in_hand_def)

text \<open>The sections on the log.\<close>

lemma log_rotate_kept:
  assumes "log_kept can_open L0 L" "log_rotate can_open t L = Inr L'"
  shows "log_kept can_open L0 L'" "out L' = out L" "m_log_queue L' = m_log_queue L" "m_is_async L' = m_is_async L"
  using assms by (auto simp: log_rotate_def log_kept_def Let_def close_log_def flush_def open_log_def log_buf_ok_def
      split: if_splits option.splits)

lemma log_rotate_fails:
  assumes "log_kept can_open L0 L" "log_rotate can_open t L = Inl e"
  shows "e = UndefinedBehaviour \<and> ((\<exists>name. \<not> can_open name) \<or> m_split_lines L0 = 0)"
  using assms by (auto simp: log_rotate_def log_kept_def Let_def close_log_def flush_def rotate_name_def
      split: if_splits option.splits)

lemma log_format_kept:
  assumes "log_kept can_open L0 L" "tm_ok t" "0 \<le> usec" "usec < 1000000" "NUL \<notin> set msg"
  shows "case log_format level msg t usec L of
      Inl e \<Rightarrow> e = UndefinedBehaviour \<and> m_log_buf_size L0 < int (length (log_line level msg t usec)) + 1
    | Inr (line, L') \<Rightarrow> line = log_line level msg t usec \<and> log_kept can_open L0 L' \<and> out L' = out L
        \<and> m_log_queue L' = m_log_queue L \<and> m_is_async L' = m_is_async L"
proof -
  have ok: "log_buf_ok L" "m_log_buf_size L = m_log_buf_size L0" using assms(1) by (simp_all add: log_kept_def)
  have h: "length (line_header level t usec) < 48" using length_line_header [OF assms(2-4), of level] by simp
  show ?thesis
  proof (cases "int (length (line_header level t usec)) + int (length msg) + 2 \<le> m_log_buf_size L")
    case True
    then obtain b where "log_format level msg t usec L = Inr (line_header level t usec @ msg @ [LF], L\<lparr>m_buf := b\<rparr>)"
      "length b = length (m_buf L)" using log_format_fits [OF ok(1) h True] assms(5) by auto
    then show ?thesis using assms(1) by (simp add: log_line_def log_kept_def log_buf_ok_def)
  next
    case False
    then show ?thesis using log_format_overflow [OF ok(1), of level t usec msg] ok(2) by (simp add: log_line_def)
  qed
qed

lemma put_line_kept:
  assumes "log_kept can_open L0 L"
  shows "case put_line line L of Inl e \<Rightarrow> e = UndefinedBehaviour \<and> (\<exists>name. \<not> can_open name)
    | Inr L' \<Rightarrow> log_kept can_open L0 L' \<and> put_lines L' = put_lines L @ [line] \<and> m_log_queue L' = m_log_queue L \<and> m_is_async L' = m_is_async L"
  using assms by (auto simp: put_line_def log_kept_def log_buf_ok_def put_lines_def split: option.splits)

lemma log_push_kept:
  assumes "log_kept can_open L0 L" "queue_open L"
  shows "\<exists>L'. log_push line L = Inr L' \<and> log_kept can_open L0 L' \<and> out L' = out L \<and> queued L' = queued L @ [line] \<and> m_is_async L'"
proof -
  obtain q where q: "m_log_queue L = Some q" "queue_inv q" "m_is_async L" "m_size q < m_max_size q"
    using assms by (auto simp: queue_open_def log_kept_def full_def split: if_splits)
  obtain q' where "push q line = Inr \<lparr>pushed = True, broadcast = True, after_push = q'\<rparr>"
    "queue_inv q'" "queue_list q' = queue_list q @ [line]" using push_room [OF q(2,4)] by blast
  then show ?thesis using q assms(1) by (auto simp: log_push_def log_kept_def log_buf_ok_def queued_def)
qed

lemma pop_ready:
  assumes "queue_inv q"
  shows "case queue_list q of [] \<Rightarrow> pop q [] = Inr PopBlocked
    | x # xs \<Rightarrow> (\<exists>q'. pop q [] = Inr (PopItem x q') \<and> queue_inv q' \<and> queue_list q' = xs \<and> (\<not> full q \<longrightarrow> \<not> full q'))"
proof (cases "0 < m_size q")
  case True
  from take_front_Cons [OF assms True] obtain x q' where q': "take_front q = Inr (x, q')" "queue_inv q'" "queue_list q = x # queue_list q'"
    "m_max_size q' = m_max_size q" by blast
  have "nat (m_size q) = Suc (nat (m_size q'))" using q'(3) by (metis length_Cons length_queue_list)
  then have "m_size q' \<le> m_size q" by linarith
  then show ?thesis using True q' by (auto simp: full_def split: if_splits)
next
  case False
  then have "queue_list q = []" using length_queue_list [of q] by (cases "queue_list q") auto
  then show ?thesis using False by simp
qed

text \<open>Why a section can fail.\<close>

definition log_fails :: "(string \<Rightarrow> bool) \<Rightarrow> Log \<Rightarrow> log_action \<Rightarrow> log_sys \<Rightarrow> cpp_error \<Rightarrow> bool" where
  "log_fails can_open L0 a s e \<longleftrightarrow> e = UndefinedBehaviour
     \<and> ((\<exists>name. \<not> can_open name) \<or> m_split_lines L0 = 0
        \<or> a = Format \<and> (\<exists>level msg t usec. caller s = Counted level msg t usec
            \<and> m_log_buf_size L0 < int (length (log_line level msg t usec)) + 1))"

definition section_ok :: "(string \<Rightarrow> bool) \<Rightarrow> Log \<Rightarrow> log_action \<Rightarrow> log_sys \<Rightarrow> (cpp_error + log_sys) option \<Rightarrow> bool" where
  "section_ok can_open L0 a s r \<longleftrightarrow>
     (case r of None \<Rightarrow> True | Some (Inl e) \<Rightarrow> log_fails can_open L0 a s e | Some (Inr t) \<Rightarrow> log_sys_inv can_open L0 t)"

lemma same_queue: "m_log_queue L' = m_log_queue L \<Longrightarrow> m_is_async L' = m_is_async L \<Longrightarrow> queued L' = queued L \<and> queue_open L' = queue_open L"
  by (simp add: queued_def queue_open_def)

lemma same_out: "out L' = out L \<Longrightarrow> put_lines L' = put_lines L"
  by (simp add: put_lines_def)

lemmas log_inv_defs = log_sys_inv_def caller_ok_def lines_kept_def in_call_def in_hand_def

lemma count_section_ok:
  assumes "log_sys_inv can_open L0 s"
  shows "section_ok can_open L0 (Count level msg t usec) s (count_section can_open level msg t usec s)"
proof (cases "caller s = Idle \<and> tm_ok t \<and> 0 \<le> usec \<and> usec < 1000000 \<and> NUL \<notin> set msg")
  case True
  have kept: "log_kept can_open L0 (the_log s)" using assms by (simp add: log_sys_inv_def)
  show ?thesis
  proof (cases "log_rotate can_open t (the_log s)")
    case (Inl e)
    then show ?thesis
      using log_rotate_fails [OF kept Inl] True by (auto simp: section_ok_def count_section_def log_fails_def)
  next
    case (Inr L)
    note r = log_rotate_kept [OF kept Inr]
    show ?thesis
      using True assms r(1) same_queue [OF r(3,4)] same_out [OF r(2)] Inr r(4)
      by (auto simp: section_ok_def count_section_def log_inv_defs)
  qed
next
  case False
  then have "count_section can_open level msg t usec s = None" unfolding count_section_def by (rule if_not_P)
  then show ?thesis by (simp add: section_ok_def)
qed

lemma format_section_ok:
  assumes "log_sys_inv can_open L0 s"
  shows "section_ok can_open L0 Format s (format_section s)"
proof (cases "caller s")
  case (Counted level msg t usec)
  have kept: "log_kept can_open L0 (the_log s)" using assms by (simp add: log_sys_inv_def)
  have args: "tm_ok t" "0 \<le> usec" "usec < 1000000" "NUL \<notin> set msg"
    using assms Counted by (simp_all add: log_sys_inv_def caller_ok_def)
  note fmt = log_format_kept [OF kept args, of level]
  show ?thesis
  proof (cases "log_format level msg t usec (the_log s)")
    case (Inl e)
    then show ?thesis using fmt Counted by (simp add: section_ok_def format_section_def log_fails_def)
  next
    case (Inr r)
    obtain line L where r: "r = (line, L)" by (cases r)
    then have f: "line = log_line level msg t usec" "log_kept can_open L0 L" "out L = out (the_log s)"
      "m_log_queue L = m_log_queue (the_log s)" "m_is_async L = m_is_async (the_log s)" using fmt Inr by simp_all
    show ?thesis
      using assms Counted Inr r f(1,2,5) same_queue [OF f(4,5)] same_out [OF f(3)]
      by (simp add: section_ok_def format_section_def log_inv_defs)
  qed
qed (simp_all add: section_ok_def format_section_def)

lemma test_section_ok:
  assumes "log_sys_inv can_open L0 s"
  shows "section_ok can_open L0 Test_Full s (test_section s)"
  using assms by (auto simp: section_ok_def test_section_def log_inv_defs split: caller.splits)

lemma hand_over_section_ok:
  assumes "log_sys_inv can_open L0 s"
  shows "section_ok can_open L0 Hand_Over s (hand_over_section s)"
proof (cases "caller s")
  case (Queue_Free line)
  have kept: "log_kept can_open L0 (the_log s)" "queue_open (the_log s)" using assms Queue_Free by (simp_all add: log_sys_inv_def caller_ok_def)
  obtain L where L: "log_push line (the_log s) = Inr L" "log_kept can_open L0 L" "out L = out (the_log s)"
    "queued L = queued (the_log s) @ [line]" "m_is_async L" using log_push_kept [OF kept] by blast
  then show ?thesis
    using assms Queue_Free same_out [OF L(3)] by (auto simp: section_ok_def hand_over_section_def log_inv_defs)
next
  case (Queue_Full line)
  have kept: "log_kept can_open L0 (the_log s)" and full: "m_is_async (the_log s) \<longrightarrow> overflowed s"
    using assms Queue_Full by (simp_all add: log_sys_inv_def caller_ok_def)
  show ?thesis
  proof (cases "put_line line (the_log s)")
    case (Inl e)
    then show ?thesis using put_line_kept [OF kept, of line] Queue_Full by (simp add: section_ok_def hand_over_section_def log_fails_def)
  next
    case (Inr L)
    then have L: "log_kept can_open L0 L" "put_lines L = put_lines (the_log s) @ [line]" "m_log_queue L = m_log_queue (the_log s)"
      "m_is_async L = m_is_async (the_log s)" using put_line_kept [OF kept, of line] by simp_all
    have "\<not> m_is_async (the_log s) \<Longrightarrow> queued (the_log s) = [] \<and> popped s = None" using assms by (auto simp: queued_def log_sys_inv_def)
    then show ?thesis
      using assms Queue_Full Inr L(1,2,4) full same_queue [OF L(3,4)]
      by (auto simp: section_ok_def hand_over_section_def log_inv_defs)
  qed
qed (simp_all add: section_ok_def hand_over_section_def)

lemma flush_section_ok:
  assumes "log_sys_inv can_open L0 s"
  shows "section_ok can_open L0 Flush_File s (flush_section s)"
proof -
  have "log_kept can_open L0 (flush L) = log_kept can_open L0 L" "queued (flush L) = queued L" "put_lines (flush L) = put_lines L"
    "m_is_async (flush L) = m_is_async L" for L
    by (simp_all add: flush_def log_kept_def log_buf_ok_def queued_def put_lines_def)
  then show ?thesis using assms by (cases "caller s = Handed") (simp_all add: section_ok_def flush_section_def log_inv_defs)
qed

lemma pop_section_ok:
  assumes "log_sys_inv can_open L0 s"
  shows "section_ok can_open L0 Pop_Line s (pop_section s)"
    and "m_is_async (the_log s) \<Longrightarrow> popped s = None \<Longrightarrow> queued (the_log s) \<noteq> [] \<Longrightarrow> \<exists>t. pop_section s = Some (Inr t)"
proof -
  have *: "section_ok can_open L0 Pop_Line s (pop_section s) \<and> (queued (the_log s) \<noteq> [] \<longrightarrow> (\<exists>t. pop_section s = Some (Inr t)))"
    if a: "m_is_async (the_log s)" "popped s = None"
  proof -
    have kept: "log_kept can_open L0 (the_log s)" using assms by (simp add: log_sys_inv_def)
    then obtain q where q: "m_log_queue (the_log s) = Some q" "queue_inv q" using a(1) by (auto simp: log_kept_def)
    have qd: "queued (the_log s) = queue_list q" using a(1) q(1) by (simp add: queued_def)
    show ?thesis
    proof (cases "queue_list q")
      case Nil
      then show ?thesis using pop_ready [OF q(2)] q(1) a qd by (simp add: section_ok_def pop_section_def)
    next
      case (Cons x xs)
      then obtain q' where q': "pop q [] = Inr (PopItem x q')" "queue_inv q'" "queue_list q' = xs" "\<not> full q \<longrightarrow> \<not> full q'"
        using pop_ready [OF q(2)] by auto
      let ?t = "s\<lparr>the_log := (the_log s)\<lparr>m_log_queue := Some q'\<rparr>, popped := Some x\<rparr>"
      have "log_kept can_open L0 (the_log ?t)" using kept q'(2) a(1) by (simp add: log_kept_def log_buf_ok_def)
      moreover have "caller_ok ?t"
        using assms q(1) q'(4) a(1) by (auto simp: log_sys_inv_def caller_ok_def queue_open_def split: caller.splits)
      moreover have "lines_kept (put_lines L0 @ queued L0) ?t"
        using assms a qd Cons q'(3) unfolding log_sys_inv_def lines_kept_def
        by (simp add: in_call_def in_hand_def put_lines_def queued_def ac_simps)
      ultimately have "log_sys_inv can_open L0 ?t" using a(1) by (simp add: log_sys_inv_def)
      then show ?thesis using q(1) q'(1) a by (simp add: section_ok_def pop_section_def)
    qed
  qed
  then show "section_ok can_open L0 Pop_Line s (pop_section s)"
    by (cases "m_is_async (the_log s) \<and> popped s = None") (auto simp: section_ok_def pop_section_def)
  show "m_is_async (the_log s) \<Longrightarrow> popped s = None \<Longrightarrow> queued (the_log s) \<noteq> [] \<Longrightarrow> \<exists>t. pop_section s = Some (Inr t)"
    using * by blast
qed

lemma put_section_ok:
  assumes "log_sys_inv can_open L0 s"
  shows "section_ok can_open L0 Put_Popped s (put_section s)"
proof (cases "popped s")
  case (Some line)
  have kept: "log_kept can_open L0 (the_log s)" using assms by (simp add: log_sys_inv_def)
  show ?thesis
  proof (cases "put_line line (the_log s)")
    case (Inl e)
    then show ?thesis using put_line_kept [OF kept, of line] Some by (simp add: section_ok_def put_section_def log_fails_def)
  next
    case (Inr L)
    then have L: "log_kept can_open L0 L" "put_lines L = put_lines (the_log s) @ [line]" "m_log_queue L = m_log_queue (the_log s)"
      "m_is_async L = m_is_async (the_log s)" using put_line_kept [OF kept, of line] by simp_all
    then show ?thesis
      using assms Some Inr same_queue [OF L(3,4)]
      by (auto simp: section_ok_def put_section_def log_inv_defs ac_simps split: caller.splits)
  qed
qed (simp add: section_ok_def put_section_def)

lemma log_section_ok: "log_sys_inv can_open L0 s \<Longrightarrow> section_ok can_open L0 a s (log_section can_open a s)"
  by (cases a) (simp_all add: count_section_ok format_section_ok test_section_ok hand_over_section_ok flush_section_ok
      pop_section_ok(1) put_section_ok)

interpretation lg: interleaving "log_act can_open" "log_sys_inv can_open L0" for can_open L0
proof
  fix s a t assume "log_sys_inv can_open L0 s" "log_act can_open a s = Some t"
  then show "log_sys_inv can_open L0 t" using log_section_ok [of can_open L0 s a] by (simp add: section_ok_def)
qed

text \<open>
  C7. One logging thread and the writing thread lose no line, under every interleaving of their critical sections. From an open log with a well-formed
  buffer, terminated names and, when it is asynchronous, a well-formed queue, whatever is logged through the macros and whenever the writing thread
  runs: the lines of all calls begun so far (time stamp, level, message, newline) are, each exactly as often as it was logged, in a
  file, held by the writing thread, in the queue, or held by the call that is under way. As long as no call of an asynchronous
  log found the queue full, and always for a synchronous one, they stand there in the order of the calls. A section can fail only because
  the line does not fit \<open>m_buf\<close>, because \<open>m_split_lines\<close> is 0, or because some file cannot be opened (a rotation whose \<open>fopen\<close> fails leaves \<open>m_fp\<close> null); and
  when the queue is not empty the writing thread, if it holds no line, can take one.
\<close>

theorem log_conserves_lines:
  assumes "m_fp L \<noteq> None" "m_is_async L \<longrightarrow> (\<exists>q. m_log_queue L = Some q \<and> queue_inv q)"
    and "int (length (m_buf L)) = m_log_buf_size L" "m_log_buf_size L < 2 ^ 31"
    and "c_string (dir_name L) 0 \<noteq> None" "c_string (log_name L) 0 \<noteq> None"
    and "reach (log_act can_open) (log_start L) s"
  shows "mset (put_lines (the_log s)) + mset (in_hand s) + mset (queued (the_log s)) + mset (in_call s)
      = mset (put_lines L) + mset (queued L) + mset (logged s)
    \<and> (\<not> overflowed s \<longrightarrow> put_lines (the_log s) @ in_hand s @ queued (the_log s) @ in_call s = put_lines L @ queued L @ logged s)
    \<and> (\<forall>a e. log_section can_open a s = Some (Inl e) \<longrightarrow> e = UndefinedBehaviour
        \<and> ((\<exists>name. \<not> can_open name) \<or> m_split_lines L = 0
           \<or> a = Format \<and> (\<exists>level msg t usec. caller s = Counted level msg t usec
               \<and> m_log_buf_size L < int (length (line_header level t usec)) + int (length msg) + 2)))
    \<and> (queued (the_log s) \<noteq> [] \<and> popped s = None \<longrightarrow> (\<exists>t. log_act can_open Pop_Line s = Some t))"
proof -
  have inv: "log_sys_inv can_open L s"
    using lg.reach_inv [OF assms(7) log_start_inv] assms(1-6) by (simp add: log_buf_ok_def)
  have "log_fails can_open L a s e" if "log_section can_open a s = Some (Inl e)" for a e
    using log_section_ok [OF inv, of a] that by (simp add: section_ok_def)
  then have fails: "\<forall>a e. log_section can_open a s = Some (Inl e) \<longrightarrow> e = UndefinedBehaviour
        \<and> ((\<exists>name. \<not> can_open name) \<or> m_split_lines L = 0
           \<or> a = Format \<and> (\<exists>level msg t usec. caller s = Counted level msg t usec
               \<and> m_log_buf_size L < int (length (line_header level t usec)) + int (length msg) + 2))"
    by (simp add: log_fails_def log_line_def add.commute add.left_commute)
  have "m_is_async (the_log s)" if "queued (the_log s) \<noteq> []" using that by (auto simp: queued_def split: if_splits)
  then have take: "queued (the_log s) \<noteq> [] \<and> popped s = None \<longrightarrow> (\<exists>t. log_act can_open Pop_Line s = Some t)"
    using pop_section_ok(2) [OF inv] by simp
  show ?thesis using inv fails take unfolding log_sys_inv_def lines_kept_def by (auto simp: add.assoc)
qed

definition sample_log :: Log where
  "sample_log = Log_new\<lparr>m_fp := Some ''f'', m_is_async := True, m_split_lines := 800, m_today := 6, m_log_buf_size := 64,
     m_buf := replicate 64 NUL, m_log_queue := Some \<lparr>m_array = [[]], m_size = 0, m_max_size = 1, m_front = -1, m_back = -1\<rparr>\<rparr>"

definition sample_calls :: "log_action list" where
  "sample_calls = [Count 1 ''a'' sample_tm 42, Format, Test_Full, Hand_Over, Flush_File, Count 1 ''b'' sample_tm 43]
     @ [Pop_Line, Put_Popped]"

lemma sample_format:
  assumes "length (m_buf L) = 64" "m_log_buf_size L = 64" "x \<noteq> NUL" "0 \<le> usec" "usec < 1000000"
  shows "\<exists>b. length b = 64 \<and> log_format 1 [x] sample_tm usec L = Inr (log_line 1 [x] sample_tm usec, L\<lparr>m_buf := b\<rparr>)"
proof -
  have "tm_ok sample_tm" by (simp add: tm_ok_def sample_tm_def)
  from length_line_header [OF this assms(4,5), of 1] show ?thesis
    using log_format_fits [of L 1 sample_tm usec "[x]"] assms(1-3) by (auto simp: log_buf_ok_def log_line_def)
qed

text \<open>The first line is logged and queued, and the second call has begun.\<close>

lemma sample_first_call:
  "\<exists>b. length b = 64
     \<and> schedule (log_act (\<lambda>_. True)) [Count 1 ''a'' sample_tm 42, Format, Test_Full, Hand_Over, Flush_File, Count 1 ''b'' sample_tm 43] (log_start sample_log)
       = Some \<lparr>the_log = sample_log\<lparr>m_count := 2, m_buf := b, m_log_queue :=
             Some \<lparr>m_array = [log_line 1 ''a'' sample_tm 42], m_size = 1, m_max_size = 1, m_front = -1, m_back = 0\<rparr>\<rparr>,
           caller = Counted 1 ''b'' sample_tm 43, popped = None,
           logged = [log_line 1 ''a'' sample_tm 42, log_line 1 ''b'' sample_tm 43], overflowed = False\<rparr>"
proof -
  have tm: "tm_ok sample_tm" "tm_mday sample_tm = 6" by (simp_all add: tm_ok_def sample_tm_def)
  obtain b where b: "length b = 64"
    "log_format 1 ''a'' sample_tm 42 (sample_log\<lparr>m_count := 1\<rparr>) = Inr (log_line 1 ''a'' sample_tm 42, sample_log\<lparr>m_count := 1, m_buf := b\<rparr>)"
    using sample_format [of "sample_log\<lparr>m_count := 1\<rparr>" "CHR ''a''" 42] by (auto simp: sample_log_def)
  have rot: "log_rotate (\<lambda>_. True) sample_tm sample_log = Inr (sample_log\<lparr>m_count := 1\<rparr>)"
    by (simp add: log_rotate_def sample_log_def Log_new_def tm(2) Let_def)
  let ?q = "\<lparr>m_array = [log_line 1 ''a'' sample_tm 42], m_size = 1, m_max_size = 1, m_front = -1, m_back = 0\<rparr>"
  have push: "queue_open (sample_log\<lparr>m_count := 1, m_buf := b\<rparr>)"
    "log_push (log_line 1 ''a'' sample_tm 42) (sample_log\<lparr>m_count := 1, m_buf := b\<rparr>) = Inr (sample_log\<lparr>m_count := 1, m_buf := b, m_log_queue := Some ?q\<rparr>)"
    by (simp_all add: sample_log_def queue_open_def full_def log_push_def push_def store_def)
  have fl: "flush (sample_log\<lparr>m_count := 1, m_buf := b, m_log_queue := Some ?q\<rparr>) = sample_log\<lparr>m_count := 1, m_buf := b, m_log_queue := Some ?q\<rparr>"
    by (simp add: flush_def sample_log_def Log_new_def)
  have rot2: "log_rotate (\<lambda>_. True) sample_tm (sample_log\<lparr>m_count := 1, m_buf := b, m_log_queue := Some ?q\<rparr>)
      = Inr (sample_log\<lparr>m_count := 2, m_buf := b, m_log_queue := Some ?q\<rparr>)"
    by (simp add: log_rotate_def sample_log_def Log_new_def tm(2) Let_def)
  show ?thesis
    using tm(1) b rot push fl rot2 by (intro exI [of _ b]) (simp add: log_act_def section_defs log_start_def)
qed

theorem log_conserves_lines_witness:
  "\<exists>s. schedule (log_act (\<lambda>_. True)) sample_calls (log_start sample_log) = Some s
     \<and> put_lines (the_log s) @ in_hand s @ queued (the_log s) @ in_call s = [log_line 1 ''a'' sample_tm 42, log_line 1 ''b'' sample_tm 43]"
proof -
  let ?lines = "[log_line 1 ''a'' sample_tm 42, log_line 1 ''b'' sample_tm 43]"
  let ?s = "\<lambda>b. \<lparr>the_log = sample_log\<lparr>m_count := 2, m_buf := b, m_log_queue :=
          Some \<lparr>m_array = [log_line 1 ''a'' sample_tm 42], m_size = 1, m_max_size = 1, m_front = -1, m_back = 0\<rparr>\<rparr>,
        caller = Counted 1 ''b'' sample_tm 43, popped = None, logged = ?lines, overflowed = False\<rparr>"
  obtain b where b: "schedule (log_act (\<lambda>_. True))
      [Count 1 ''a'' sample_tm 42, Format, Test_Full, Hand_Over, Flush_File, Count 1 ''b'' sample_tm 43] (log_start sample_log) = Some (?s b)"
    using sample_first_call by blast
  have "\<exists>s. schedule (log_act (\<lambda>_. True)) [Pop_Line, Put_Popped] (?s b) = Some s \<and> \<not> overflowed s \<and> logged s = ?lines"
    by (simp add: log_act_def section_defs sample_log_def put_line_def take_front_def load_def)
  moreover have "schedule (log_act (\<lambda>_. True)) sample_calls (log_start sample_log) = schedule (log_act (\<lambda>_. True)) [Pop_Line, Put_Popped] (?s b)"
    unfolding sample_calls_def schedule_append b by simp
  ultimately obtain s where s: "schedule (log_act (\<lambda>_. True)) sample_calls (log_start sample_log) = Some s" "\<not> overflowed s" "logged s = ?lines"
    by auto
  have L: "m_fp sample_log \<noteq> None" "int (length (m_buf sample_log)) = m_log_buf_size sample_log" "m_log_buf_size sample_log < 2 ^ 31"
    "c_string (dir_name sample_log) 0 \<noteq> None" "c_string (log_name sample_log) 0 \<noteq> None" "put_lines sample_log = []" "queued sample_log = []"
    by (simp_all add: sample_log_def Log_new_def put_lines_def queued_def queue_list_def c_string_def numeral_eq_Suc)
  have q: "m_is_async sample_log \<longrightarrow> (\<exists>q. m_log_queue sample_log = Some q \<and> queue_inv q)"
    by (simp add: sample_log_def queue_inv_def)
  from log_conserves_lines [OF L(1) q L(2-5) schedule_reach [OF s(1)]] show ?thesis using s L(6,7) by auto
qed

lemma drain_all:
  "m_log_queue (the_log s) = Some q \<Longrightarrow> queue_inv q \<Longrightarrow> m_fp (the_log s) \<noteq> None \<Longrightarrow> m_is_async (the_log s) \<Longrightarrow> popped s = None \<Longrightarrow>
   \<exists>s'. schedule (log_act can_open) (concat (replicate (length (queue_list q)) [Pop_Line, Put_Popped])) s = Some s'
     \<and> put_lines (the_log s') = put_lines (the_log s) @ queue_list q"
proof (induction "queue_list q" arbitrary: q s)
  case Nil
  then show ?case using Nil.hyps [symmetric] by simp
next
  case (Cons x xs)
  obtain f where f: "m_fp (the_log s) = Some f" using Cons.prems(3) by blast
  obtain q' where q': "pop q [] = Inr (PopItem x q')" "queue_inv q'" "queue_list q' = xs"
    using pop_ready [OF Cons.prems(2)] Cons.hyps(2) [symmetric] by auto
  let ?s = "s\<lparr>the_log := (the_log s)\<lparr>m_log_queue := Some q', out := out (the_log s) @ [(f, x)]\<rparr>, popped := None\<rparr>"
  have "schedule (log_act can_open) [Pop_Line, Put_Popped] s = Some ?s"
    using Cons.prems(1,4,5) q'(1) f by (simp add: log_act_def section_defs put_line_def)
  moreover obtain s' where "schedule (log_act can_open) (concat (replicate (length xs) [Pop_Line, Put_Popped])) ?s = Some s'"
    "put_lines (the_log s') = put_lines (the_log ?s) @ xs"
    using Cons.hyps(1) [OF q'(3) [symmetric], of ?s] q'(2,3) Cons.prems(3,4) by auto
  ultimately show ?case
    using schedule_append [of "log_act can_open" "[Pop_Line, Put_Popped]" _ s] Cons.hyps(2) [symmetric] by (simp add: put_lines_def)
qed

text \<open>
  A full queue reorders the log. When a call of an asynchronous log finds the queue full, its line goes
  straight to the file: after the writing thread has caught up, it stands before every older line that was queued.
\<close>

theorem log_overflow_reorders:
  assumes "m_fp L \<noteq> None" "m_is_async L" "m_log_queue L = Some q" "queue_inv q" "full q"
    and "the_log s = L" "caller s = Formatted line" "popped s = None"
  shows "\<exists>s'. schedule (log_act can_open) ([Test_Full, Hand_Over] @ concat (replicate (length (queue_list q)) [Pop_Line, Put_Popped])) s = Some s'
    \<and> put_lines (the_log s') = put_lines L @ [line] @ queue_list q"
proof -
  obtain f where f: "m_fp L = Some f" using assms(1) by blast
  let ?s = "s\<lparr>caller := Handed, overflowed := True, the_log := L\<lparr>out := out L @ [(f, line)]\<rparr>\<rparr>"
  have "schedule (log_act can_open) [Test_Full, Hand_Over] s = Some ?s"
    using assms f by (simp add: log_act_def section_defs queue_open_def put_line_def)
  moreover obtain s' where "schedule (log_act can_open) (concat (replicate (length (queue_list q)) [Pop_Line, Put_Popped])) ?s = Some s'"
    "put_lines (the_log s') = put_lines (the_log ?s) @ queue_list q"
    using drain_all [of ?s q] assms by auto
  ultimately show ?thesis by (simp only: schedule_append) (simp add: put_lines_def)
qed

theorem log_overflow_reorders_witness:
  "\<exists>s s'. schedule (log_act (\<lambda>_. True)) [Count 1 ''a'' sample_tm 42, Format, Test_Full, Hand_Over, Flush_File, Count 1 ''b'' sample_tm 43, Format]
       (log_start sample_log) = Some s
     \<and> schedule (log_act (\<lambda>_. True)) [Test_Full, Hand_Over, Pop_Line, Put_Popped] s = Some s'
     \<and> put_lines (the_log s') = [log_line 1 ''b'' sample_tm 43, log_line 1 ''a'' sample_tm 42]"
proof -
  let ?as = "[Count 1 ''a'' sample_tm 42, Format, Test_Full, Hand_Over, Flush_File, Count 1 ''b'' sample_tm 43]"
  let ?q = "\<lparr>m_array = [log_line 1 ''a'' sample_tm 42], m_size = 1, m_max_size = 1, m_front = -1, m_back = 0\<rparr>"
  obtain b where b: "length b = 64" "schedule (log_act (\<lambda>_. True)) ?as (log_start sample_log)
    = Some \<lparr>the_log = sample_log\<lparr>m_count := 2, m_buf := b, m_log_queue := Some ?q\<rparr>,
        caller = Counted 1 ''b'' sample_tm 43, popped = None,
        logged = [log_line 1 ''a'' sample_tm 42, log_line 1 ''b'' sample_tm 43], overflowed = False\<rparr>"
    using sample_first_call by blast
  obtain b' where b': "log_format 1 ''b'' sample_tm 43 (sample_log\<lparr>m_count := 2, m_buf := b, m_log_queue := Some ?q\<rparr>)
      = Inr (log_line 1 ''b'' sample_tm 43, sample_log\<lparr>m_count := 2, m_log_queue := Some ?q, m_buf := b'\<rparr>)"
    using sample_format [of "sample_log\<lparr>m_count := 2, m_buf := b, m_log_queue := Some ?q\<rparr>" "CHR ''b''" 43] b(1) by (auto simp: sample_log_def)
  let ?s = "\<lparr>the_log = sample_log\<lparr>m_count := 2, m_log_queue := Some ?q, m_buf := b'\<rparr>, caller = Formatted (log_line 1 ''b'' sample_tm 43),
      popped = None, logged = [log_line 1 ''a'' sample_tm 42, log_line 1 ''b'' sample_tm 43], overflowed = False\<rparr>"
  have "schedule (log_act (\<lambda>_. True)) (?as @ [Format]) (log_start sample_log) = Some ?s"
    unfolding schedule_append b(2) using b' by (simp add: log_act_def format_section_def)
  then obtain s where s: "schedule (log_act (\<lambda>_. True)) (?as @ [Format]) (log_start sample_log) = Some s"
    "m_fp (the_log s) \<noteq> None" "m_is_async (the_log s)" "m_log_queue (the_log s) = Some ?q" "out (the_log s) = []"
    "caller s = Formatted (log_line 1 ''b'' sample_tm 43)" "popped s = None"
    by (simp add: sample_log_def Log_new_def)
  have q: "queue_inv ?q" "full ?q" "queue_list ?q = [log_line 1 ''a'' sample_tm 42]"
    by (simp_all add: queue_inv_def full_def queue_list_def)
  from log_overflow_reorders [where can_open = "\<lambda>_. True", OF s(2-4) q(1,2) refl s(6,7)]
  show ?thesis using s(1,5) unfolding q(3) by (auto simp: put_lines_def)
qed

text \<open>
  C32. Two logging threads can lose a line. \<open>write_log\<close> tests \<open>full()\<close> and calls \<open>push\<close> in two separate
  critical sections and ignores the result of \<open>push\<close>: when one slot is free, both threads pass the test,
  the first line takes the slot, and the second is in no file and not in the queue.
\<close>

theorem log_race_loses_line:
  assumes "m_is_async L" "m_log_queue L = Some q" "queue_inv q" "m_size q + 1 = m_max_size q"
  shows "queue_open L \<and> (\<exists>L1 L2. log_push line1 L = Inr L1 \<and> log_push line2 L1 = Inr L2
    \<and> queued L2 = queued L @ [line1] \<and> out L2 = out L)"
proof -
  have room: "m_size q < m_max_size q" using assms(4) by simp
  obtain q' where q': "push q line1 = Inr \<lparr>pushed = True, broadcast = True, after_push = q'\<rparr>"
    "queue_inv q'" "queue_list q' = queue_list q @ [line1]" "m_max_size q' = m_max_size q"
    using push_room [OF assms(3) room] by blast
  have "nat (m_size q') = nat (m_size q) + 1" using q'(3) by (metis length_append_singleton length_queue_list Suc_eq_plus1)
  then have "m_max_size q' \<le> m_size q'" using q'(2,4) assms(3,4) by (auto simp: queue_inv_def)
  then have "push q' line2 = Inr \<lparr>pushed = False, broadcast = True, after_push = q'\<rparr>" by (rule push_full)
  then show ?thesis
    using assms(1,2) q'(1,3) room by (auto simp: queue_open_def full_def log_push_def queued_def)
qed

theorem log_race_loses_line_witness:
  "\<exists>L1 L2. queue_open sample_log \<and> log_push ''a'' sample_log = Inr L1 \<and> log_push ''b'' L1 = Inr L2
     \<and> queued L2 = [''a''] \<and> out L2 = []"
proof -
  have "queued sample_log = []" "out sample_log = []"
    by (simp_all add: sample_log_def queued_def queue_list_def Log_new_def)
  moreover have "queue_inv \<lparr>m_array = [[]], m_size = 0, m_max_size = 1, m_front = -1, m_back = -1\<rparr>"
    by (simp add: queue_inv_def)
  ultimately show ?thesis
    using log_race_loses_line [of sample_log "\<lparr>m_array = [[]], m_size = 0, m_max_size = 1, m_front = -1, m_back = -1\<rparr>" "''a''" "''b''"]
    by (simp add: sample_log_def)
qed

section \<open>Which file a line goes to\<close>

text \<open>The \<open>k\<close>-th file of a day.\<close>

definition log_file :: "string \<Rightarrow> tm \<Rightarrow> string \<Rightarrow> int \<Rightarrow> string" where
  "log_file d t l k = snprintf_str 255 (d @ date_prefix t @ l @ (if k = 0 then [] else ''.'' @ fmt_d k))"

lemma fmt_d_inj: "0 \<le> i \<Longrightarrow> 0 \<le> j \<Longrightarrow> fmt_d i = fmt_d j \<longleftrightarrow> i = j"
  by (auto simp: fmt_d_def dec_inj)

lemma log_file_inj:
  assumes "0 \<le> i" "0 \<le> j" "length (d @ date_prefix t @ l @ ''.'' @ fmt_d i) \<le> 254"
    "length (d @ date_prefix t @ l @ ''.'' @ fmt_d j) \<le> 254" "log_file d t l i = log_file d t l j"
  shows "i = j"
  using assms by (auto simp: log_file_def snprintf_str_def fmt_d_inj split: if_splits)

definition log_named :: "string \<Rightarrow> string \<Rightarrow> Log \<Rightarrow> bool" where
  "log_named d l L \<longleftrightarrow> c_string (dir_name L) 0 = Some d \<and> c_string (log_name L) 0 = Some l"

lemma date_prefix_whole: "tm_ok t \<Longrightarrow> snprintf_str 16 (date_prefix t) = date_prefix t"
  using length_date_prefix [of t] by (simp add: snprintf_str_def)

lemma split_index:
  fixes c s :: int
  assumes "0 \<le> c" "0 < s"
  shows "(c + 1) mod s \<noteq> 0 \<Longrightarrow> c div s = (c + 1) div s"
    and "(c + 1) mod s = 0 \<Longrightarrow> (c + 1) div s \<noteq> 0"
proof -
  assume "(c + 1) mod s \<noteq> 0"
  then have "0 \<le> (c + 1) mod s - 1" "(c + 1) mod s - 1 < s"
    using pos_mod_sign [OF assms(2), of "c + 1"] pos_mod_bound [OF assms(2), of "c + 1"] by linarith+
  moreover have "c = s * ((c + 1) div s) + ((c + 1) mod s - 1)"
    using mult_div_mod_eq [of s "c + 1"] by linarith
  ultimately show "c div s = (c + 1) div s" by (metis int_div_pos_eq)
next
  show "(c + 1) mod s = 0 \<Longrightarrow> (c + 1) div s \<noteq> 0"
    using assms mult_div_mod_eq [of s "c + 1"] by auto
qed

text \<open>
  The log stands where it should: its buffer and names are in order, it counts the lines of the day of \<open>t\<close>, and the
  stream is the file of that day the count belongs to.
\<close>

definition log_at :: "string \<Rightarrow> string \<Rightarrow> tm \<Rightarrow> Log \<Rightarrow> bool" where
  "log_at d l t L \<longleftrightarrow> log_buf_ok L \<and> log_named d l L \<and> m_today L = tm_mday t \<and> 0 < m_split_lines L \<and> 0 \<le> m_count L
     \<and> \<not> m_is_async L \<and> m_fp L = Some (log_file d t l (m_count L div m_split_lines L))"

definition same_date :: "tm \<Rightarrow> tm \<Rightarrow> bool" where
  "same_date t t' \<longleftrightarrow> tm_year t = tm_year t' \<and> tm_mon t = tm_mon t' \<and> tm_mday t = tm_mday t'"

lemma log_file_same_date: "same_date t t' \<Longrightarrow> log_file d t l k = log_file d t' l k"
  by (simp add: log_file_def date_prefix_def same_date_def)

text \<open>The number a call gives its line: the next one, or 0 when the day has changed.\<close>

definition next_number :: "int \<Rightarrow> int \<Rightarrow> tm \<Rightarrow> int" where
  "next_number today k t = (if tm_mday t = today then k + 1 else 0)"

lemma log_rotate_at:
  assumes opens: "\<forall>t k. can_open (log_file d t l k)" and L: "log_at d l t0 L" and t: "tm_ok t" "tm_mday t = tm_mday t0 \<longrightarrow> same_date t t0"
  defines "n \<equiv> next_number (m_today L) (m_count L) t"
  shows "\<exists>fl. log_rotate can_open t L
    = Inr (L\<lparr>m_count := n, m_today := tm_mday t, m_fp := Some (log_file d t l (n div m_split_lines L)), flushed := fl\<rparr>)"
proof -
  have at: "log_named d l L" "m_today L = tm_mday t0" "0 < m_split_lines L" "0 \<le> m_count L"
    "m_fp L = Some (log_file d t0 l (m_count L div m_split_lines L))" using L by (simp_all add: log_at_def)
  have can: "can_open f" if "f = log_file d t l k" for f k using opens that by simp
  note unfolds = log_rotate_def Let_def close_log_def flush_def rotate_name_def open_log_def next_number_def date_prefix_whole [OF t(1)]
  consider "tm_mday t \<noteq> m_today L" | "tm_mday t = m_today L" "(m_count L + 1) mod m_split_lines L \<noteq> 0"
    | "tm_mday t = m_today L" "(m_count L + 1) mod m_split_lines L = 0" by metis
  then show ?thesis
  proof cases
    case 1
    have "log_file d t l 0 = snprintf_str 255 (d @ date_prefix t @ l)" by (simp add: log_file_def)
    then show ?thesis using 1 at can [of _ 0] by (intro exI [of _ "length (out L)"]) (simp add: unfolds n_def log_named_def)
  next
    case 2
    have "log_file d t0 l (m_count L div m_split_lines L) = log_file d t l ((m_count L + 1) div m_split_lines L)"
      using log_file_same_date [of t t0] split_index(1) [OF at(4,3) 2(2)] 2(1) t(2) at(2) by simp
    then show ?thesis using 2 at by (intro exI [of _ "flushed L"]) (simp add: unfolds n_def)
  next
    case 3
    have f: "log_file d t l ((m_count L + 1) div m_split_lines L) =
        snprintf_str 255 (d @ date_prefix t @ l @ ''.'' @ fmt_d ((m_count L + 1) div m_split_lines L))"
      using split_index(2) [OF at(4,3) 3(2)] by (simp add: log_file_def)
    then show ?thesis using 3 at can [of _ "(m_count L + 1) div m_split_lines L"]
      by (intro exI [of _ "length (out L)"]) (simp add: unfolds n_def log_named_def)
  qed
qed

text \<open>
  A sequence of calls, each with its level, message and clock reading, without the writing thread. The readings are sensible, and two calls in
  succession that agree in the day of the month agree in month and year.
\<close>

type_synonym log_call = "int \<times> string \<times> tm \<times> int"

fun write_all :: "(string \<Rightarrow> bool) \<Rightarrow> log_call list \<Rightarrow> Log \<Rightarrow> cpp_error + Log" where
  "write_all can_open [] L = Inr L"
| "write_all can_open ((level, msg, t, usec) # calls) L =
     (case write_log can_open level msg t usec L of Inl e \<Rightarrow> Inl e | Inr L \<Rightarrow> write_all can_open calls L)"

fun dated :: "tm \<Rightarrow> log_call list \<Rightarrow> bool" where
  "dated t0 [] = True"
| "dated t0 ((level, msg, t, usec) # calls) =
     (tm_ok t \<and> 0 \<le> usec \<and> usec < 1000000 \<and> (tm_mday t = tm_mday t0 \<longrightarrow> same_date t t0) \<and> dated t calls)"

text \<open>Where each line belongs: numbers that start again at 0 with each day, and the file by number.\<close>

fun placed :: "string \<Rightarrow> string \<Rightarrow> int \<Rightarrow> int \<Rightarrow> int \<Rightarrow> log_call list \<Rightarrow> (string \<times> string) list" where
  "placed d l split today k [] = []"
| "placed d l split today k ((level, msg, t, usec) # calls) =
     (let n = next_number today k t in
      (log_file d t l (n div split), line_header level t usec @ msg @ [LF]) # placed d l split (tm_mday t) n calls)"

fun last_call :: "tm \<Rightarrow> int \<Rightarrow> log_call list \<Rightarrow> tm \<times> int" where
  "last_call t0 k [] = (t0, k)"
| "last_call t0 k ((level, msg, t, usec) # calls) = last_call t (next_number (tm_mday t0) k t) calls"

lemma write_log_at:
  assumes opens: "\<forall>t k. can_open (log_file d t l k)" and L: "log_at d l t0 L"
    and t: "tm_ok t" "tm_mday t = tm_mday t0 \<longrightarrow> same_date t t0" and u: "0 \<le> usec" "usec < 1000000"
    and msg: "NUL \<notin> set msg" "int (length msg) + 38 \<le> m_log_buf_size L"
  defines "n \<equiv> next_number (m_today L) (m_count L) t"
  shows "\<exists>L'. write_log can_open level msg t usec L = Inr L' \<and> log_at d l t L' \<and> m_count L' = n
    \<and> m_split_lines L' = m_split_lines L \<and> m_log_buf_size L' = m_log_buf_size L
    \<and> out L' = out L @ [(log_file d t l (n div m_split_lines L), line_header level t usec @ msg @ [LF])]"
proof -
  let ?f = "log_file d t l (n div m_split_lines L)" and ?line = "line_header level t usec @ msg @ [LF]"
  obtain fl where 1: "log_rotate can_open t L = Inr (L\<lparr>m_count := n, m_today := tm_mday t, m_fp := Some ?f, flushed := fl\<rparr>)"
    using log_rotate_at [OF opens L t] by (auto simp: n_def)
  let ?L1 = "L\<lparr>m_count := n, m_today := tm_mday t, m_fp := Some ?f, flushed := fl\<rparr>"
  have at: "log_buf_ok L" "log_named d l L" "0 < m_split_lines L" "0 \<le> m_count L" "\<not> m_is_async L"
    using L by (simp_all add: log_at_def)
  have h: "length (line_header level t usec) \<le> 36" by (rule length_line_header [OF t(1) u])
  then obtain b where 2: "log_format level msg t usec ?L1 = Inr (?line, ?L1\<lparr>m_buf := b\<rparr>)" "length b = length (m_buf L)"
    using log_format_fits [of ?L1 level t usec msg] msg at(1) by (auto simp: log_buf_ok_def)
  have "0 \<le> n" using at(4) by (simp add: n_def next_number_def)
  then have "log_at d l t (?L1\<lparr>m_buf := b, out := out L @ [(?f, ?line)]\<rparr>)"
    using at 2(2) by (simp add: log_at_def log_buf_ok_def log_named_def)
  then show ?thesis using 1 2(1) at(5) by (simp add: write_log_def log_emit_def queue_open_def put_line_def)
qed

lemma write_all_at:
  assumes opens: "\<forall>t k. can_open (log_file d t l k)"
  shows "log_at d l t0 L \<Longrightarrow> dated t0 calls \<Longrightarrow>
    (\<forall>(level, msg, t, usec) \<in> set calls. NUL \<notin> set msg \<and> int (length msg) + 38 \<le> m_log_buf_size L) \<Longrightarrow>
    \<exists>L'. write_all can_open calls L = Inr L' \<and> out L' = out L @ placed d l (m_split_lines L) (m_today L) (m_count L) calls
      \<and> log_at d l (fst (last_call t0 (m_count L) calls)) L' \<and> m_count L' = snd (last_call t0 (m_count L) calls)
      \<and> m_split_lines L' = m_split_lines L \<and> m_log_buf_size L' = m_log_buf_size L"
proof (induction calls arbitrary: L t0)
  case Nil
  then show ?case by simp
next
  case (Cons c calls)
  obtain level msg t usec where c: "c = (level, msg, t, usec)" by (cases c)
  let ?n = "next_number (m_today L) (m_count L) t"
  have today: "m_today L = tm_mday t0" using Cons.prems(1) by (simp add: log_at_def)
  obtain L1 where 1: "write_log can_open level msg t usec L = Inr L1" "log_at d l t L1" "m_count L1 = ?n"
    "m_split_lines L1 = m_split_lines L" "m_log_buf_size L1 = m_log_buf_size L"
    "out L1 = out L @ [(log_file d t l (?n div m_split_lines L), line_header level t usec @ msg @ [LF])]"
    using write_log_at [OF opens Cons.prems(1), of t usec msg level] Cons.prems(2,3) c by auto
  moreover have "m_today L1 = tm_mday t" using 1(2) by (simp add: log_at_def)
  moreover obtain L' where "write_all can_open calls L1 = Inr L'"
    "out L' = out L1 @ placed d l (m_split_lines L1) (m_today L1) (m_count L1) calls"
    "log_at d l (fst (last_call t (m_count L1) calls)) L'" "m_count L' = snd (last_call t (m_count L1) calls)"
    "m_split_lines L' = m_split_lines L1" "m_log_buf_size L' = m_log_buf_size L1"
    using Cons.IH [OF 1(2)] Cons.prems(2,3) c 1(5) by auto
  ultimately show ?case using c today by (simp add: Let_def)
qed

text \<open>
  C20. Splitting by days and by number of lines. A synchronous log whose files can be opened is called any number of times, each time with its own
  level, message and time; the clock is sensible and calls in succession on the same day of the month are in the same month. Each line gets
  the number after the one before it, or 0 when the day has changed, and goes into file \<open>n div m_split_lines\<close> of its day, \<open>n\<close> its number: the
  one without a suffix when that is 0 and the one with the suffix \<open>.k\<close> otherwise. Every message that fits arrives whole, in order, and the log is afterwards
  where it was before, for the day and number of the last call, so that the statement applies again.
\<close>

theorem log_splits_by_lines:
  assumes "\<forall>t k. can_open (log_file d t l k)" "log_at d l t0 L" "dated t0 calls"
    and "\<forall>(level, msg, t, usec) \<in> set calls. NUL \<notin> set msg \<and> int (length msg) + 38 \<le> m_log_buf_size L"
  shows "\<exists>L'. write_all can_open calls L = Inr L' \<and> out L' = out L @ placed d l (m_split_lines L) (m_today L) (m_count L) calls
    \<and> log_at d l (fst (last_call t0 (m_count L) calls)) L' \<and> m_count L' = snd (last_call t0 (m_count L) calls)
    \<and> m_split_lines L' = m_split_lines L \<and> m_log_buf_size L' = m_log_buf_size L"
  using write_all_at [OF assms] .

definition sample_file_log :: Log where
  "sample_file_log = Log_new\<lparr>dir_name := ''./'' @ replicate 126 NUL, log_name := ''x'' @ replicate 127 NUL, m_split_lines := 2,
     m_log_buf_size := 64, m_buf := replicate 64 NUL, m_today := 6, m_fp := Some (log_file ''./'' sample_tm ''x'' 0)\<rparr>"

lemma c_string_padded: "NUL \<notin> set s \<Longrightarrow> 0 < n \<Longrightarrow> c_string (s @ replicate n NUL) 0 = Some s"
  using c_string_from_term [of s "replicate (n - 1) NUL"] by (cases n) (simp_all add: c_string_def)

lemma sample_file_log_at: "log_at ''./'' ''x'' sample_tm sample_file_log"
proof -
  have "c_string (dir_name sample_file_log) 0 = Some ''./''" "c_string (log_name sample_file_log) 0 = Some ''x''"
    using c_string_padded [of "''./''" 126] c_string_padded [of "''x''" 127] by (simp_all add: sample_file_log_def)
  then show ?thesis
    by (simp add: log_at_def log_named_def log_buf_ok_def sample_file_log_def Log_new_def sample_tm_def)
qed

theorem log_splits_by_lines_witness:
  "\<exists>L'. write_all (\<lambda>_. True) [(1, ''a'', sample_tm, 42), (3, ''b'', sample_tm\<lparr>tm_sec := 10\<rparr>, 7), (1, ''c'', sample_tm\<lparr>tm_mday := 7\<rparr>, 0)]
       sample_file_log = Inr L' \<and> out L' =
     [(''./2024_05_06_x'', ''2024-05-06 07:08:09.000042 [info]: a'' @ [LF]),
      (''./2024_05_06_x.1'', ''2024-05-06 07:08:10.000007 [erro]: b'' @ [LF]),
      (''./2024_05_07_x'', ''2024-05-07 07:08:09.000000 [info]: c'' @ [LF])] \<and> m_count L' = 0"
proof -
  let ?calls = "[(1, ''a'', sample_tm, 42), (3, ''b'', sample_tm\<lparr>tm_sec := 10\<rparr>, 7), (1, ''c'', sample_tm\<lparr>tm_mday := 7\<rparr>, 0)] :: log_call list"
  have "dated sample_tm ?calls" by (simp add: tm_ok_def sample_tm_def same_date_def)
  moreover have "placed ''./'' ''x'' 2 6 0 ?calls =
     [(''./2024_05_06_x'', ''2024-05-06 07:08:09.000042 [info]: a'' @ [LF]),
      (''./2024_05_06_x.1'', ''2024-05-06 07:08:10.000007 [erro]: b'' @ [LF]),
      (''./2024_05_07_x'', ''2024-05-07 07:08:09.000000 [info]: c'' @ [LF])]"
    by code_simp
  moreover have "snd (last_call sample_tm 0 ?calls) = 0" by (simp add: next_number_def sample_tm_def)
  moreover have "m_split_lines sample_file_log = 2" "m_today sample_file_log = 6" "m_count sample_file_log = 0" "out sample_file_log = []"
    "m_log_buf_size sample_file_log = 64" by (simp_all add: sample_file_log_def Log_new_def)
  ultimately show ?thesis
    using log_splits_by_lines [OF _ sample_file_log_at, of "\<lambda>_. True" ?calls] by auto
qed

section \<open>The name of the log file\<close>

lemma mem_write_zeros:
  "length s \<le> n \<Longrightarrow> mem_write (replicate n NUL) 0 s = Some (s @ replicate (n - length s) NUL)"
  by (simp add: mem_write_def)

lemma init_names_directory:
  assumes "dir_name L = replicate 128 NUL" "log_name L = replicate 128 NUL"
    and "NUL \<notin> set dir" "NUL \<notin> set name" "CHR ''/'' \<notin> set name"
  shows "init_names (dir @ ''/'' @ name) t L =
    (if length dir < 127 \<and> length name < 128
     then Inr (log_file (dir @ ''/'') t name 0,
        L\<lparr>log_name := name @ replicate (128 - length name) NUL, dir_name := (dir @ ''/'') @ replicate (127 - length dir) NUL\<rparr>)
     else Inl UndefinedBehaviour)"
proof -
  have p: "strrchr (dir @ ''/'' @ name) (CHR ''/'') = Some (length dir)"
    using strrchr_split [OF assms(5), of dir] by simp
  have d: "take (length dir + 1) (dir @ ''/'' @ name) = dir @ ''/''" "drop (length dir + 1) (dir @ ''/'' @ name) = name"
    by simp_all
  consider "128 \<le> length name" | "length name < 128" "128 \<le> length dir" | "length name < 128" "length dir = 127"
    | "length name < 128" "length dir < 127" by linarith
  then show ?thesis
  proof cases
    case 1
    then show ?thesis unfolding init_names_def p d option.case using assms(2) by (simp add: strcpy_def mem_write_def)
  next
    case 2
    then show ?thesis unfolding init_names_def p d option.case strncpy_def strcpy_def using assms(1)
      by (simp add: mem_write_def split: option.splits)
  next
    case 3
    have "c_string_from s = None" if "NUL \<notin> set s" for s using that by (induction s) auto
    then have "c_string (dir @ ''/'') 0 = None" using assms(3) by (simp add: c_string_def)
    then show ?thesis using 3 unfolding init_names_def p d option.case strncpy_def strcpy_def using assms(1)
      by (simp add: mem_write_def split: option.splits)
  next
    case 4
    have ln: "mem_write (log_name L) 0 (name @ [NUL]) = Some (name @ replicate (128 - length name) NUL)"
      using 4 assms(2) by (simp add: mem_write_def Suc_diff_Suc replicate_app_Cons_same flip: replicate_Suc)
    have dn: "mem_write (dir_name L) 0 (dir @ ''/'') = Some ((dir @ ''/'') @ replicate (127 - length dir) NUL)"
      using 4 assms(1) by (simp add: mem_write_def)
    have "c_string ((dir @ ''/'') @ replicate (127 - length dir) NUL) 0 = Some (dir @ ''/'')"
      "c_string (name @ replicate (128 - length name) NUL) 0 = Some name"
      using 4 assms(3,4) by (intro c_string_padded; simp)+
    then show ?thesis using 4 unfolding init_names_def p d option.case strncpy_def strcpy_def ln dn
      by (simp add: log_file_def)
  qed
qed

lemma init_queue_new:
  "\<exists>L0. init_queue n Log_new = Inr L0 \<and> m_is_async L0 = (n \<ge> 1) \<and> dir_name L0 = replicate 128 NUL
    \<and> log_name L0 = replicate 128 NUL \<and> m_count L0 = 0
    \<and> (m_is_async L0 \<longrightarrow> (\<exists>q. m_log_queue L0 = Some q \<and> queue_inv q \<and> queue_list q = [] \<and> m_max_size q = n))"
proof (cases "n \<ge> 1")
  case True
  then obtain q :: "string block_queue" where q: "block_queue_new [] n = Inr q" "m_max_size q = n" by (simp add: block_queue_new_def)
  then show ?thesis using True queue_inv_new [OF q(1)] by (simp add: init_queue_def Log_new_def)
next
  case False
  then show ?thesis by (simp add: init_queue_def Log_new_def)
qed

text \<open>
  C33. Opening the log under a path with a directory. A first \<open>init\<close> with \<open>dir/name\<close> opens the file
  of the day in that directory and reports whether that worked, when the directory with its slash and
  the name each leave room for a terminator in their 128 bytes; the log then counts from 0, knows both names for the next
  rotation, has a zeroed buffer of the requested size and, exactly if a queue length was given, a queue and the asynchronous mode. A
  longer name or directory overruns its array.
\<close>

theorem log_init_spec:
  assumes "NUL \<notin> set dir" "NUL \<notin> set name" "CHR ''/'' \<notin> set name" "0 \<le> log_buf_size"
  shows "if length dir < 127 \<and> length name < 128
    then \<exists>L. init can_open (dir @ ''/'' @ name) cl log_buf_size split_lines max_queue_size t Log_new =
          Inr (can_open (log_file (dir @ ''/'') t name 0), L)
      \<and> m_fp L = (if can_open (log_file (dir @ ''/'') t name 0) then Some (log_file (dir @ ''/'') t name 0) else None)
      \<and> c_string (dir_name L) 0 = Some (dir @ ''/'') \<and> c_string (log_name L) 0 = Some name
      \<and> m_today L = tm_mday t \<and> m_count L = 0 \<and> m_split_lines L = split_lines
      \<and> m_log_buf_size L = log_buf_size \<and> m_buf L = replicate (nat log_buf_size) NUL
      \<and> m_is_async L = (max_queue_size \<ge> 1)
      \<and> (m_is_async L \<longrightarrow> (\<exists>q. m_log_queue L = Some q \<and> queue_inv q \<and> queue_list q = [] \<and> m_max_size q = max_queue_size))
    else init can_open (dir @ ''/'' @ name) cl log_buf_size split_lines max_queue_size t Log_new = Inl UndefinedBehaviour"
proof -
  obtain L0 where L0: "init_queue max_queue_size Log_new = Inr L0"
    "m_is_async L0 = (max_queue_size \<ge> 1)" "dir_name L0 = replicate 128 NUL" "log_name L0 = replicate 128 NUL" "m_count L0 = 0"
    "m_is_async L0 \<longrightarrow> (\<exists>q. m_log_queue L0 = Some q \<and> queue_inv q \<and> queue_list q = [] \<and> m_max_size q = max_queue_size)"
    using init_queue_new by blast
  let ?L1 = "L0\<lparr>m_close_log := cl, m_log_buf_size := log_buf_size,
      m_buf := replicate (nat log_buf_size) NUL, m_split_lines := split_lines\<rparr>"
  have names: "init_names (dir @ ''/'' @ name) t ?L1 =
    (if length dir < 127 \<and> length name < 128
     then Inr (log_file (dir @ ''/'') t name 0,
        ?L1\<lparr>log_name := name @ replicate (128 - length name) NUL, dir_name := (dir @ ''/'') @ replicate (127 - length dir) NUL\<rparr>)
     else Inl UndefinedBehaviour)"
    using L0(3,4) assms(1-3) by (intro init_names_directory) simp_all
  have "c_string ((dir @ ''/'') @ replicate (127 - length dir) NUL) 0 = Some (dir @ ''/'')"
      "c_string (name @ replicate (128 - length name) NUL) 0 = Some name" if "length dir < 127" "length name < 128"
    using that assms(1,2) by (intro c_string_padded; simp)+
  then show ?thesis
    using assms(4) L0(2,5,6) names unfolding init_def L0(1) sum.case Let_def by (simp add: open_log_def)
qed

theorem log_init_spec_witness:
  "\<exists>L. init (\<lambda>_. True) ''./x'' 0 64 2 0 sample_tm Log_new = Inr (True, L) \<and> m_fp L = Some ''./2024_05_06_x''"
proof -
  have "log_file ''./'' sample_tm ''x'' 0 = ''./2024_05_06_x''" by code_simp
  then show ?thesis using log_init_spec [of "''.''" "''x''" 64 "\<lambda>_. True" 0 2 0 sample_tm] by auto
qed

text \<open>
  A log opened without a directory forgets its name. When the path given to \<open>init\<close> has no slash,
  neither name array is set: the first file carries the name, but after the next change of day the lines go to a file
  called after the date alone, the same for every name.
\<close>

theorem log_name_forgotten:
  assumes "CHR ''/'' \<notin> set file_name" "0 \<le> log_buf_size" "tm_ok t'" "tm_mday t' \<noteq> tm_mday t"
    and "\<forall>f. can_open f"
  shows "\<exists>L. init can_open file_name cl log_buf_size split_lines max_queue_size t Log_new = Inr (True, L)
    \<and> m_fp L = Some (snprintf_str 255 (date_prefix t @ file_name))
    \<and> (\<exists>L'. log_rotate can_open t' L = Inr L' \<and> m_fp L' = Some (date_prefix t') \<and> m_count L' = 0
          \<and> m_today L' = tm_mday t')"
proof -
  obtain L0 where L0: "init_queue max_queue_size Log_new = Inr L0"
    "dir_name L0 = replicate 128 NUL" "log_name L0 = replicate 128 NUL"
    using init_queue_new by blast
  have p: "strrchr file_name (CHR ''/'') = None" using assms(1) by (simp add: strrchr_None)
  have c: "c_string (replicate 128 NUL) 0 = Some []" by (simp add: c_string_def numeral_eq_Suc)
  have d: "snprintf_str 255 (date_prefix t') = date_prefix t'"
    using length_date_prefix [OF assms(3)] by (simp add: snprintf_str_def)
  show ?thesis
    using assms(2,4,5) L0(2,3) c d
    by (simp add: init_def L0(1) init_names_def p open_log_def log_rotate_def Let_def close_log_def flush_def
        rotate_name_def date_prefix_whole [OF assms(3)])
qed

theorem log_name_forgotten_witness:
  "\<exists>L L'. init (\<lambda>_. True) ''ServerLog'' 0 64 800 0 sample_tm Log_new = Inr (True, L) \<and> m_fp L = Some ''2024_05_06_ServerLog''
     \<and> log_rotate (\<lambda>_. True) (sample_tm\<lparr>tm_mday := 7\<rparr>) L = Inr L' \<and> m_fp L' = Some ''2024_05_07_''"
proof -
  have "snprintf_str 255 (date_prefix sample_tm @ ''ServerLog'') = ''2024_05_06_ServerLog''"
    "date_prefix (sample_tm\<lparr>tm_mday := 7\<rparr>) = ''2024_05_07_''" by code_simp+
  moreover have "tm_ok (sample_tm\<lparr>tm_mday := 7\<rparr>)" by (simp add: tm_ok_def sample_tm_def)
  ultimately show ?thesis
    using log_name_forgotten [of "''ServerLog''" 64 "sample_tm\<lparr>tm_mday := 7\<rparr>" sample_tm "\<lambda>_. True" 0 800 0]
    by (auto simp: sample_tm_def)
qed

end
