(* ===== verification/Task_Pool.thy ===== *)
theory Task_Pool
  imports Fifo Interleaving
begin

text \<open>
  The growing thread pool of the algorithm notes: the classes \<open>Task\<close>, \<open>TaskQueue\<close> and \<open>ThreadPool\<close>.

  The pool is a transition system. Workers, the manager thread, any number of threads that add tasks
  and the destructor take steps in any order, one step per critical section or atomic access. The
  condition variable is modelled at the level where wake-ups can be lost: a worker that found the wait
  predicate false keeps \<open>m_mutex_pool\<close> until it sleeps, and a notification reaches only sleeping workers.
\<close>

record ('f, 'a) Task =
  task_fun :: "'f option"
  task_arg :: "'a option"

definition Task_null :: "('f, 'a) Task" where
  "Task_null = \<lparr>task_fun = None, task_arg = None\<rparr>"

section \<open>The task queue\<close>

type_synonym ('f, 'a) TaskQueue = "('f, 'a) Task list"

definition queue_add_task :: "('f, 'a) Task \<Rightarrow> ('f, 'a) TaskQueue \<Rightarrow> ('f, 'a) TaskQueue" where
  "queue_add_task task q = q @ [task]"

definition get_task :: "('f, 'a) TaskQueue \<Rightarrow> ('f, 'a) Task \<times> ('f, 'a) TaskQueue" where
  "get_task q = (case q of [] \<Rightarrow> (Task_null, []) | task # rest \<Rightarrow> (task, rest))"

definition task_size :: "('f, 'a) TaskQueue \<Rightarrow> nat" where
  "task_size q = length q"

interpretation tq: fifo "\<lambda>task q. Some (queue_add_task task q)"
    "\<lambda>q. if task_size q > 0 then Some (get_task q) else None" "\<lambda>q. q" "\<lambda>_. True" "\<lambda>_. True"
  by unfold_locales (auto simp: queue_add_task_def get_task_def task_size_def)

section \<open>The pool\<close>

datatype ('f, 'a) worker_pc =
    Entering                 \<comment> \<open>about to lock and test the wait predicate\<close>
  | Tested_False             \<comment> \<open>holds the lock, found the predicate false, not yet asleep\<close>
  | Asleep
  | Running "('f, 'a) Task"
  | Retired                  \<comment> \<open>returned because a thread was to be destroyed\<close>
  | Shut                     \<comment> \<open>returned because of the shutdown\<close>

datatype manager_pc =
    M_Loop
  | M_Sleep
  | M_Queue int
  | M_Live int int
  | M_Busy int int int
  | M_Destroy int int
  | M_Done

datatype ('f, 'a) adder_pc = Idle | Allowed "('f, 'a) Task" | Added

datatype dtor_pc = Alive | Flagged | Notified | Joined

record ('f, 'a) ThreadPool =
  m_task_queue :: "('f, 'a) TaskQueue"
  m_threads :: "('f, 'a) worker_pc list"
  m_min_num :: int
  m_max_num :: int
  m_busy_num :: int
  m_live_num :: int
  m_destory_num :: int
  m_shutdown :: bool
  m_manager_thread :: manager_pc
  adders :: "('f, 'a) adder_pc list"
  dtor :: dtor_pc
  added :: "('f, 'a) Task list"
  taken :: "('f, 'a) Task list"

text \<open>The constructor, with the number of threads that will add tasks.\<close>

definition ThreadPool_new :: "int \<Rightarrow> int \<Rightarrow> nat \<Rightarrow> ('f, 'a) ThreadPool" where
  "ThreadPool_new min_num max_num n =
     \<lparr>m_task_queue = [], m_threads = replicate (nat min_num) Entering, m_min_num = min_num, m_max_num = max_num, m_busy_num = 0,
      m_live_num = min_num, m_destory_num = 0, m_shutdown = False, m_manager_thread = M_Loop,
      adders = replicate n Idle, dtor = Alive, added = [], taken = []\<rparr>"

definition get_busy_num :: "('f, 'a) ThreadPool \<Rightarrow> int" where
  "get_busy_num p = m_busy_num p"

definition get_live_num :: "('f, 'a) ThreadPool \<Rightarrow> int" where
  "get_live_num p = m_live_num p"

definition mutex_free :: "('f, 'a) ThreadPool \<Rightarrow> bool" where
  "mutex_free p = (Tested_False \<notin> set (m_threads p))"

definition notify_all :: "('f, 'a) worker_pc list \<Rightarrow> ('f, 'a) worker_pc list" where
  "notify_all ws = map (\<lambda>w. if w = Asleep then Entering else w) ws"

section \<open>The worker\<close>

definition wait_predicate :: "('f, 'a) ThreadPool \<Rightarrow> bool" where
  "wait_predicate p = (task_size (m_task_queue p) > 0 \<or> m_shutdown p \<or> m_destory_num p > 0)"

text \<open>The critical section after the wait: where the worker goes on, and the pool.\<close>

definition take_section :: "nat \<Rightarrow> ('f, 'a) ThreadPool \<Rightarrow> ('f, 'a) ThreadPool" where
  "take_section j p =
     (if m_shutdown p then p\<lparr>m_threads := (m_threads p)[j := Shut]\<rparr>
      else case get_task (m_task_queue p) of
             (task, q) \<Rightarrow>
               (let p = p\<lparr>m_task_queue := q, taken := taken p @ (if task_size (m_task_queue p) > 0 then [task] else [])\<rparr> in
                if task_fun task \<noteq> None
                then p\<lparr>m_busy_num := m_busy_num p + 1, m_threads := (m_threads p)[j := Running task]\<rparr>
                else p\<lparr>m_threads := (m_threads p)[j := Entering]\<rparr>))"

definition worker_section :: "nat \<Rightarrow> ('f, 'a) ThreadPool \<Rightarrow> ('f, 'a) ThreadPool" where
  "worker_section j p =
     (if m_destory_num p > 0 then
        (let p = p\<lparr>m_destory_num := m_destory_num p - 1\<rparr> in
         if m_live_num p > m_min_num p
         then p\<lparr>m_live_num := m_live_num p - 1, m_threads := (m_threads p)[j := Retired]\<rparr>
         else take_section j p)
      else take_section j p)"

text \<open>One step of worker \<open>j\<close>.\<close>

definition worker_step :: "nat \<Rightarrow> ('f, 'a) ThreadPool \<Rightarrow> ('f, 'a) ThreadPool option" where
  "worker_step j p =
     (if j < length (m_threads p) then
        (case m_threads p ! j of
           Entering \<Rightarrow>
             (if \<not> mutex_free p then None
              else if wait_predicate p then Some (worker_section j p)
              else Some (p\<lparr>m_threads := (m_threads p)[j := Tested_False]\<rparr>))
         | Tested_False \<Rightarrow> Some (p\<lparr>m_threads := (m_threads p)[j := Asleep]\<rparr>)
         | Running task \<Rightarrow> Some (p\<lparr>m_busy_num := m_busy_num p - 1, m_threads := (m_threads p)[j := Entering]\<rparr>)
         | _ \<Rightarrow> None)
      else None)"

section \<open>The manager\<close>

text \<open>
  The loop that creates threads, with the passes left and the index. Every \<open>std::thread\<close> of the vector is
  joinable until it is joined, whether or not its function has returned.
\<close>

fun create_threads :: "nat \<Rightarrow> nat \<Rightarrow> int \<Rightarrow> ('f, 'a) ThreadPool \<Rightarrow> ('f, 'a) ThreadPool" where
  "create_threads 0 i count p = p"
| "create_threads (Suc k) i count p =
     (if count < 2 \<and> m_live_num p < m_max_num p then
        (if i \<ge> length (m_threads p)
         then create_threads k (Suc i) (count + 1)
                (p\<lparr>m_threads := m_threads p @ [Entering], m_live_num := m_live_num p + 1\<rparr>)
         else create_threads k (Suc i) count p)
      else p)"

definition manager_step :: "('f, 'a) ThreadPool \<Rightarrow> ('f, 'a) ThreadPool option" where
  "manager_step p =
     (case m_manager_thread p of
        M_Loop \<Rightarrow>
          Some (p\<lparr>m_manager_thread := (if m_shutdown p then M_Done else M_Sleep)\<rparr>)
      | M_Sleep \<Rightarrow> Some (p\<lparr>m_manager_thread := M_Queue (int (task_size (m_task_queue p)))\<rparr>)
      | M_Queue q \<Rightarrow> Some (p\<lparr>m_manager_thread := M_Live q (m_live_num p)\<rparr>)
      | M_Live q l \<Rightarrow> Some (p\<lparr>m_manager_thread := M_Busy q l (m_busy_num p)\<rparr>)
      | M_Busy q l b \<Rightarrow>
          (if q > l \<and> l < m_max_num p then
             (if mutex_free p
              then Some (create_threads (nat (m_max_num p)) 0 0 (p\<lparr>m_manager_thread := M_Destroy l b\<rparr>))
              else None)
           else Some (p\<lparr>m_manager_thread := M_Destroy l b\<rparr>))
      | M_Destroy l b \<Rightarrow>
          (if 2 * b < l \<and> l > m_min_num p then
             (if mutex_free p
              then Some (p\<lparr>m_destory_num := 2, m_threads := notify_all (m_threads p), m_manager_thread := M_Loop\<rparr>)
              else None)
           else Some (p\<lparr>m_manager_thread := M_Loop\<rparr>))
      | M_Done \<Rightarrow> None)"

section \<open>Adding tasks and destroying the pool\<close>

text \<open>
  \<open>add_task\<close> tests the shutdown flag, adds under the queue's own lock, and notifies. None of these
  takes \<open>m_mutex_pool\<close>.
\<close>

definition add_test :: "nat \<Rightarrow> ('f, 'a) Task \<Rightarrow> ('f, 'a) ThreadPool \<Rightarrow> ('f, 'a) ThreadPool option" where
  "add_test i task p =
     (if i < length (adders p) \<and> adders p ! i = Idle
      then Some (if m_shutdown p then p else p\<lparr>adders := (adders p)[i := Allowed task]\<rparr>) else None)"

definition add_push :: "nat \<Rightarrow> ('f, 'a) ThreadPool \<Rightarrow> ('f, 'a) ThreadPool option" where
  "add_push i p =
     (if i < length (adders p) then
        (case adders p ! i of
           Allowed task \<Rightarrow>
             Some (p\<lparr>m_task_queue := queue_add_task task (m_task_queue p), added := added p @ [task],
               adders := (adders p)[i := Added]\<rparr>)
         | _ \<Rightarrow> None)
      else None)"

text \<open>\<open>notify_one\<close> wakes a sleeping worker, any one, and does nothing when none sleeps.\<close>

definition add_notify :: "nat \<Rightarrow> nat \<Rightarrow> ('f, 'a) ThreadPool \<Rightarrow> ('f, 'a) ThreadPool option" where
  "add_notify i j p =
     (if i < length (adders p) \<and> adders p ! i = Added then
        (let p' = p\<lparr>adders := (adders p)[i := Idle]\<rparr> in
         if Asleep \<notin> set (m_threads p) then Some p'
         else if j < length (m_threads p) \<and> m_threads p ! j = Asleep
         then Some (p'\<lparr>m_threads := (m_threads p)[j := Entering]\<rparr>) else None)
      else None)"

definition ended :: "('f, 'a) worker_pc \<Rightarrow> bool" where
  "ended w = (w = Retired \<or> w = Shut)"

definition dtor_step :: "('f, 'a) ThreadPool \<Rightarrow> ('f, 'a) ThreadPool option" where
  "dtor_step p =
     (case dtor p of
        Alive \<Rightarrow> Some (p\<lparr>m_shutdown := True, dtor := Flagged\<rparr>)
      | Flagged \<Rightarrow> Some (p\<lparr>m_threads := notify_all (m_threads p), dtor := Notified\<rparr>)
      | Notified \<Rightarrow>
          (if m_manager_thread p = M_Done \<and> list_all ended (m_threads p)
           then Some (p\<lparr>dtor := Joined\<rparr>) else None)
      | Joined \<Rightarrow> None)"

section \<open>The whole system\<close>

datatype ('f, 'a) pool_action =
    Worker nat
  | Manager
  | Add_Test nat "('f, 'a) Task"
  | Add_Push nat
  | Add_Notify nat nat
  | Dtor
  | Spurious nat

fun pool_act :: "('f, 'a) pool_action \<Rightarrow> ('f, 'a) ThreadPool \<Rightarrow> ('f, 'a) ThreadPool option" where
  "pool_act (Worker j) p = worker_step j p"
| "pool_act Manager p = manager_step p"
| "pool_act (Add_Test i task) p = add_test i task p"
| "pool_act (Add_Push i) p = add_push i p"
| "pool_act (Add_Notify i j) p = add_notify i j p"
| "pool_act Dtor p = dtor_step p"
| "pool_act (Spurious j) p =
     (if j < length (m_threads p) \<and> m_threads p ! j = Asleep
      then Some (p\<lparr>m_threads := (m_threads p)[j := Entering]\<rparr>) else None)"

abbreviation pool_steps :: "('f, 'a) ThreadPool \<Rightarrow> ('f, 'a) ThreadPool \<Rightarrow> bool" where
  "pool_steps \<equiv> reach pool_act"

section \<open>The invariant\<close>

fun is_running :: "('f, 'a) worker_pc \<Rightarrow> bool" where
  "is_running (Running task) = True"
| "is_running _ = False"

text \<open>The counters count, the bounds hold, and tasks leave in the order they came.\<close>

definition pool_ok :: "('f, 'a) ThreadPool \<Rightarrow> bool" where
  "pool_ok p \<longleftrightarrow>
     m_busy_num p = cnt is_running (m_threads p)
     \<and> m_live_num p = cnt (\<lambda>w. w \<noteq> Retired) (m_threads p)
     \<and> m_min_num p \<le> m_live_num p \<and> m_live_num p \<le> m_max_num p
     \<and> int (length (m_threads p)) \<le> m_max_num p
     \<and> 0 \<le> m_destory_num p
     \<and> added p = taken p @ m_task_queue p"

lemma pool_ok_new: "0 \<le> min_num \<Longrightarrow> min_num \<le> max_num \<Longrightarrow> pool_ok (ThreadPool_new min_num max_num n)"
  by (simp add: pool_ok_def ThreadPool_new_def)

lemma take_section_ok:
  assumes "pool_ok p" "j < length (m_threads p)" "m_threads p ! j = Entering"
  shows "pool_ok (take_section j p)"
  using assms
  by (cases "m_task_queue p")
    (auto simp: pool_ok_def take_section_def get_task_def task_size_def Task_null_def cnt_update Let_def)

lemma worker_section_ok:
  assumes "pool_ok p" "j < length (m_threads p)" "m_threads p ! j = Entering"
  shows "pool_ok (worker_section j p)"
proof (cases "m_destory_num p > 0")
  case True
  let ?p = "p\<lparr>m_destory_num := m_destory_num p - 1\<rparr>"
  have ok: "pool_ok ?p" using assms(1) True by (simp add: pool_ok_def)
  show ?thesis
  proof (cases "m_live_num p > m_min_num p")
    case retire: True
    then show ?thesis using ok True assms by (simp add: worker_section_def pool_ok_def cnt_update)
  next
    case False
    then show ?thesis using take_section_ok [OF ok] True assms(2,3) by (simp add: worker_section_def Let_def)
  qed
next
  case False
  then show ?thesis using take_section_ok [OF assms] by (simp add: worker_section_def)
qed

lemma worker_step_ok: "pool_ok p \<Longrightarrow> worker_step j p = Some q \<Longrightarrow> pool_ok q"
  by (auto simp: worker_step_def worker_section_ok split: if_splits worker_pc.splits)
    (auto simp: pool_ok_def cnt_update)

lemma cnt_notify:
  assumes "P Asleep = P Entering"
  shows "cnt P (notify_all ws) = cnt P ws"
  using assms by (induction ws) (auto simp: notify_all_def)

lemma length_notify [simp]: "length (notify_all ws) = length ws"
  by (simp add: notify_all_def)

lemma create_threads_ok:
  "pool_ok p \<Longrightarrow> int (i + k) \<le> m_max_num p \<Longrightarrow> pool_ok (create_threads k i count p)"
proof (induction k arbitrary: i count p)
  case 0
  then show ?case by simp
next
  case (Suc k)
  show ?case
  proof (cases "count < 2 \<and> m_live_num p < m_max_num p \<and> i \<ge> length (m_threads p)")
    case True
    let ?p = "p\<lparr>m_threads := m_threads p @ [Entering], m_live_num := m_live_num p + 1\<rparr>"
    have "pool_ok ?p" using True Suc.prems by (auto simp: pool_ok_def)
    then show ?thesis using True Suc.IH [of ?p "Suc i"] Suc.prems(2) by simp
  next
    case False
    then show ?thesis using Suc.IH [of p "Suc i"] Suc.prems by auto
  qed
qed

lemma manager_step_ok:
  assumes "pool_ok p" "manager_step p = Some r"
  shows "pool_ok r"
proof (cases "m_manager_thread p")
  case (M_Busy q l b)
  let ?p = "p\<lparr>m_manager_thread := M_Destroy l b\<rparr>"
  have ok: "pool_ok ?p" using assms(1) by (simp add: pool_ok_def)
  have "0 \<le> m_max_num p" using assms(1) by (auto simp: pool_ok_def)
  then have "pool_ok (create_threads (nat (m_max_num p)) 0 0 ?p)" by (intro create_threads_ok [OF ok]) simp
  then show ?thesis using assms(2) M_Busy ok by (auto simp: manager_step_def split: if_splits)
qed (use assms in \<open>auto simp: manager_step_def pool_ok_def cnt_notify split: if_splits\<close>)

lemma pool_act_ok:
  assumes "pool_ok p" "pool_act a p = Some q"
  shows "pool_ok q"
proof (cases a)
  case (Worker j)
  then show ?thesis using assms worker_step_ok by simp
next
  case Manager
  then show ?thesis using assms manager_step_ok by simp
next
  case (Add_Test i task)
  then show ?thesis using assms by (auto simp: add_test_def pool_ok_def split: if_splits)
next
  case (Add_Push i)
  then show ?thesis
    using assms by (auto simp: add_push_def pool_ok_def queue_add_task_def split: if_splits adder_pc.splits)
next
  case (Add_Notify i j)
  then show ?thesis using assms by (auto simp: add_notify_def pool_ok_def cnt_update Let_def split: if_splits)
next
  case Dtor
  then show ?thesis using assms by (auto simp: dtor_step_def pool_ok_def cnt_notify split: if_splits dtor_pc.splits)
next
  case (Spurious j)
  then show ?thesis using assms by (auto simp: pool_ok_def cnt_update split: if_splits)
qed

text \<open>What a step leaves alone.\<close>

definition same_pool :: "('f, 'a) ThreadPool \<Rightarrow> ('f, 'a) ThreadPool \<Rightarrow> bool" where
  "same_pool p q \<longleftrightarrow> m_min_num q = m_min_num p \<and> m_max_num q = m_max_num p \<and> (m_shutdown p \<longrightarrow> m_shutdown q)
     \<and> length (m_threads p) \<le> length (m_threads q)"

lemma take_section_frame:
  "same_pool p (take_section j p) \<and> length (m_threads (take_section j p)) = length (m_threads p)
   \<and> m_live_num (take_section j p) = m_live_num p \<and> (m_shutdown p \<longrightarrow> taken (take_section j p) = taken p)"
  by (cases "m_task_queue p") (simp_all add: take_section_def get_task_def Let_def same_pool_def)

lemma worker_section_frame:
  "same_pool p (worker_section j p) \<and> length (m_threads (worker_section j p)) = length (m_threads p)
   \<and> m_live_num (worker_section j p) \<le> m_live_num p \<and> (m_shutdown p \<longrightarrow> taken (worker_section j p) = taken p)"
  using take_section_frame [of p j] take_section_frame [of "p\<lparr>m_destory_num := m_destory_num p - 1\<rparr>" j]
  by (auto simp: worker_section_def Let_def same_pool_def)

lemma create_threads_frame:
  "same_pool p (create_threads k i count p) \<and> taken (create_threads k i count p) = taken p
   \<and> (i + k \<le> length (m_threads p) \<longrightarrow> create_threads k i count p = p)"
proof (induction k arbitrary: i count p)
  case 0
  then show ?case by (simp add: same_pool_def)
next
  case (Suc k)
  let ?p = "p\<lparr>m_threads := m_threads p @ [Entering], m_live_num := m_live_num p + 1\<rparr>"
  show ?case
    using Suc.IH [where i = "Suc i" and count = count and p = p] Suc.IH [where i = "Suc i" and count = "count + 1" and p = ?p] by (auto simp: same_pool_def)
qed

lemma worker_step_frame:
  assumes "worker_step j p = Some q"
  shows "same_pool p q \<and> length (m_threads q) = length (m_threads p) \<and> m_live_num q \<le> m_live_num p
    \<and> (m_shutdown p \<longrightarrow> taken q = taken p)"
  using assms worker_section_frame [of p j]
  by (auto simp: worker_step_def same_pool_def split: if_splits worker_pc.splits)

lemma manager_step_frame:
  assumes "manager_step p = Some q"
  shows "same_pool p q \<and> taken q = taken p
    \<and> (m_max_num p \<le> int (length (m_threads p)) \<longrightarrow> length (m_threads q) = length (m_threads p) \<and> m_live_num q = m_live_num p)"
proof (cases "m_manager_thread p")
  case (M_Busy n l b)
  then show ?thesis
    using assms create_threads_frame [of "p\<lparr>m_manager_thread := M_Destroy l b\<rparr>" "nat (m_max_num p)" 0 0]
    by (auto simp: manager_step_def same_pool_def split: if_splits)
qed (use assms in \<open>auto simp: manager_step_def same_pool_def split: if_splits\<close>)

lemma pool_act_frame:
  assumes "pool_act a p = Some q"
  shows "same_pool p q \<and> (m_shutdown p \<longrightarrow> taken q = taken p)
    \<and> (m_max_num p \<le> int (length (m_threads p)) \<longrightarrow> length (m_threads q) = length (m_threads p) \<and> m_live_num q \<le> m_live_num p)"
proof (cases a)
  case (Worker j)
  then show ?thesis using assms worker_step_frame by auto
next
  case Manager
  then show ?thesis using assms manager_step_frame by fastforce
qed (use assms in \<open>auto simp: add_test_def add_push_def add_notify_def dtor_step_def same_pool_def Let_def
    split: if_splits adder_pc.splits dtor_pc.splits\<close>)

interpretation pools: interleaving pool_act "\<lambda>p. pool_ok p \<and> m_min_num p = lo \<and> m_max_num p = hi"
  by unfold_locales (auto dest: pool_act_ok pool_act_frame simp: same_pool_def)

section \<open>Properties\<close>

text \<open>
  C5. The pool keeps its promises under every interleaving. However workers, manager, adding
  threads and destructor take their turns, from a pool made with \<open>0 \<le> min \<le> max\<close>: \<open>get_busy_num\<close> is the number of workers running a task;
  \<open>get_live_num\<close> counts the threads that have not retired and stays between the two bounds, as the number of threads ever made
  stays below the upper one; and the tasks taken by workers, followed by those queued, are the
  tasks added, in order.
\<close>

theorem thread_pool_bounds:
  assumes "0 \<le> min_num" "min_num \<le> max_num" "pool_steps (ThreadPool_new min_num max_num n) p"
  shows "get_busy_num p = cnt is_running (m_threads p)
    \<and> get_live_num p = cnt (\<lambda>w. w \<noteq> Retired) (m_threads p)
    \<and> min_num \<le> get_live_num p \<and> get_live_num p \<le> max_num
    \<and> int (length (m_threads p)) \<le> max_num
    \<and> added p = taken p @ m_task_queue p"
proof -
  have "pool_ok p \<and> m_min_num p = min_num \<and> m_max_num p = max_num"
    by (rule pools.reach_inv [OF assms(3)]) (use pool_ok_new [OF assms(1,2)] in \<open>simp add: ThreadPool_new_def\<close>)
  then show ?thesis by (simp add: pool_ok_def get_busy_num_def get_live_num_def)
qed

definition sample_task :: "(nat, nat) Task" where
  "sample_task = \<lparr>task_fun = Some 1, task_arg = None\<rparr>"

lemmas pool_eval = ThreadPool_new_def worker_step_def mutex_free_def wait_predicate_def task_size_def worker_section_def
  take_section_def get_task_def add_test_def add_push_def add_notify_def queue_add_task_def sample_task_def
  dtor_step_def manager_step_def notify_all_def ended_def

theorem thread_pool_bounds_witness:
  "\<exists>p. m_threads p = [Running sample_task, Asleep] \<and> get_busy_num p = 1 \<and> get_live_num p = 2
     \<and> added p = taken p @ m_task_queue p"
proof -
  obtain p where p: "schedule pool_act [Worker 1, Worker 1, Add_Test 0 sample_task, Add_Push 0, Worker 0] (ThreadPool_new 2 5 1) = Some p"
    "m_threads p = [Running sample_task, Asleep]"
    by (simp add: pool_eval numeral_eq_Suc)
  from thread_pool_bounds [OF _ _ schedule_reach [OF p(1)]] p(2) show ?thesis by auto
qed

text \<open>
  The pool stops growing for good. Once the vector of threads has \<open>max\<close> entries, no step ever adds one, and the
  number of live threads never rises again, whatever happens: the manager takes an entry for free only when it is not joinable, and a retired thread
  stays joinable until the destructor joins it.
\<close>

theorem thread_pool_exhausted:
  assumes "m_max_num p \<le> int (length (m_threads p))" "pool_steps p q"
  shows "length (m_threads q) = length (m_threads p) \<and> get_live_num q \<le> get_live_num p"
proof -
  have "m_max_num q = m_max_num p \<and> length (m_threads q) = length (m_threads p) \<and> m_live_num q \<le> m_live_num p"
    using assms(2,1)
  proof (induction rule: reach.induct)
    case start
    then show ?case by simp
  next
    case (step q a r)
    then show ?case using pool_act_frame [OF step.hyps(2)] by (auto simp: same_pool_def)
  qed
  then show ?thesis by (simp add: get_live_num_def)
qed

theorem thread_pool_exhausted_witness:
  "\<exists>p q :: (nat, nat) ThreadPool. m_threads p = [Entering, Retired] \<and> m_max_num p = 2
     \<and> schedule pool_act [Add_Test 0 sample_task, Add_Push 0, Manager, Manager, Manager, Manager, Manager] p = Some q
     \<and> length (m_threads q) = 2 \<and> get_live_num q \<le> 1"
proof -
  let ?p = "(ThreadPool_new 1 2 1)\<lparr>m_threads := [Entering, Retired], m_live_num := 1\<rparr> :: (nat, nat) ThreadPool"
  obtain q where q: "schedule pool_act [Add_Test 0 sample_task, Add_Push 0, Manager, Manager, Manager, Manager, Manager] ?p = Some q"
    by (simp add: pool_eval numeral_eq_Suc)
  have p: "m_threads ?p = [Entering, Retired]" "m_max_num ?p = 2" "get_live_num ?p = 1"
    by (simp_all add: ThreadPool_new_def get_live_num_def)
  have "length (m_threads q) = length (m_threads ?p) \<and> get_live_num q \<le> get_live_num ?p"
    by (rule thread_pool_exhausted [OF _ schedule_reach [OF q]]) (simp add: ThreadPool_new_def)
  with p q show ?thesis by (metis One_nat_def length_Cons list.size(3) Suc_1)
qed

text \<open>
  Shutting down drops the queued tasks. From the moment the flag is set no further task is
  taken, by any sequence of steps: what is queued then is never run.
\<close>

theorem shutdown_drops_tasks:
  assumes "m_shutdown p" "pool_steps p q"
  shows "taken q = taken p"
proof -
  have "m_shutdown q \<and> taken q = taken p"
    using assms(2,1)
  proof (induction rule: reach.induct)
    case (step q a r)
    then show ?case using pool_act_frame [OF step.hyps(2)] by (auto simp: same_pool_def)
  qed simp
  then show ?thesis by simp
qed

theorem shutdown_drops_tasks_witness:
  "\<exists>p q :: (nat, nat) ThreadPool. schedule pool_act [Add_Test 0 sample_task, Add_Push 0, Dtor] (ThreadPool_new 1 1 1) = Some p
     \<and> schedule pool_act [Dtor, Worker 0, Manager, Dtor] p = Some q \<and> dtor q = Joined \<and> m_task_queue q = [sample_task]
     \<and> taken q = taken p"
proof -
  obtain p :: "(nat, nat) ThreadPool" where
    p: "schedule pool_act [Add_Test 0 sample_task, Add_Push 0, Dtor] (ThreadPool_new 1 1 1) = Some p"
    by (simp add: pool_eval numeral_eq_Suc)
  then obtain q where q: "schedule pool_act [Dtor, Worker 0, Manager, Dtor] p = Some q" "dtor q = Joined" "m_task_queue q = [sample_task]"
    by (auto simp: pool_eval)
  have "m_shutdown p" using p by (auto simp: pool_eval)
  from shutdown_drops_tasks [OF this schedule_reach [OF q(1)]] p q show ?thesis by blast
qed

text \<open>
  C30. Wake-ups get lost. The task is added and its notification sent, or the shutdown flag set and everybody
  notified, while the only worker is between the test of the wait predicate and falling asleep, which
  the lock of the pool does not exclude. In the first case a task is queued, every worker sleeps and the
  caller of \<open>add_task\<close> is gone; in the second the destructor waits for a sleeping worker,
  and no action of any thread can change that.
\<close>

theorem wakeup_lost:
  "(\<exists>p. pool_steps (ThreadPool_new 1 1 1) p \<and> m_task_queue p = [sample_task] \<and> m_threads p = [Asleep] \<and> adders p = [Idle])
   \<and> (\<exists>p. pool_steps (ThreadPool_new 1 1 1) p \<and> dtor p = Notified \<and> m_threads p = [Asleep]
        \<and> (\<forall>a :: (nat, nat) pool_action. pool_act a p \<in> {None, Some p} \<or> (\<exists>j. a = Spurious j)))"
proof
  obtain p where p: "schedule pool_act [Worker 0, Add_Test 0 sample_task, Add_Push 0, Add_Notify 0 0, Worker 0] (ThreadPool_new 1 1 1) = Some p"
    "m_task_queue p = [sample_task]" "m_threads p = [Asleep]" "adders p = [Idle]"
    by (simp add: pool_eval)
  then show "\<exists>p. pool_steps (ThreadPool_new 1 1 1) p \<and> m_task_queue p = [sample_task] \<and> m_threads p = [Asleep] \<and> adders p = [Idle]"
    using schedule_reach [OF p(1)] by blast
next
  obtain p :: "(nat, nat) ThreadPool" where
    p: "schedule pool_act [Worker 0, Dtor, Dtor, Worker 0, Manager] (ThreadPool_new 1 1 1) = Some p"
    "m_threads p = [Asleep]" "dtor p = Notified" "adders p = [Idle]" "m_manager_thread p = M_Done" "m_shutdown p"
    by (simp add: pool_eval)
  have "pool_act a p \<in> {None, Some p} \<or> (\<exists>j. a = Spurious j)" for a
    using p(2-6) by (cases a) (auto simp: pool_eval split: if_splits)
  then show "\<exists>p. pool_steps (ThreadPool_new 1 1 1) p \<and> dtor p = Notified \<and> m_threads p = [Asleep]
        \<and> (\<forall>a :: (nat, nat) pool_action. pool_act a p \<in> {None, Some p} \<or> (\<exists>j. a = Spurious j))"
    using schedule_reach [OF p(1)] p(2,3) by blast
qed

end
