(* ===== verification/Task_Main.thy ===== *)
theory Task_Main
  imports Task_Pool C_Format
begin

text \<open>
  The example program of the growing thread pool: \<open>main\<close> makes a pool of two to five threads, adds ten numbered
  tasks and, after a sleep, returns, which runs the destructor. Its steps interleave with those of the pool; the history
  variable \<open>finished\<close> records the tasks in the order in which their function ran.
\<close>

datatype task_function = Test_Task

type_synonym number_pool = "(task_function, nat) ThreadPool"

definition number_task :: "nat \<Rightarrow> (task_function, nat) Task" where
  "number_task i = \<lparr>task_fun = Some Test_Task, task_arg = Some i\<rparr>"

text \<open>What \<open>test_task\<close> prints; a null argument would be dereferenced.\<close>

definition test_task :: "nat option \<Rightarrow> string option" where
  "test_task arg = map_option (\<lambda>n. ''Task with number '' @ dec n @ '' is running.'' @ [LF]) arg"

section \<open>The program\<close>

datatype main_pc = Main_Loop nat | Main_Adding nat | Main_Added nat | Main_Sleeping | Main_Returning | Main_Ended

record main_state =
  pool :: number_pool
  main_at :: main_pc
  finished :: "(task_function, nat) Task list"

definition main_start :: main_state where
  "main_start = \<lparr>pool = ThreadPool_new 2 5 1, main_at = Main_Loop 0, finished = []\<rparr>"

text \<open>One step of \<open>main\<close>; \<open>j\<close> is the worker that a notification wakes.\<close>

definition main_step :: "nat \<Rightarrow> main_state \<Rightarrow> main_state option" where
  "main_step j s =
     (case main_at s of
        Main_Loop i \<Rightarrow>
          (if i < 10 then
             map_option (\<lambda>p. s\<lparr>pool := p, main_at := (if m_shutdown (pool s) then Main_Loop (i + 1) else Main_Adding i)\<rparr>)
               (add_test 0 (number_task i) (pool s))
           else Some (s\<lparr>main_at := Main_Sleeping\<rparr>))
      | Main_Adding i \<Rightarrow> map_option (\<lambda>p. s\<lparr>pool := p, main_at := Main_Added i\<rparr>) (add_push 0 (pool s))
      | Main_Added i \<Rightarrow> map_option (\<lambda>p. s\<lparr>pool := p, main_at := Main_Loop (i + 1)\<rparr>) (add_notify 0 j (pool s))
      | Main_Sleeping \<Rightarrow> Some (s\<lparr>main_at := Main_Returning\<rparr>)
      | Main_Returning \<Rightarrow>
          map_option (\<lambda>p. s\<lparr>pool := p, main_at := (if dtor p = Joined then Main_Ended else Main_Returning)\<rparr>) (dtor_step (pool s))
      | Main_Ended \<Rightarrow> None)"

text \<open>The steps of the pool's own threads. A worker that leaves the state of running a task has called its function.\<close>

definition ran :: "nat \<Rightarrow> number_pool \<Rightarrow> (task_function, nat) Task list" where
  "ran j p = (if j < length (m_threads p) then (case m_threads p ! j of Running t \<Rightarrow> [t] | _ \<Rightarrow> []) else [])"

datatype main_action = Main nat | Pool_Worker nat | Pool_Manager | Wake_Up nat

fun main_act :: "main_action \<Rightarrow> main_state \<Rightarrow> main_state option" where
  "main_act (Main j) s = main_step j s"
| "main_act (Pool_Worker j) s =
     map_option (\<lambda>p. s\<lparr>pool := p, finished := finished s @ ran j (pool s)\<rparr>) (pool_act (Worker j) (pool s))"
| "main_act Pool_Manager s = map_option (\<lambda>p. s\<lparr>pool := p\<rparr>) (pool_act Manager (pool s))"
| "main_act (Wake_Up j) s = map_option (\<lambda>p. s\<lparr>pool := p\<rparr>) (pool_act (Spurious j) (pool s))"

section \<open>Running tasks\<close>

text \<open>Per task: taken from the queue, and then either still running or finished.\<close>

abbreviation busy_with :: "(task_function, nat) Task \<Rightarrow> number_pool \<Rightarrow> int" where
  "busy_with t p \<equiv> cnt (\<lambda>w. w = Running t) (m_threads p)"

abbreviation times :: "'b \<Rightarrow> 'b list \<Rightarrow> int" where
  "times t ts \<equiv> int (count_list ts t)"

lemma take_section_busy:
  assumes "j < length (m_threads p)" "m_threads p ! j = Entering" "task_fun t \<noteq> None"
  shows "busy_with t (take_section j p) - busy_with t p = times t (taken (take_section j p)) - times t (taken p)"
  using assms
  by (cases "m_task_queue p") (auto simp: take_section_def get_task_def task_size_def Task_null_def cnt_update Let_def)

lemma worker_section_busy:
  assumes "j < length (m_threads p)" "m_threads p ! j = Entering" "task_fun t \<noteq> None"
  shows "busy_with t (worker_section j p) - busy_with t p = times t (taken (worker_section j p)) - times t (taken p)"
  using assms take_section_busy [OF assms] take_section_busy [of j "p\<lparr>m_destory_num := m_destory_num p - 1\<rparr>" t]
  by (auto simp: worker_section_def Let_def cnt_update)

lemma worker_step_busy:
  assumes "worker_step j p = Some q" "task_fun t \<noteq> None"
  shows "busy_with t q + times t (ran j p) - busy_with t p = times t (taken q) - times t (taken p)"
proof -
  have j: "j < length (m_threads p)" using assms(1) by (simp add: worker_step_def split: if_splits)
  show ?thesis
  proof (cases "m_threads p ! j")
    case Entering
    then have "q = worker_section j p \<or> q = p\<lparr>m_threads := (m_threads p)[j := Tested_False]\<rparr>"
      using assms(1) j by (auto simp: worker_step_def split: if_splits)
    then show ?thesis using worker_section_busy [OF j Entering assms(2)] Entering j by (auto simp: ran_def cnt_update)
  qed (use assms j in \<open>auto simp: worker_step_def ran_def cnt_update\<close>)
qed

lemma create_threads_busy: "busy_with t (create_threads k i count p) = busy_with t p"
  by (induction k arbitrary: i count p) auto

lemma manager_step_busy:
  assumes "manager_step p = Some q"
  shows "busy_with t q = busy_with t p" "taken q = taken p" "added q = added p" "adders q = adders p" "m_shutdown q = m_shutdown p" "dtor q = dtor p"
proof -
  have c: "added (create_threads k i count p) = added p \<and> adders (create_threads k i count p) = adders p
      \<and> m_shutdown (create_threads k i count p) = m_shutdown p \<and> dtor (create_threads k i count p) = dtor p
      \<and> taken (create_threads k i count p) = taken p" for k i count and p :: number_pool
    by (induction k arbitrary: i count p) auto
  show "busy_with t q = busy_with t p"
    using assms create_threads_busy [of t] cnt_notify [of "\<lambda>w. w = Running t" "m_threads p"]
    by (auto simp: manager_step_def split: manager_pc.splits if_splits)
  show "taken q = taken p" "added q = added p" "adders q = adders p" "m_shutdown q = m_shutdown p" "dtor q = dtor p"
    using assms c by (auto simp: manager_step_def split: manager_pc.splits if_splits)
qed

lemma take_section_main:
  "added (take_section j p) = added p" "adders (take_section j p) = adders p"
  "m_shutdown (take_section j p) = m_shutdown p" "dtor (take_section j p) = dtor p"
  by (cases "m_task_queue p"; simp add: take_section_def get_task_def Let_def)+

lemma worker_section_main:
  "added (worker_section j p) = added p" "adders (worker_section j p) = adders p"
  "m_shutdown (worker_section j p) = m_shutdown p" "dtor (worker_section j p) = dtor p"
  by (simp_all add: worker_section_def Let_def take_section_main)

lemma worker_step_main:
  assumes "worker_step j p = Some q"
  shows "added q = added p" "adders q = adders p" "m_shutdown q = m_shutdown p" "dtor q = dtor p"
  using assms
  by (simp add: worker_step_def split: if_splits worker_pc.splits; auto simp: worker_section_main)+

section \<open>The invariant\<close>

fun pushed :: "main_pc \<Rightarrow> nat" where
  "pushed (Main_Loop i) = i"
| "pushed (Main_Adding i) = i"
| "pushed (Main_Added i) = i + 1"
| "pushed _ = 10"

fun adding :: "main_pc \<Rightarrow> (task_function, nat) adder_pc" where
  "adding (Main_Adding i) = Allowed (number_task i)"
| "adding (Main_Added i) = Added"
| "adding _ = Idle"

definition main_ok :: "main_state \<Rightarrow> bool" where
  "main_ok s \<longleftrightarrow>
     pool_ok (pool s) \<and> pushed (main_at s) \<le> 10 \<and> (\<forall>i. main_at s = Main_Adding i \<longrightarrow> i < 10) \<and> added (pool s) = map number_task [0..<pushed (main_at s)]
     \<and> adders (pool s) = [adding (main_at s)]
     \<and> (main_at s \<notin> {Main_Returning, Main_Ended} \<longrightarrow> \<not> m_shutdown (pool s))
     \<and> (main_at s = Main_Ended \<longrightarrow> m_manager_thread (pool s) = M_Done \<and> list_all ended (m_threads (pool s)))
     \<and> (\<forall>t. task_fun t \<noteq> None \<longrightarrow> busy_with t (pool s) + times t (finished s) = times t (taken (pool s)))"

lemma main_start_ok: "main_ok main_start"
  using pool_ok_new [of 2 5 1] by (simp add: main_ok_def main_start_def) (simp add: ThreadPool_new_def)

lemma main_okD:
  assumes "main_ok s"
  shows "pool_ok (pool s)" "pushed (main_at s) \<le> 10" "added (pool s) = map number_task [0..<pushed (main_at s)]"
    and "adders (pool s) = [adding (main_at s)]" "main_at s \<notin> {Main_Returning, Main_Ended} \<Longrightarrow> \<not> m_shutdown (pool s)"
    and "main_at s = Main_Ended \<Longrightarrow> m_manager_thread (pool s) = M_Done \<and> list_all ended (m_threads (pool s))"
    and "task_fun t \<noteq> None \<Longrightarrow> busy_with t (pool s) + times t (finished s) = times t (taken (pool s))"
    and "main_at s = Main_Adding i \<Longrightarrow> i < 10"
  using assms by (simp_all add: main_ok_def)

lemma ended_quiet:
  assumes "list_all ended ws" "j < length ws"
  shows "ws ! j \<in> {Retired, Shut}"
  using assms by (auto simp: list_all_length ended_def)

lemma main_worker_ok:
  assumes "main_ok s" "main_act (Pool_Worker j) s = Some s'"
  shows "main_ok s'"
proof -
  note ok = main_okD [OF assms(1)]
  obtain q where q: "worker_step j (pool s) = Some q" "s' = s\<lparr>pool := q, finished := finished s @ ran j (pool s)\<rparr>"
    using assms(2) by auto
  note m = worker_step_main [OF q(1)]
  have "j < length (m_threads (pool s))" using q(1) by (simp add: worker_step_def split: if_splits)
  then have "main_at s \<noteq> Main_Ended"
    using ok(6) ended_quiet [of "m_threads (pool s)" j] q(1) by (auto simp: worker_step_def)
  moreover have "busy_with t q + times t (finished s') = times t (taken q)" if "task_fun t \<noteq> None" for t
    using ok(7) [OF that] worker_step_busy [OF q(1) that] q(2) by simp
  ultimately show ?thesis
    using ok worker_step_ok [OF ok(1) q(1)] m q(2) by (simp add: main_ok_def)
qed

lemma main_manager_ok:
  assumes "main_ok s" "main_act Pool_Manager s = Some s'"
  shows "main_ok s'"
proof -
  note ok = main_okD [OF assms(1)]
  obtain q where q: "manager_step (pool s) = Some q" "s' = s\<lparr>pool := q\<rparr>" using assms(2) by auto
  note m = manager_step_busy [OF q(1)]
  have "main_at s \<noteq> Main_Ended" using ok(6) q(1) by (auto simp: manager_step_def)
  then show ?thesis using ok manager_step_ok [OF ok(1) q(1)] m q(2) by (simp add: main_ok_def)
qed

lemma main_wake_ok:
  assumes "main_ok s" "main_act (Wake_Up j) s = Some s'"
  shows "main_ok s'"
proof -
  note ok = main_okD [OF assms(1)]
  obtain q where q: "pool_act (Spurious j) (pool s) = Some q" "s' = s\<lparr>pool := q\<rparr>" using assms(2) by auto
  then have j: "j < length (m_threads (pool s))" "m_threads (pool s) ! j = Asleep"
    and q': "q = (pool s)\<lparr>m_threads := (m_threads (pool s))[j := Entering]\<rparr>" by (auto split: if_splits)
  then have "main_at s \<noteq> Main_Ended" using ok(6) ended_quiet by force
  then show ?thesis using ok pool_act_ok [OF ok(1) q(1)] q' q(2) j by (simp add: main_ok_def cnt_update)
qed

text \<open>The steps of \<open>main\<close> itself leave running and finished tasks alone.\<close>

lemma adder_steps_busy:
  "add_test i task p = Some q \<Longrightarrow> busy_with t q = busy_with t p \<and> taken q = taken p"
  "add_push i p = Some q \<Longrightarrow> busy_with t q = busy_with t p \<and> taken q = taken p"
  "add_notify i j p = Some q \<Longrightarrow> busy_with t q = busy_with t p \<and> taken q = taken p"
  "dtor_step p = Some q \<Longrightarrow> busy_with t q = busy_with t p \<and> taken q = taken p"
  by (auto simp: add_test_def add_push_def add_notify_def dtor_step_def cnt_update cnt_notify Let_def
      split: if_splits adder_pc.splits dtor_pc.splits)

lemma main_loop_ok:
  assumes "main_ok s" "main_at s = Main_Loop i" "main_step j s = Some s'"
  shows "main_ok s'"
proof (cases "i < 10")
  case True
  note ok = main_okD [OF assms(1)]
  obtain q where q: "add_test 0 (number_task i) (pool s) = Some q" using assms(2,3) True by (auto simp: main_step_def)
  have ns: "\<not> m_shutdown (pool s)" using ok(5) assms(2) by simp
  have s': "s' = s\<lparr>pool := q, main_at := Main_Adding i\<rparr>" using assms(2,3) True q ns by (simp add: main_step_def)
  have "q = (pool s)\<lparr>adders := [Allowed (number_task i)]\<rparr>" using q ns ok(4) assms(2) by (auto simp: add_test_def split: if_splits)
  moreover have "pool_ok q" using pool_act_ok [OF ok(1), of "Add_Test 0 (number_task i)"] q by simp
  ultimately show ?thesis using ok s' assms(2) ns True by (simp add: main_ok_def)
next
  case False
  then have "s' = s\<lparr>main_at := Main_Sleeping\<rparr>" using assms(2,3) by (simp add: main_step_def)
  then show ?thesis using main_okD [OF assms(1)] assms(2) False by (simp add: main_ok_def)
qed

lemma main_push_ok:
  assumes "main_ok s" "main_at s = Main_Adding i" "main_step j s = Some s'"
  shows "main_ok s'"
proof -
  note ok = main_okD [OF assms(1)]
  obtain q where q: "add_push 0 (pool s) = Some q" "s' = s\<lparr>pool := q, main_at := Main_Added i\<rparr>"
    using assms(2,3) by (auto simp: main_step_def)
  then have "q = (pool s)\<lparr>m_task_queue := queue_add_task (number_task i) (m_task_queue (pool s)),
      added := added (pool s) @ [number_task i], adders := [Added]\<rparr>"
    using ok(4) assms(2) by (auto simp: add_push_def)
  moreover have "pool_ok q" using pool_act_ok [OF ok(1), of "Add_Push 0"] q(1) by simp
  ultimately show ?thesis using ok q(2) assms(2) by (simp add: main_ok_def)
qed

lemma main_notify_ok:
  assumes "main_ok s" "main_at s = Main_Added i" "main_step j s = Some s'"
  shows "main_ok s'"
proof -
  note ok = main_okD [OF assms(1)]
  obtain q where q: "add_notify 0 j (pool s) = Some q" "s' = s\<lparr>pool := q, main_at := Main_Loop (i + 1)\<rparr>"
    using assms(2,3) by (auto simp: main_step_def)
  then have "adders q = [Idle] \<and> added q = added (pool s) \<and> m_shutdown q = m_shutdown (pool s)"
    using ok(4) assms(2) by (auto simp: add_notify_def Let_def split: if_splits)
  moreover have "pool_ok q" using pool_act_ok [OF ok(1), of "Add_Notify 0 j"] q(1) by simp
  ultimately show ?thesis using ok q(2) assms(2) adder_steps_busy(3) [OF q(1)] by (simp add: main_ok_def)
qed

lemma main_return_ok:
  assumes "main_ok s" "main_at s = Main_Returning" "main_step j s = Some s'"
  shows "main_ok s'"
proof -
  note ok = main_okD [OF assms(1)]
  obtain q where q: "dtor_step (pool s) = Some q"
      "s' = s\<lparr>pool := q, main_at := (if dtor q = Joined then Main_Ended else Main_Returning)\<rparr>"
    using assms(2,3) by (auto simp: main_step_def)
  then have "adders q = adders (pool s) \<and> added q = added (pool s)
      \<and> (dtor q = Joined \<longrightarrow> m_manager_thread q = M_Done \<and> list_all ended (m_threads q))"
    by (auto simp: dtor_step_def split: dtor_pc.splits if_splits)
  moreover have "pool_ok q" using pool_act_ok [OF ok(1), of Dtor] q(1) by simp
  ultimately show ?thesis using ok q(2) assms(2) adder_steps_busy(4) [OF q(1)] by (simp add: main_ok_def)
qed

lemma main_act_ok:
  assumes "main_ok s" "main_act a s = Some s'"
  shows "main_ok s'"
proof (cases a)
  case (Main j)
  then have step: "main_step j s = Some s'" using assms(2) by simp
  show ?thesis
  proof (cases "main_at s")
    case Main_Sleeping
    then have "s' = s\<lparr>main_at := Main_Returning\<rparr>" using step by (simp add: main_step_def)
    then show ?thesis using main_okD [OF assms(1)] Main_Sleeping by (simp add: main_ok_def)
  next
    case Main_Ended
    then show ?thesis using step by (simp add: main_step_def)
  qed (use assms(1) step in \<open>blast intro: main_loop_ok main_push_ok main_notify_ok main_return_ok\<close>)+
qed (use assms in \<open>blast intro: main_worker_ok main_manager_ok main_wake_ok\<close>)+

interpretation mains: interleaving main_act main_ok
  by unfold_locales (rule main_act_ok)

section \<open>Properties\<close>

lemma number_task_eq [simp]: "number_task i = number_task k \<longleftrightarrow> i = k"
  by (simp add: number_task_def)

lemma count_number_tasks: "count_list (map number_task [0..<k]) (number_task i) = (if i < k then 1 else 0)"
  by (induction k) auto

text \<open>
  C12. The example program runs no task twice. In every interleaving of its main thread with the workers and the manager, the tasks taken are the
  tasks 0 to k - 1 for some k; each of these is either running in exactly one worker or has run exactly once, and
  no other has started. When the program has ended, exactly those k have run and printed their line; the other tasks were dropped.
\<close>

theorem example_runs_tasks_once:
  assumes "schedule main_act as main_start = Some s"
  shows "\<exists>k \<le> 10. taken (pool s) = map number_task [0..<k]
    \<and> (\<forall>i. cnt (\<lambda>w. w = Running (number_task i)) (m_threads (pool s)) + int (count_list (finished s) (number_task i))
          = (if i < k then 1 else 0))
    \<and> (main_at s = Main_Ended \<longrightarrow> (\<forall>i. count_list (finished s) (number_task i) = (if i < k then 1 else 0)))"
proof -
  note ok = main_okD [OF mains.schedule_inv [OF assms main_start_ok]]
  define n where "n = pushed (main_at s)"
  define k where "k = length (taken (pool s))"
  have added: "map number_task [0..<n] = taken (pool s) @ m_task_queue (pool s)"
    using ok(1,3) by (simp add: pool_ok_def n_def)
  then have "k \<le> n" by (metis k_def length_append le_add1 length_map length_upt diff_zero)
  have "taken (pool s) = take k (map number_task [0..<n])" using added by (simp add: k_def)
  then have taken: "taken (pool s) = map number_task [0..<k]" using \<open>k \<le> n\<close> by (simp add: take_map)
  have run: "busy_with (number_task i) (pool s) + times (number_task i) (finished s) = (if i < k then 1 else 0)" for i
    using ok(7) [of "number_task i"] taken by (simp add: count_number_tasks) (simp add: number_task_def)
  have "busy_with t (pool s) = 0" if "main_at s = Main_Ended" for t
    using ok(6) [OF that] by (auto simp: cnt_zero_iff list_all_iff ended_def)
  then have "count_list (finished s) (number_task i) = (if i < k then 1 else 0)" if "main_at s = Main_Ended" for i
    using run [of i] that by (auto split: if_splits)
  moreover have "k \<le> 10" using \<open>k \<le> n\<close> ok(2) by (simp add: n_def)
  ultimately show ?thesis using taken run by blast
qed

theorem example_runs_tasks_once_witness:
  "\<exists>s k. schedule main_act [Main 0, Main 0, Pool_Worker 0, Pool_Worker 0] main_start = Some s \<and> finished s = [number_task 0]
     \<and> test_task (task_arg (hd (finished s))) = Some (''Task with number 0 is running.'' @ [LF])
     \<and> taken (pool s) = map number_task [0..<k]"
proof -
  obtain s where s: "schedule main_act [Main 0, Main 0, Pool_Worker 0, Pool_Worker 0] main_start = Some s" "finished s = [number_task 0]"
    by (simp add: main_start_def main_step_def ran_def number_task_def pool_eval numeral_eq_Suc)
  have "dec 0 = ''0''" by code_simp
  then show ?thesis using example_runs_tasks_once [OF s(1)] s by (auto simp: test_task_def number_task_def)
qed

end
