(* ===== verification/Chat_Server.thy ===== *)
theory Chat_Server
  imports Sockets
begin

text \<open>
  The chat server (\<open>chat_serv.cpp\<close>): a table of polled descriptors, the first one the listening socket, and an array
  of client data indexed by descriptor. The event masks are 16-bit words, as in \<open>struct pollfd\<close>. What the kernel
  answers (the ready events, the connections accepted, the bytes received) is an argument.

  A client's \<open>write_buf\<close> points to the buffer of the client whose message it is to send, so it is
  modelled by that client's descriptor. The array is not initialised; a pointer read before it was set is \<open>Wild\<close>.
\<close>

definition USER_LIMIN :: int where "USER_LIMIN = 5"
definition BUFFER_SIZE :: nat where "BUFFER_SIZE = 64"
definition FD_LIMIT :: int where "FD_LIMIT = 65535"

record pollfd =
  fd :: int
  events :: "16 word"
  revents :: "16 word"

datatype buf_pointer = Null | Buf_Of int | Wild

record 'addr client_data =
  address :: 'addr
  write_buf :: buf_pointer
  buf :: string

text \<open>
  The variables of \<open>main\<close>; \<open>open_conns\<close> records which accepted connections the program has not closed.
\<close>

record 'addr chat =
  serv_sock :: int
  users :: "int \<Rightarrow> 'addr client_data"
  fds :: "pollfd list"
  user_counter :: int
  open_conns :: "int set"

text \<open>The state before the loop; the array of client data is not initialised.\<close>

definition chat_start :: "int \<Rightarrow> (int \<Rightarrow> 'addr client_data) \<Rightarrow> 'addr chat" where
  "chat_start sock junk =
     \<lparr>serv_sock = sock, users = junk,
      fds = \<lparr>fd = sock, events = POLLIN OR POLLERR, revents = 0\<rparr> # replicate (nat USER_LIMIN) \<lparr>fd = -1, events = 0, revents = 0\<rparr>,
      user_counter = 0, open_conns = {}\<rparr>"

text \<open>The set-up of \<open>main\<close>.\<close>

definition chat_setup ::
  "server_env \<Rightarrow> string list \<Rightarrow> (int \<Rightarrow> 'addr client_data) \<Rightarrow> sys_call list \<times> (cpp_error + 'addr chat)" where
  "chat_setup env args junk =
     (case open_server env args of
        (calls, Inl e) \<Rightarrow> (calls, Inl e)
      | (calls, Inr s) \<Rightarrow> (calls, Inr (chat_start s junk)))"

section \<open>One ready descriptor\<close>

datatype recv_result = Recv_Error bool | Recv string  \<comment> \<open>an error, and whether it is \<open>EAGAIN\<close>; or the bytes\<close>

record 'addr chat_io =
  io_accept :: "(int \<times> 'addr) option"
  io_fcntl :: "int \<times> int"
  io_recv :: recv_result

datatype chat_effect = Sent int string | Closed int | Sys sys_call

definition valid_user :: "int \<Rightarrow> bool" where
  "valid_user f = (0 \<le> f \<and> f < FD_LIMIT)"

text \<open>The four branches. A result is the effects, the index to go on with, and the state.\<close>

type_synonym 'addr chat_result = "cpp_error + chat_effect list \<times> int \<times> 'addr chat"

definition accept_branch :: "int \<times> int \<Rightarrow> (int \<times> 'addr) option \<Rightarrow> int \<Rightarrow> 'addr chat \<Rightarrow> 'addr chat_result" where
  "accept_branch fcntl acc i c =
     (case acc of
        None \<Rightarrow> Inl (ExitCall 1)
      | Some (sock, addr) \<Rightarrow>
          if user_counter c \<ge> USER_LIMIN
          then Inr ([Sent sock (''too many users'' @ [LF]), Closed sock], i + 1, c)
          else
            (let n = user_counter c + 1 in
             if \<not> valid_user sock then Inl UndefinedBehaviour
             else case store (fds c) n \<lparr>fd = sock, events = POLLIN OR POLLRDHUP OR POLLERR, revents = 0\<rparr> of
                    None \<Rightarrow> Inl UndefinedBehaviour
                  | Some t \<Rightarrow>
                      Inr (map Sys (fst (chat_set_nonblocking (fst fcntl) (snd fcntl) sock)), i + 1,
                        c\<lparr>user_counter := n, users := (users c)(sock := (users c sock)\<lparr>address := addr\<rparr>),
                        fds := t, open_conns := insert sock (open_conns c)\<rparr>)))"

text \<open>Removing entry \<open>i\<close>: the last entry takes its place, and its client data overwrites the leaver's.\<close>

definition drop_client :: "int \<Rightarrow> 'addr chat \<Rightarrow> 'addr chat_result" where
  "drop_client i c =
     (case (load (fds c) i, load (fds c) (user_counter c)) of
        (Some p, Some l) \<Rightarrow>
          if \<not> valid_user (fd p) \<or> \<not> valid_user (fd l) then Inl UndefinedBehaviour
          else case store (fds c) i l of
                 None \<Rightarrow> Inl UndefinedBehaviour
               | Some t \<Rightarrow>
                   Inr ([Closed (fd p)], i, c\<lparr>users := (users c)(fd p := users c (fd l)), fds := t,
                     user_counter := user_counter c - 1, open_conns := open_conns c - {fd p}\<rparr>)
      | _ \<Rightarrow> Inl UndefinedBehaviour)"

text \<open>Telling all other clients to write: entries \<open>k\<close> to \<open>user_counter\<close>.\<close>

fun broadcast :: "nat \<Rightarrow> nat \<Rightarrow> int \<Rightarrow> 'addr chat \<Rightarrow> cpp_error + 'addr chat" where
  "broadcast 0 k connfd c = Inr c"
| "broadcast (Suc n) k connfd c =
     (case peek (fds c) k of
        None \<Rightarrow> Inl UndefinedBehaviour
      | Some p \<Rightarrow>
          if fd p = connfd then broadcast n (Suc k) connfd c
          else if \<not> valid_user (fd p) then Inl UndefinedBehaviour
          else broadcast n (Suc k) connfd
                 (c\<lparr>fds := (fds c)[k := p\<lparr>events := (events p OR NOT POLLIN) OR POLLOUT\<rparr>],
                   users := (users c)(fd p := (users c (fd p))\<lparr>write_buf := Buf_Of connfd\<rparr>)\<rparr>))"

definition read_branch :: "recv_result \<Rightarrow> int \<Rightarrow> pollfd \<Rightarrow> 'addr chat \<Rightarrow> 'addr chat_result" where
  "read_branch r i p c =
     (if \<not> valid_user (fd p) then Inl UndefinedBehaviour
      else let got = (case r of Recv_Error again \<Rightarrow> [] | Recv bytes \<Rightarrow> take (BUFFER_SIZE - 1) bytes);
               c = c\<lparr>users := (users c)(fd p := (users c (fd p))\<lparr>buf := got @ replicate (BUFFER_SIZE - length got) NUL\<rparr>)\<rparr> in
           case r of
             Recv_Error again \<Rightarrow> (if again then Inr ([], i + 1, c) else drop_client i c)
           | Recv bytes \<Rightarrow>
               if bytes = [] then Inr ([], i + 1, c)
               else (case broadcast (nat (user_counter c)) 1 (fd p) c of
                       Inl e \<Rightarrow> Inl e
                     | Inr c \<Rightarrow> Inr ([], i + 1, c)))"

definition write_branch :: "int \<Rightarrow> pollfd \<Rightarrow> 'addr chat \<Rightarrow> 'addr chat_result" where
  "write_branch i p c =
     (if \<not> valid_user (fd p) then Inl UndefinedBehaviour
      else case write_buf (users c (fd p)) of
             Null \<Rightarrow> Inr ([], i + 1, c)
           | Wild \<Rightarrow> Inl UndefinedBehaviour
           | Buf_Of src \<Rightarrow>
               (case c_string (buf (users c src)) 0 of
                  None \<Rightarrow> Inl UndefinedBehaviour
                | Some text \<Rightarrow>
                    (case store (fds c) i (p\<lparr>events := (events p OR NOT POLLOUT) OR POLLIN\<rparr>) of
                       None \<Rightarrow> Inl UndefinedBehaviour
                     | Some t \<Rightarrow>
                         Inr ([Sent (fd p) text], i + 1,
                           c\<lparr>users := (users c)(fd p := (users c (fd p))\<lparr>write_buf := Null\<rparr>), fds := t\<rparr>))))"

definition serve_one :: "'addr chat_io \<Rightarrow> int \<Rightarrow> 'addr chat \<Rightarrow> 'addr chat_result" where
  "serve_one io i c =
     (case load (fds c) i of
        None \<Rightarrow> Inl UndefinedBehaviour
      | Some p \<Rightarrow>
          if fd p = serv_sock c \<and> revents p AND POLLIN \<noteq> 0 then accept_branch (io_fcntl io) (io_accept io) i c
          else if revents p AND POLLERR \<noteq> 0 then Inr ([Sys (Getsockopt (fd p))], i + 1, c)
          else if revents p AND POLLRDHUP \<noteq> 0 then drop_client i c
          else if revents p AND POLLIN \<noteq> 0 then read_branch (io_recv io) i p c
          else if revents p AND POLLOUT \<noteq> 0 then write_branch i p c
          else Inr ([], i + 1, c))"

section \<open>The loop\<close>

text \<open>What \<open>poll\<close> reports, for the entries it is given.\<close>

definition poll_result :: "(nat \<Rightarrow> 16 word) \<Rightarrow> 'addr chat \<Rightarrow> 'addr chat" where
  "poll_result rv c =
     c\<lparr>fds := map (\<lambda>k. if int k \<le> user_counter c then (fds c ! k)\<lparr>revents := rv k\<rparr> else fds c ! k) [0..<length (fds c)]\<rparr>"

text \<open>The inner loop over the table, with fuel and the kernel's answer at each pass; \<open>None\<close> is fuel used up.\<close>

fun serve_all ::
  "nat \<Rightarrow> (nat \<Rightarrow> 'addr chat_io) \<Rightarrow> nat \<Rightarrow> int \<Rightarrow> 'addr chat \<Rightarrow> (cpp_error + chat_effect list \<times> 'addr chat) option" where
  "serve_all 0 io n i c = None"
| "serve_all (Suc fuel) io n i c =
     (if i < user_counter c + 1 then
        (case serve_one (io n) i c of
           Inl e \<Rightarrow> Some (Inl e)
         | Inr (es, i', c') \<Rightarrow>
             (case serve_all fuel io (Suc n) i' c' of
                None \<Rightarrow> None
              | Some (Inl e) \<Rightarrow> Some (Inl e)
              | Some (Inr (es', c'')) \<Rightarrow> Some (Inr (es @ es', c''))))
      else Some (Inr ([], c)))"

definition chat_round ::
  "nat \<Rightarrow> (nat \<Rightarrow> 16 word) option \<Rightarrow> (nat \<Rightarrow> 'addr chat_io) \<Rightarrow> 'addr chat
   \<Rightarrow> (cpp_error + chat_effect list \<times> 'addr chat) option" where
  "chat_round fuel polled io c =
     (case polled of
        None \<Rightarrow> Some (Inl (ExitCall 1))
      | Some rv \<Rightarrow> serve_all fuel io 0 0 (poll_result rv c))"

text \<open>The outer loop, for as many rounds as answers of \<open>poll\<close> are given.\<close>

fun chat_rounds ::
  "((nat \<Rightarrow> 16 word) option \<times> (nat \<Rightarrow> 'addr chat_io)) list \<Rightarrow> 'addr chat \<Rightarrow> (cpp_error + chat_effect list \<times> 'addr chat) option" where
  "chat_rounds [] c = Some (Inr ([], c))"
| "chat_rounds ((polled, io) # rs) c =
     (case chat_round 18 polled io c of
        None \<Rightarrow> None
      | Some (Inl e) \<Rightarrow> Some (Inl e)
      | Some (Inr (es, c')) \<Rightarrow>
          (case chat_rounds rs c' of
             None \<Rightarrow> None
           | Some (Inl e) \<Rightarrow> Some (Inl e)
           | Some (Inr (es', c'')) \<Rightarrow> Some (Inr (es @ es', c''))))"

section \<open>The invariant\<close>

text \<open>The entries of the connected clients.\<close>

definition table :: "'addr chat \<Rightarrow> pollfd list" where
  "table c = take (nat (user_counter c)) (tl (fds c))"

definition entry_ok :: "(int \<Rightarrow> 'addr client_data) \<Rightarrow> pollfd \<Rightarrow> bool" where
  "entry_ok us p \<longleftrightarrow> valid_user (fd p)
     \<and> (events p AND POLLOUT \<noteq> 0 \<or> revents p AND POLLOUT \<noteq> 0 \<longrightarrow> write_buf (us (fd p)) \<noteq> Wild)"

text \<open>
  The buffers are not part of the invariant, since the array they lie in is not initialised. \<open>unterminated\<close> says that
  \<open>strlen\<close> would run off some buffer, \<open>buffers_from\<close> that every buffer of the second state is terminated or is a copy
  of one of the first.
\<close>

definition unterminated :: "(int \<Rightarrow> 'addr client_data) \<Rightarrow> bool" where
  "unterminated us \<longleftrightarrow> (\<exists>f. c_string (buf (us f)) 0 = None)"

definition buffers_from :: "'addr chat \<Rightarrow> 'addr chat \<Rightarrow> bool" where
  "buffers_from c c' \<longleftrightarrow> (\<forall>f. c_string (buf (users c' f)) 0 \<noteq> None \<or> (\<exists>g. buf (users c' f) = buf (users c g)))"

lemma buffers_from_refl [simp, intro]: "users c' = users c \<Longrightarrow> buffers_from c c'"
  by (auto simp: buffers_from_def)

lemma buffers_from_trans [trans]: "buffers_from c c' \<Longrightarrow> buffers_from c' c'' \<Longrightarrow> buffers_from c c''"
  unfolding buffers_from_def by metis

lemma unterminated_from: "buffers_from c c' \<Longrightarrow> unterminated (users c') \<Longrightarrow> unterminated (users c)"
  unfolding buffers_from_def unterminated_def by metis

lemma buffers_from_copy: "\<forall>f. \<exists>g. buf (users c' f) = buf (users c g) \<Longrightarrow> buffers_from c c'"
  by (simp add: buffers_from_def)

definition chat_inv :: "'addr chat \<Rightarrow> bool" where
  "chat_inv c \<longleftrightarrow>
     length (fds c) = 6 \<and> 0 \<le> user_counter c \<and> user_counter c \<le> USER_LIMIN
     \<and> fd (hd (fds c)) = serv_sock c \<and> events (hd (fds c)) = POLLIN OR POLLERR
     \<and> revents (hd (fds c)) AND POLLRDHUP = 0 \<and> revents (hd (fds c)) AND POLLOUT = 0
     \<and> serv_sock c \<notin> open_conns c
     \<and> distinct (map fd (table c)) \<and> fd ` set (table c) = open_conns c
     \<and> (\<forall>p \<in> set (table c). entry_ok (users c) p)"

text \<open>
  What the kernel guarantees of a descriptor it hands out: it is not negative and not in use. It may be any number the
  process limit allows, also one that is not below \<open>FD_LIMIT\<close>.
\<close>

definition accept_fresh :: "'addr chat_io \<Rightarrow> 'addr chat \<Rightarrow> bool" where
  "accept_fresh io c \<longleftrightarrow>
     (\<forall>s a. io_accept io = Some (s, a) \<longrightarrow> 0 \<le> s \<and> s \<noteq> serv_sock c \<and> s \<notin> open_conns c)"

lemma poll_masks:
  "POLLIN \<noteq> 0" "POLLOUT \<noteq> 0" "POLLRDHUP \<noteq> 0" "POLLERR \<noteq> 0" "POLLIN AND POLLERR = 0" "POLLIN AND POLLRDHUP = 0"
  "POLLRDHUP AND POLLERR = 0" "POLLRDHUP AND POLLIN = 0" "POLLOUT AND POLLERR = 0" "POLLOUT AND POLLRDHUP = 0" "POLLOUT AND POLLIN = 0" "POLLIN AND POLLOUT = 0"
  by (simp_all add: POLLIN_def POLLOUT_def POLLRDHUP_def POLLERR_def)

lemma chat_start_inv: "chat_inv (chat_start sock junk)"
  by (simp add: chat_inv_def chat_start_def table_def USER_LIMIN_def)

lemma load_table:
  assumes "chat_inv c" "1 \<le> i" "i \<le> user_counter c"
  shows "load (fds c) i = Some (table c ! nat (i - 1))" "nat (i - 1) < length (table c)"
proof -
  obtain h rest where f: "fds c = h # rest" "length rest = 5"
    using assms(1) by (cases "fds c") (auto simp: chat_inv_def)
  have "nat i = Suc (nat (i - 1))" using assms(2) by simp
  then show "load (fds c) i = Some (table c ! nat (i - 1))"
    using assms f by (auto simp: load_def table_def chat_inv_def USER_LIMIN_def)
  show "nat (i - 1) < length (table c)"
    using assms f by (auto simp: table_def chat_inv_def USER_LIMIN_def)
qed

lemma load_header: "chat_inv c \<Longrightarrow> load (fds c) 0 = Some (hd (fds c))"
  by (cases "fds c") (auto simp: chat_inv_def load_def)

text \<open>A connection that is accepted is added at the end of the table.\<close>

lemma accept_inv:
  assumes inv: "chat_inv c" and fresh: "accept_fresh io c" and step: "accept_branch (io_fcntl io) (io_accept io) i c = Inr (es, i', c')"
  shows "chat_inv c' \<and> i' = i + 1 \<and> user_counter c' \<le> user_counter c + 1 \<and> serv_sock c' = serv_sock c \<and> buffers_from c c'"
proof -
  obtain h rest where f: "fds c = h # rest" "length rest = 5"
    using inv by (cases "fds c") (auto simp: chat_inv_def)
  obtain s a where acc: "io_accept io = Some (s, a)" using step by (auto simp: accept_branch_def split: option.splits)
  have s: "s \<noteq> serv_sock c" "s \<notin> open_conns c" using fresh acc by (auto simp: accept_fresh_def)
  show ?thesis
  proof (cases "user_counter c \<ge> USER_LIMIN")
    case True
    then show ?thesis using step inv acc by (auto simp: accept_branch_def)
  next
    case False
    let ?n = "nat (user_counter c)"
    let ?p = "\<lparr>fd = s, events = POLLIN OR POLLRDHUP OR POLLERR, revents = 0\<rparr>"
    have v: "valid_user s" using step False acc by (auto simp: accept_branch_def Let_def split: if_splits)
    have n: "?n < 5" "0 \<le> user_counter c" using False inv by (auto simp: USER_LIMIN_def chat_inv_def)
    have st: "store (fds c) (user_counter c + 1) ?p = Some (h # rest[?n := ?p])"
      using f n by (simp add: store_def nat_add_distrib)
    have c': "c' = c\<lparr>user_counter := user_counter c + 1, users := (users c)(s := (users c s)\<lparr>address := a\<rparr>),
        fds := h # rest[?n := ?p], open_conns := insert s (open_conns c)\<rparr>" "i' = i + 1"
      using step False acc v st by (auto simp: accept_branch_def Let_def)
    have tab: "table c' = table c @ [?p]"
      using f n c'(1) by (simp add: table_def nat_add_distrib take_Suc_conv_app_nth)
    have "entry_ok (users c') ?p"
      using v by (simp add: entry_ok_def POLLIN_def POLLRDHUP_def POLLERR_def POLLOUT_def)
    moreover have "entry_ok (users c') p" if "p \<in> set (table c)" for p
      using that inv c'(1) by (auto simp: chat_inv_def entry_ok_def)
    moreover have "buffers_from c c'" using c'(1) by (intro buffers_from_copy) auto
    ultimately show ?thesis
      using inv s c' f n tab by (auto simp: chat_inv_def USER_LIMIN_def)
  qed
qed

text \<open>Removing an entry: the last one takes its place.\<close>

lemma butlast_update_set:
  assumes "distinct (map f xs)" "j < length xs"
  shows "distinct (map f (butlast (xs[j := last xs])))
    \<and> f ` set (butlast (xs[j := last xs])) = f ` set xs - {f (xs ! j)}
    \<and> set (butlast (xs[j := last xs])) \<subseteq> set xs"
proof -
  obtain ys z where xs: "xs = ys @ [z]" using assms(2) by (cases xs rule: rev_cases) auto
  show ?thesis
  proof (cases "j = length ys")
    case True
    then show ?thesis using assms(1) xs by auto
  next
    case False
    then have "j < length ys" using assms(2) xs by simp
    then obtain a y b where ys: "ys = a @ y # b" "length a = j"
      using id_take_nth_drop [of j ys] by (metis length_take min.absorb4)
    then have "butlast (xs[j := last xs]) = a @ z # b" "xs ! j = y"
      using xs by (simp_all add: list_update_append nth_append butlast_append)
    moreover have "f y \<notin> f ` set (a @ z # b)" "distinct (map f (a @ z # b))" using assms(1) xs ys by auto
    moreover have "set xs = insert y (set (a @ z # b))" using xs ys by auto
    ultimately show ?thesis by (simp only: image_insert Diff_insert_absorb subset_insertI simp_thms)
  qed
qed

lemma drop_inv:
  assumes inv: "chat_inv c" and i: "1 \<le> i" "i \<le> user_counter c"
  shows "\<exists>es c'. drop_client i c = Inr (es, i, c') \<and> chat_inv c' \<and> user_counter c' = user_counter c - 1
    \<and> serv_sock c' = serv_sock c \<and> open_conns c' = open_conns c - {fd (table c ! nat (i - 1))}
    \<and> es = [Closed (fd (table c ! nat (i - 1)))] \<and> buffers_from c c'"
proof -
  obtain h rest where f: "fds c = h # rest" "length rest = 5"
    using inv by (cases "fds c") (auto simp: chat_inv_def)
  let ?n = "nat (user_counter c)" and ?j = "nat (i - 1)" and ?xs = "table c"
  have n: "?n \<le> 5" "0 < ?n" using inv i by (auto simp: chat_inv_def USER_LIMIN_def)
  have xs: "?xs = take ?n rest" "length ?xs = ?n" using f n by (simp_all add: table_def)
  have j: "?j < length ?xs" "nat i = Suc ?j" using i xs(2) by auto
  let ?p = "?xs ! ?j"
  have l: "load (fds c) (user_counter c) = Some (last ?xs)"
  proof -
    have "load (fds c) (user_counter c) = Some (?xs ! nat (user_counter c - 1))"
      by (rule load_table [OF inv]) (use i in auto)
    moreover have "?xs ! nat (user_counter c - 1) = last ?xs"
      using xs(2) n by (subst last_conv_nth) (auto simp: nat_diff_distrib)
    ultimately show ?thesis by simp
  qed
  have "?xs \<noteq> []" using j(1) by auto
  then have ok: "entry_ok (users c) ?p" "entry_ok (users c) (last ?xs)"
    using inv j(1) by (auto simp: chat_inv_def)
  have st: "store (fds c) i (last ?xs) = Some (h # rest[?j := last ?xs])"
    using f n i j by (auto simp: store_def)
  define c' where "c' = c\<lparr>users := (users c)(fd ?p := users c (fd (last ?xs))), fds := h # rest[?j := last ?xs],
      user_counter := user_counter c - 1, open_conns := open_conns c - {fd ?p}\<rparr>"
  have eq: "drop_client i c = Inr ([Closed (fd ?p)], i, c')"
    using load_table(1) [OF inv i] l ok st by (simp add: drop_client_def entry_ok_def c'_def)
  have tab: "table c' = butlast (?xs[?j := last ?xs])"
    using f n xs j(1) by (simp add: table_def c'_def butlast_conv_take take_update_swap nat_diff_distrib min_def)
  have dist: "distinct (map fd ?xs)" "fd ` set ?xs = open_conns c" using inv by (simp_all add: chat_inv_def)
  note upd = butlast_update_set [OF dist(1) j(1)]
  have entries: "entry_ok (users c') q" if "q \<in> set (table c')" for q
  proof -
    have "fd q \<in> fd ` set ?xs - {fd ?p}" "q \<in> set ?xs" using that upd tab by auto
    then show ?thesis using inv by (auto simp: chat_inv_def entry_ok_def c'_def)
  qed
  have "chat_inv c'"
    using inv f n i tab upd dist entries by (auto simp: chat_inv_def c'_def)
  moreover have "buffers_from c c'" by (intro buffers_from_copy) (auto simp: c'_def)
  ultimately show ?thesis using eq by (simp add: c'_def)
qed

text \<open>The broadcast in closed form, on any stretch of valid entries.\<close>

definition asked_to_write :: "int \<Rightarrow> pollfd \<Rightarrow> pollfd" where
  "asked_to_write connfd p =
     (if fd p = connfd then p else p\<lparr>events := (events p OR NOT POLLIN) OR POLLOUT\<rparr>)"

definition told_to_write :: "int \<Rightarrow> int set \<Rightarrow> (int \<Rightarrow> 'addr client_data) \<Rightarrow> int \<Rightarrow> 'addr client_data" where
  "told_to_write connfd F us f = (if f \<in> F \<and> f \<noteq> connfd then (us f)\<lparr>write_buf := Buf_Of connfd\<rparr> else us f)"

lemma fd_asked [simp]: "fd (asked_to_write connfd p) = fd p"
  by (simp add: asked_to_write_def)

lemma broadcast_spec:
  assumes "fds c = pre @ xs @ post" "\<forall>p \<in> set xs. valid_user (fd p)"
  shows "broadcast (length xs) (length pre) connfd c =
    Inr (c\<lparr>fds := pre @ map (asked_to_write connfd) xs @ post, users := told_to_write connfd (fd ` set xs) (users c)\<rparr>)"
  using assms
proof (induction xs arbitrary: pre c)
  case Nil
  have "told_to_write connfd {} (users c) = users c" by (rule ext) (simp add: told_to_write_def)
  then show ?case using Nil by simp
next
  case (Cons p xs)
  have peek: "peek (fds c) (length pre) = Some p" using Cons.prems(1) by simp
  show ?case
  proof (cases "fd p = connfd")
    case True
    have "told_to_write connfd (fd ` set (p # xs)) (users c) = told_to_write connfd (fd ` set xs) (users c)"
      using True by (auto simp: told_to_write_def fun_eq_iff)
    then show ?thesis
      using Cons.IH [of c "pre @ [p]"] Cons.prems True peek by (simp add: asked_to_write_def)
  next
    case False
    let ?c = "c\<lparr>fds := (fds c)[length pre := p\<lparr>events := (events p OR NOT POLLIN) OR POLLOUT\<rparr>],
        users := (users c)(fd p := (users c (fd p))\<lparr>write_buf := Buf_Of connfd\<rparr>)\<rparr>"
    have "fds ?c = (pre @ [asked_to_write connfd p]) @ xs @ post"
      using Cons.prems(1) False by (simp add: asked_to_write_def list_update_append)
    then have "broadcast (length xs) (length (pre @ [asked_to_write connfd p])) connfd ?c =
      Inr (?c\<lparr>fds := (pre @ [asked_to_write connfd p]) @ map (asked_to_write connfd) xs @ post,
        users := told_to_write connfd (fd ` set xs) (users ?c)\<rparr>)"
      by (rule Cons.IH) (use Cons.prems(2) in simp)
    moreover have "told_to_write connfd (fd ` set xs) (users ?c) = told_to_write connfd (fd ` set (p # xs)) (users c)"
      using False by (auto simp: told_to_write_def fun_eq_iff)
    moreover have "broadcast (length (p # xs)) (length pre) connfd c = broadcast (length xs) (length (pre @ [asked_to_write connfd p])) connfd ?c"
      using peek False Cons.prems(2) by simp
    ultimately show ?thesis by simp
  qed
qed

lemma fds_split:
  assumes "chat_inv c"
  shows "fds c = [hd (fds c)] @ table c @ drop (Suc (length (table c))) (fds c)" "length (table c) = nat (user_counter c)"
proof -
  obtain h rest where f: "fds c = h # rest" "length rest = 5"
    using assms by (cases "fds c") (auto simp: chat_inv_def)
  show len: "length (table c) = nat (user_counter c)"
    using f assms by (auto simp: table_def chat_inv_def USER_LIMIN_def)
  show "fds c = [hd (fds c)] @ table c @ drop (Suc (length (table c))) (fds c)"
    unfolding len using f by (simp add: table_def)
qed

lemma table_entry:
  assumes "chat_inv c" "p \<in> set (table c)"
  shows "valid_user (fd p)" "fd p \<in> open_conns c" "fd p \<noteq> serv_sock c"
proof -
  show "valid_user (fd p)" using assms by (simp add: chat_inv_def entry_ok_def)
  show "fd p \<in> open_conns c" using assms by (auto simp: chat_inv_def)
  then show "fd p \<noteq> serv_sock c" using assms(1) by (auto simp: chat_inv_def)
qed

lemma store_entry:
  assumes "chat_inv c" "j < length (table c)"
  shows "\<exists>t. store (fds c) (int j + 1) q = Some t \<and> length t = length (fds c) \<and> hd t = hd (fds c)
    \<and> take (nat (user_counter c)) (tl t) = (table c)[j := q]"
proof -
  let ?rest = "drop (Suc (length (table c))) (fds c)"
  let ?t = "hd (fds c) # (table c)[j := q] @ ?rest"
  have f: "fds c = hd (fds c) # table c @ ?rest" using fds_split(1) [OF assms(1)] by simp
  have "nat (int j + 1) = Suc j" by simp
  then have "(fds c)[nat (int j + 1) := q] = ?t"
    using assms(2) by (subst f) (simp add: list_update_append)
  moreover have "int j + 1 < int (length (fds c))" using arg_cong [OF f, of length] assms(2) by simp
  moreover have "length ?t = length (fds c)" using arg_cong [OF f, of length] by simp
  moreover have "take (nat (user_counter c)) (tl ?t) = (table c)[j := q]" using fds_split(2) [OF assms(1)] by simp
  ultimately show ?thesis by (intro exI [of _ ?t]) (simp add: store_def)
qed

lemma broadcast_inv:
  assumes "chat_inv c"
  shows "\<exists>c'. broadcast (nat (user_counter c)) 1 connfd c = Inr c' \<and> chat_inv c' \<and> user_counter c' = user_counter c
    \<and> serv_sock c' = serv_sock c \<and> table c' = map (asked_to_write connfd) (table c)
    \<and> users c' = told_to_write connfd (open_conns c) (users c) \<and> open_conns c' = open_conns c \<and> buffers_from c c'"
proof -
  let ?rest = "drop (Suc (length (table c))) (fds c)"
  define c' where "c' = c\<lparr>fds := [hd (fds c)] @ map (asked_to_write connfd) (table c) @ ?rest,
      users := told_to_write connfd (open_conns c) (users c)\<rparr>"
  note split = fds_split [OF assms]
  have valid: "\<forall>p \<in> set (table c). valid_user (fd p)" and opn: "fd ` set (table c) = open_conns c"
    using assms by (auto simp: chat_inv_def entry_ok_def)
  have eq: "broadcast (nat (user_counter c)) 1 connfd c = Inr c'"
    using broadcast_spec [OF split(1) valid, of connfd] split(2) opn by (simp add: c'_def)
  have tab: "table c' = map (asked_to_write connfd) (table c)"
    unfolding table_def [of c'] using split(2) by (simp add: c'_def)
  have "length (fds c') = length (fds c)"
    using arg_cong [OF split(1), of length] by (simp add: c'_def)
  moreover have "entry_ok (users c') (asked_to_write connfd p)" if "p \<in> set (table c)" for p
    using that assms opn by (auto simp: chat_inv_def entry_ok_def asked_to_write_def told_to_write_def c'_def)
  moreover have "fd ` set (table c') = open_conns c" "map fd (table c') = map fd (table c)"
    using tab opn by (simp_all add: image_image o_def)
  ultimately have "chat_inv c'"
    using assms tab by (simp add: chat_inv_def c'_def o_def)
  moreover have "buffers_from c c'" by (intro buffers_from_copy) (auto simp: c'_def told_to_write_def)
  ultimately show ?thesis using eq tab by (simp add: c'_def)
qed

text \<open>Changing the buffer of a client to a terminated one, or its pointer to null.\<close>

lemma c_string_terminated: "NUL \<in> set s \<Longrightarrow> c_string s 0 \<noteq> None"
proof -
  have "NUL \<in> set s \<Longrightarrow> c_string_from s \<noteq> None" by (induction s) auto
  then show "NUL \<in> set s \<Longrightarrow> c_string s 0 \<noteq> None" by (simp add: c_string_def)
qed

lemma set_buf_inv:
  assumes "chat_inv c" "NUL \<in> set b"
  shows "chat_inv (c\<lparr>users := (users c)(f := (users c f)\<lparr>buf := b\<rparr>)\<rparr>)"
    "buffers_from c (c\<lparr>users := (users c)(f := (users c f)\<lparr>buf := b\<rparr>)\<rparr>)"
  using assms c_string_terminated [OF assms(2)]
  by (auto simp: chat_inv_def table_def entry_ok_def buffers_from_def)

lemma read_inv:
  assumes inv: "chat_inv c" and i: "1 \<le> i" "i \<le> user_counter c" and p: "p = table c ! nat (i - 1)"
  shows "\<exists>es i' c'. read_branch r i p c = Inr (es, i', c') \<and> chat_inv c' \<and> serv_sock c' = serv_sock c \<and> buffers_from c c'
    \<and> (i' = i + 1 \<and> user_counter c' = user_counter c \<or> i' = i \<and> user_counter c' = user_counter c - 1)"
proof -
  let ?got = "case r of Recv_Error again \<Rightarrow> [] | Recv bytes \<Rightarrow> take (BUFFER_SIZE - 1) bytes"
  let ?c = "c\<lparr>users := (users c)(fd p := (users c (fd p))\<lparr>buf := ?got @ replicate (BUFFER_SIZE - length ?got) NUL\<rparr>)\<rparr>"
  have "length ?got < BUFFER_SIZE" by (auto simp: BUFFER_SIZE_def split: recv_result.splits)
  then have inv': "chat_inv ?c" "buffers_from c ?c" by (intro set_buf_inv [OF inv]; auto)+
  have "p \<in> set (table c)" using load_table(2) [OF inv i] p by simp
  then have valid: "valid_user (fd p)" using inv by (auto simp: chat_inv_def entry_ok_def)
  show ?thesis
  proof (cases r)
    case (Recv_Error again)
    obtain es c' where "drop_client i ?c = Inr (es, i, c')" "chat_inv c'" "user_counter c' = user_counter ?c - 1"
      "serv_sock c' = serv_sock ?c" "buffers_from ?c c'" using drop_inv [OF inv'(1) i(1)] i(2) by auto
    then show ?thesis
      using Recv_Error valid inv' buffers_from_trans [OF inv'(2)] by (auto simp: read_branch_def Let_def)
  next
    case (Recv bytes)
    obtain c' where "broadcast (nat (user_counter ?c)) 1 (fd p) ?c = Inr c'" "chat_inv c'" "user_counter c' = user_counter ?c"
      "serv_sock c' = serv_sock ?c" "buffers_from ?c c'" using broadcast_inv [OF inv'(1), of "fd p"] by blast
    then show ?thesis using Recv valid inv' buffers_from_trans [OF inv'(2)] by (auto simp: read_branch_def Let_def)
  qed
qed

lemma write_inv:
  assumes inv: "chat_inv c" and i: "1 \<le> i" "i \<le> user_counter c" and p: "p = table c ! nat (i - 1)"
    and out: "revents p AND POLLOUT \<noteq> 0"
  shows "case write_branch i p c of Inl e \<Rightarrow> e = UndefinedBehaviour \<and> unterminated (users c)
    | Inr (es, i', c') \<Rightarrow> i' = i + 1 \<and> chat_inv c' \<and> serv_sock c' = serv_sock c \<and> user_counter c' = user_counter c
        \<and> buffers_from c c'"
proof -
  let ?j = "nat (i - 1)"
  have j: "?j < length (table c)" "int ?j + 1 = i" using load_table(2) [OF inv i] i by auto
  have mem: "p \<in> set (table c)" using j(1) p by simp
  then have ok: "valid_user (fd p)" "write_buf (users c (fd p)) \<noteq> Wild"
    using inv out by (auto simp: chat_inv_def entry_ok_def)
  consider "write_buf (users c (fd p)) = Null"
    | src where "write_buf (users c (fd p)) = Buf_Of src" "c_string (buf (users c src)) 0 = None"
    | src msg where "write_buf (users c (fd p)) = Buf_Of src" "c_string (buf (users c src)) 0 = Some msg"
    using ok(2) by (metis buf_pointer.exhaust not_None_eq)
  then show ?thesis
  proof cases
    case (3 src msg)
    let ?q = "p\<lparr>events := (events p OR NOT POLLOUT) OR POLLIN\<rparr>"
    obtain t where t: "store (fds c) i ?q = Some t" "length t = length (fds c)" "hd t = hd (fds c)"
      "take (nat (user_counter c)) (tl t) = (table c)[?j := ?q]"
      using store_entry [OF inv j(1), of ?q] j(2) by auto
    define c' where "c' = c\<lparr>users := (users c)(fd p := (users c (fd p))\<lparr>write_buf := Null\<rparr>), fds := t\<rparr>"
    have tab: "table c' = (table c)[?j := ?q]" unfolding table_def [of c'] using t(4) by (simp add: c'_def)
    have fdq: "map fd (table c') = map fd (table c)"
      using j(1) p unfolding tab by (simp add: map_update list_update_same_conv)
    have "entry_ok (users c') q" if "q \<in> set (table c')" for q
    proof -
      have "q = ?q \<or> q \<in> set (table c)" using that set_update_subset_insert [of "table c"] tab by auto
      then show ?thesis using inv ok(1) by (auto simp: chat_inv_def entry_ok_def c'_def)
    qed
    moreover have "fd ` set (table c') = fd ` set (table c)" using fdq by (metis list.set_map)
    ultimately have "chat_inv c'" using inv fdq t(2,3) by (simp add: chat_inv_def c'_def)
    moreover have "buffers_from c c'" by (intro buffers_from_copy) (auto simp: c'_def)
    ultimately show ?thesis using 3 ok(1) t(1) by (simp add: write_branch_def c'_def)
  qed (use inv ok(1) in \<open>auto simp: write_branch_def unterminated_def\<close>)
qed

text \<open>Serving a client's entry and the listening socket's.\<close>

lemma serve_client_inv:
  assumes inv: "chat_inv c" and i: "1 \<le> i" "i \<le> user_counter c"
  shows "case serve_one io i c of Inl e \<Rightarrow> e = UndefinedBehaviour \<and> unterminated (users c)
    | Inr (es, i', c') \<Rightarrow> chat_inv c' \<and> serv_sock c' = serv_sock c \<and> buffers_from c c'
        \<and> (i' = i + 1 \<and> user_counter c' = user_counter c \<or> i' = i \<and> user_counter c' = user_counter c - 1)"
proof -
  let ?p = "table c ! nat (i - 1)"
  note l = load_table [OF inv i]
  have "fd ?p \<in> fd ` set (table c)" using l(2) by simp
  then have ns: "fd ?p \<noteq> serv_sock c" using inv by (auto simp: chat_inv_def)
  consider "revents ?p AND POLLERR \<noteq> 0" | "revents ?p AND POLLERR = 0" "revents ?p AND POLLRDHUP \<noteq> 0"
    | "revents ?p AND POLLERR = 0" "revents ?p AND POLLRDHUP = 0" "revents ?p AND POLLIN \<noteq> 0"
    | "revents ?p AND POLLERR = 0" "revents ?p AND POLLRDHUP = 0" "revents ?p AND POLLIN = 0" "revents ?p AND POLLOUT \<noteq> 0"
    | "revents ?p AND POLLERR = 0" "revents ?p AND POLLRDHUP = 0" "revents ?p AND POLLIN = 0" "revents ?p AND POLLOUT = 0"
    by blast
  then show ?thesis
  proof cases
    case 1
    then have "serve_one io i c = Inr ([Sys (Getsockopt (fd ?p))], i + 1, c)" using l(1) ns by (simp add: serve_one_def)
    then show ?thesis using inv by simp
  next
    case 2
    then have "serve_one io i c = drop_client i c" using l(1) ns by (simp add: serve_one_def)
    then show ?thesis using drop_inv [OF inv i] by fastforce
  next
    case 3
    then have "serve_one io i c = read_branch (io_recv io) i ?p c" using l(1) ns by (simp add: serve_one_def)
    then show ?thesis using read_inv [OF inv i refl, of "io_recv io"] by fastforce
  next
    case 4
    then have "serve_one io i c = write_branch i ?p c" using l(1) ns by (simp add: serve_one_def)
    then show ?thesis using write_inv [OF inv i refl 4(4)] by (auto split: sum.splits)
  next
    case 5
    then have "serve_one io i c = Inr ([], i + 1, c)" using l(1) ns by (simp add: serve_one_def)
    then show ?thesis using inv by simp
  qed
qed

lemma serve_listener_inv:
  assumes inv: "chat_inv c" and fresh: "accept_fresh io c" and step: "serve_one io 0 c = Inr (es, i', c')"
  shows "chat_inv c' \<and> i' = 1 \<and> serv_sock c' = serv_sock c \<and> buffers_from c c'"
proof (cases "revents (hd (fds c)) AND POLLIN \<noteq> 0")
  case True
  then have "accept_branch (io_fcntl io) (io_accept io) 0 c = Inr (es, i', c')"
    using step load_header [OF inv] inv by (auto simp: serve_one_def chat_inv_def)
  from accept_inv [OF inv fresh this] show ?thesis by simp
next
  case False
  then have "i' = 1 \<and> c' = c"
    using step load_header [OF inv] inv by (auto simp: serve_one_def chat_inv_def split: if_splits)
  then show ?thesis using inv by simp
qed

text \<open>How \<open>accept\<close> can stop the program: it fails, or its descriptor is beyond the array of client data.\<close>

definition accept_error :: "cpp_error \<Rightarrow> 'addr chat_io \<Rightarrow> 'addr chat \<Rightarrow> bool" where
  "accept_error e io c \<longleftrightarrow>
     e = ExitCall 1 \<and> io_accept io = None
     \<or> e = UndefinedBehaviour \<and> user_counter c < USER_LIMIN \<and> (\<exists>s a. io_accept io = Some (s, a) \<and> FD_LIMIT \<le> s)"

lemma serve_listener_error:
  assumes inv: "chat_inv c" and fresh: "accept_fresh io c" and step: "serve_one io 0 c = Inl e"
  shows "accept_error e io c"
proof -
  have "accept_branch (io_fcntl io) (io_accept io) 0 c = Inl e"
    using step load_header [OF inv] inv by (auto simp: serve_one_def chat_inv_def split: if_splits)
  moreover have "store (fds c) (user_counter c + 1) q = Some ((fds c)[nat (user_counter c + 1) := q])"
    if "\<not> USER_LIMIN \<le> user_counter c" for q
    using inv that by (simp add: chat_inv_def store_def USER_LIMIN_def)
  ultimately show ?thesis
    using fresh
    by (auto simp: accept_error_def accept_branch_def accept_fresh_def valid_user_def Let_def split: option.splits if_splits)
qed

lemma serve_rest:
  "chat_inv c \<Longrightarrow> 1 \<le> i \<Longrightarrow> i \<le> user_counter c + 1 \<Longrightarrow> nat (2 * (6 - i) + user_counter c) < fuel \<Longrightarrow>
   \<exists>r. serve_all fuel io n i c = Some r
     \<and> (case r of Inl e \<Rightarrow> e = UndefinedBehaviour \<and> unterminated (users c)
         | Inr (es, c') \<Rightarrow> chat_inv c' \<and> serv_sock c' = serv_sock c \<and> buffers_from c c')"
proof (induction fuel arbitrary: n i c)
  case 0
  then show ?case by simp
next
  case (Suc fuel)
  show ?case
  proof (cases "i \<le> user_counter c")
    case False
    then show ?thesis using Suc.prems by simp
  next
    case True
    show ?thesis
    proof (cases "serve_one (io n) i c")
      case (Inl e)
      then show ?thesis using serve_client_inv [OF Suc.prems(1,2) True, of "io n"] True by simp
    next
      case (Inr a)
      obtain es i' c' where a: "a = (es, i', c')" by (cases a)
      have 1: "chat_inv c'" "serv_sock c' = serv_sock c" "buffers_from c c'"
        and m: "i' = i + 1 \<and> user_counter c' = user_counter c \<or> i' = i \<and> user_counter c' = user_counter c - 1"
        using serve_client_inv [OF Suc.prems(1,2) True, of "io n"] Inr a by auto
      have "user_counter c \<le> 5" using Suc.prems(1) by (simp add: chat_inv_def USER_LIMIN_def)
      then have "nat (2 * (6 - i') + user_counter c') < fuel" using m True Suc.prems(2,4) by auto
      moreover have "1 \<le> i'" "i' \<le> user_counter c' + 1" using m True Suc.prems(2) by auto
      ultimately obtain r where "serve_all fuel io (Suc n) i' c' = Some r"
        "case r of Inl e \<Rightarrow> e = UndefinedBehaviour \<and> unterminated (users c')
         | Inr (es, c'') \<Rightarrow> chat_inv c'' \<and> serv_sock c'' = serv_sock c' \<and> buffers_from c' c''" using Suc.IH [OF 1(1)] by blast
      then show ?thesis
        using Inr a 1 True unterminated_from [OF 1(3)] buffers_from_trans [OF 1(3)] by (auto split: sum.splits prod.splits)
    qed
  qed
qed

text \<open>How a round can stop the program.\<close>

definition round_error :: "cpp_error \<Rightarrow> 'addr chat_io \<Rightarrow> 'addr chat \<Rightarrow> bool" where
  "round_error e io c \<longleftrightarrow> accept_error e io c \<or> e = UndefinedBehaviour \<and> unterminated (users c)"

lemma serve_all_inv:
  assumes inv: "chat_inv c" and fresh: "accept_fresh (io 0) c" and fuel: "18 \<le> fuel"
  shows "\<exists>r. serve_all fuel io 0 0 c = Some r
    \<and> (case r of Inl e \<Rightarrow> round_error e (io 0) c | Inr (es, c') \<Rightarrow> chat_inv c' \<and> serv_sock c' = serv_sock c \<and> buffers_from c c')"
proof -
  obtain f where f: "fuel = Suc f" "17 \<le> f" using fuel by (cases fuel) auto
  have uc: "0 \<le> user_counter c" using inv by (simp add: chat_inv_def)
  show ?thesis
  proof (cases "serve_one (io 0) 0 c")
    case (Inl e)
    then show ?thesis using serve_listener_error [OF inv fresh] f uc by (simp add: round_error_def)
  next
    case (Inr r)
    obtain es i' c' where r: "r = (es, i', c')" by (cases r)
    have 1: "chat_inv c'" "i' = 1" "serv_sock c' = serv_sock c" "buffers_from c c'"
      using serve_listener_inv [OF inv fresh] Inr r by auto
    then have "0 \<le> user_counter c'" "user_counter c' \<le> 5" by (simp_all add: chat_inv_def USER_LIMIN_def)
    moreover from this have "nat (2 * (6 - 1) + user_counter c') < f" using f(2) by (simp add: nat_less_iff)
    ultimately obtain r' where "serve_all f io 1 1 c' = Some r'" "case r' of Inl e \<Rightarrow> e = UndefinedBehaviour \<and> unterminated (users c')
         | Inr (es, c'') \<Rightarrow> chat_inv c'' \<and> serv_sock c'' = serv_sock c' \<and> buffers_from c' c''"
      using serve_rest [OF 1(1), of 1 f io 1] by auto
    then show ?thesis
      using Inr r 1 f uc unterminated_from [OF 1(4)] buffers_from_trans [OF 1(4)]
      by (auto simp: round_error_def split: sum.splits prod.splits)
  qed
qed

section \<open>All rounds\<close>

text \<open>\<open>poll\<close> reports only requested events, errors, hang-ups and invalid descriptors.\<close>

definition poll_contract :: "(nat \<Rightarrow> 16 word) \<Rightarrow> 'addr chat \<Rightarrow> bool" where
  "poll_contract rv c \<longleftrightarrow>
     (\<forall>k < length (fds c). rv k AND NOT (events (fds c ! k) OR POLLERR OR POLLHUP OR POLLNVAL) = 0)"

lemma requested_only:
  fixes r e :: "16 word"
  assumes "r AND NOT (e OR POLLERR OR POLLHUP OR POLLNVAL) = 0"
  shows "e AND POLLOUT = 0 \<Longrightarrow> r AND POLLOUT = 0" "e AND POLLRDHUP = 0 \<Longrightarrow> r AND POLLRDHUP = 0"
proof -
  have b: "bit r n \<Longrightarrow> bit e n \<or> bit (POLLERR OR POLLHUP OR POLLNVAL) n" for n
  proof -
    assume "bit r n"
    then have "n < 16" using bit_imp_le_length by fastforce
    have "\<not> bit (r AND NOT (e OR POLLERR OR POLLHUP OR POLLNVAL)) n" using assms by simp
    then show "bit e n \<or> bit (POLLERR OR POLLHUP OR POLLNVAL) n"
      using \<open>bit r n\<close> \<open>n < 16\<close> by (simp add: bit_simps) 
  qed
  have out: "w AND POLLOUT = 0 \<longleftrightarrow> \<not> bit w 2" "w AND POLLRDHUP = 0 \<longleftrightarrow> \<not> bit w 13" for w :: "16 word"
    using and_exp_eq_0_iff_not_bit [of w 2] and_exp_eq_0_iff_not_bit [of w 13] by (simp_all add: POLLOUT_def POLLRDHUP_def)
  have "\<not> bit (POLLERR OR POLLHUP OR POLLNVAL) 2" "\<not> bit (POLLERR OR POLLHUP OR POLLNVAL) 13"
    by (simp_all add: POLLERR_def POLLHUP_def POLLNVAL_def)
  then show "e AND POLLOUT = 0 \<Longrightarrow> r AND POLLOUT = 0" "e AND POLLRDHUP = 0 \<Longrightarrow> r AND POLLRDHUP = 0"
    using b [of 2] b [of 13] out by blast+
qed

lemma table_nth:
  assumes "length (fds c) = 6" "user_counter c \<le> 5" "j < nat (user_counter c)"
  shows "table c ! j = fds c ! Suc j"
  using assms by (simp add: table_def nth_tl)

lemma poll_result_table:
  assumes "chat_inv c"
  shows "fds (poll_result rv c) ! 0 = (fds c ! 0)\<lparr>revents := rv 0\<rparr>"
    and "length (table (poll_result rv c)) = length (table c)"
    and "j < length (table c) \<Longrightarrow> table (poll_result rv c) ! j = (table c ! j)\<lparr>revents := rv (Suc j)\<rparr>"
proof -
  let ?c = "poll_result rv c"
  have len: "length (fds c) = 6" "length (fds ?c) = 6" and uc: "0 \<le> user_counter c" "user_counter c \<le> 5"
    "user_counter ?c = user_counter c"
    using assms by (auto simp: chat_inv_def USER_LIMIN_def poll_result_def)
  then show "fds (poll_result rv c) ! 0 = (fds c ! 0)\<lparr>revents := rv 0\<rparr>" by (simp add: poll_result_def)
  show lt: "length (table ?c) = length (table c)" using len uc by (simp add: table_def)
  assume j: "j < length (table c)"
  have n: "length (table c) = nat (user_counter c)" using fds_split(2) [OF assms] .
  have "table ?c ! j = fds ?c ! Suc j" using j n len uc by (intro table_nth) simp_all
  also have "\<dots> = (fds c ! Suc j)\<lparr>revents := rv (Suc j)\<rparr>" using j n len uc by (auto simp: poll_result_def)
  also have "fds c ! Suc j = table c ! j" using j n len uc by (intro table_nth [symmetric]) simp_all
  finally show "table ?c ! j = (table c ! j)\<lparr>revents := rv (Suc j)\<rparr>" .
qed

lemma poll_result_ready:
  assumes inv: "chat_inv c" and listener: "rv 0 AND POLLRDHUP = 0" "rv 0 AND POLLOUT = 0"
    and wild: "\<And>j. j < length (table c) \<Longrightarrow> rv (Suc j) AND POLLOUT \<noteq> 0 \<Longrightarrow> write_buf (users c (fd (table c ! j))) \<noteq> Wild"
  shows "chat_inv (poll_result rv c)"
proof -
  let ?c = "poll_result rv c"
  note tab = poll_result_table [OF inv, where rv = rv]
  have len: "length (fds c) = 6" "length (fds ?c) = 6" using inv by (auto simp: chat_inv_def poll_result_def)
  have same: "user_counter ?c = user_counter c" "serv_sock ?c = serv_sock c" "open_conns ?c = open_conns c" "users ?c = users c"
    by (simp_all add: poll_result_def)
  have "fds ?c \<noteq> []" "fds c \<noteq> []" using len by auto
  then have hd: "hd (fds ?c) = (hd (fds c))\<lparr>revents := rv 0\<rparr>" using tab(1) by (simp add: hd_conv_nth)
  have fdm: "map fd (table ?c) = map fd (table c)" using tab(2,3) by (intro nth_equalityI) auto
  have "entry_ok (users c) q" if q: "q \<in> set (table ?c)" for q
  proof -
    obtain j where "j < length (table ?c)" "q = table ?c ! j" using q by (auto simp: in_set_conv_nth)
    then have j: "j < length (table c)" "q = (table c ! j)\<lparr>revents := rv (Suc j)\<rparr>" using tab(2,3) by simp_all
    then show ?thesis using inv wild [OF j(1)] by (auto simp: chat_inv_def entry_ok_def)
  qed
  moreover have "fd ` set (table ?c) = fd ` set (table c)" using fdm by (metis list.set_map)
  ultimately show ?thesis using inv len hd same listener fdm by (simp add: chat_inv_def)
qed

lemma poll_result_inv:
  assumes inv: "chat_inv c" and rv: "poll_contract rv c"
  shows "chat_inv (poll_result rv c)"
proof (rule poll_result_ready [OF inv])
  have len: "length (fds c) = 6" "fds c \<noteq> []" "user_counter c \<le> 5" using inv by (auto simp: chat_inv_def USER_LIMIN_def)
  have "events (fds c ! 0) = POLLIN OR POLLERR" using inv len(2) by (simp add: chat_inv_def hd_conv_nth)
  moreover have "rv 0 AND NOT (events (fds c ! 0) OR POLLERR OR POLLHUP OR POLLNVAL) = 0"
    using rv len unfolding poll_contract_def by simp
  ultimately have "rv 0 AND NOT ((POLLIN OR POLLERR) OR POLLERR OR POLLHUP OR POLLNVAL) = 0" by (simp only:)
  note r0 = requested_only [OF this]
  show "rv 0 AND POLLRDHUP = 0" "rv 0 AND POLLOUT = 0"
    using r0 by (simp_all add: POLLIN_def POLLERR_def POLLOUT_def POLLRDHUP_def)
  fix j assume j: "j < length (table c)" "rv (Suc j) AND POLLOUT \<noteq> 0"
  have uc: "j < nat (user_counter c)" using j(1) fds_split(2) [OF inv] by simp
  then have "fds c ! Suc j = table c ! j" "Suc j < length (fds c)" using table_nth [OF len(1,3)] len by auto
  then have "rv (Suc j) AND NOT (events (table c ! j) OR POLLERR OR POLLHUP OR POLLNVAL) = 0"
    using rv unfolding poll_contract_def by metis
  from requested_only(1) [OF this] have "events (table c ! j) AND POLLOUT \<noteq> 0" using j(2) by blast
  moreover have "entry_ok (users c) (table c ! j)" using inv j(1) by (simp add: chat_inv_def)
  ultimately show "write_buf (users c (fd (table c ! j))) \<noteq> Wild" by (simp add: entry_ok_def)
qed

inductive chat_runs :: "'addr chat \<Rightarrow> 'addr chat \<Rightarrow> bool" for c0 where
  start: "chat_runs c0 c0"
| round: "chat_runs c0 c \<Longrightarrow> poll_contract rv c \<Longrightarrow> accept_fresh (io 0) c \<Longrightarrow>
    chat_round 18 (Some rv) io c = Some (Inr (es, c')) \<Longrightarrow> chat_runs c0 c'"

lemma chat_round_inv:
  assumes "chat_inv c" "poll_contract rv c" "accept_fresh (io 0) c"
  shows "\<exists>r. chat_round 18 (Some rv) io c = Some r
    \<and> (case r of Inl e \<Rightarrow> round_error e (io 0) c | Inr (es, c') \<Rightarrow> chat_inv c' \<and> buffers_from c c')"
proof -
  let ?c = "poll_result rv c"
  have "accept_fresh (io 0) ?c" using assms(3) by (simp add: accept_fresh_def poll_result_def)
  from serve_all_inv [where io = io, OF poll_result_inv [OF assms(1,2)] this, of 18] obtain r where
    "serve_all 18 io 0 0 ?c = Some r"
    "case r of Inl e \<Rightarrow> round_error e (io 0) ?c | Inr (es, c') \<Rightarrow> chat_inv c' \<and> serv_sock c' = serv_sock ?c \<and> buffers_from ?c c'"
    by auto
  moreover have "users ?c = users c" "user_counter ?c = user_counter c" by (simp_all add: poll_result_def)
  ultimately show ?thesis
    by (intro exI [of _ r]) (simp add: chat_round_def round_error_def accept_error_def buffers_from_def split: sum.splits prod.splits)
qed

lemma chat_runs_inv: "chat_runs c0 c \<Longrightarrow> chat_inv c0 \<Longrightarrow> chat_inv c \<and> buffers_from c0 c"
proof (induction rule: chat_runs.induct)
  case (round c rv io es c')
  then show ?case using chat_round_inv [of c rv io] buffers_from_trans by auto
qed simp

section \<open>Delivery of a message\<close>

text \<open>An answer of \<open>poll\<close> with the events \<open>w\<close> at one entry and none elsewhere, and the texts sent to a descriptor.\<close>

definition only :: "nat \<Rightarrow> 16 word \<Rightarrow> nat \<Rightarrow> 16 word" where
  "only i w k = (if k = i then w else 0)"

definition sent_to :: "int \<Rightarrow> chat_effect list \<Rightarrow> string list" where
  "sent_to f es = [t. Sent g t \<leftarrow> es, g = f]"

lemma sent_to_simps [simp]:
  "sent_to f [] = []" "sent_to f (es @ es') = sent_to f es @ sent_to f es'"
  by (simp_all add: sent_to_def)

lemma sent_to_map:
  "distinct fs \<Longrightarrow> sent_to f (map (\<lambda>g. Sent g msg) (filter P fs)) = (if f \<in> set fs \<and> P f then [msg] else [])"
  by (induction fs) (auto simp: sent_to_def)

text \<open>Entries without events are passed over.\<close>

lemma serve_idle:
  assumes "load (fds c) i = Some p" "revents p = 0" "i \<le> user_counter c"
  shows "serve_all (Suc fuel) io n i c = serve_all fuel io (Suc n) (i + 1) c"
  using assms by (simp add: serve_one_def split: option.split sum.split prod.split)

lemma serve_idle_many:
  assumes "\<And>j. i \<le> j \<Longrightarrow> j < i + int m \<Longrightarrow> \<exists>p. load (fds c) j = Some p \<and> revents p = 0" "i + int m \<le> user_counter c + 1"
  shows "serve_all (m + fuel) io n i c = serve_all fuel io (n + m) (i + int m) c"
  using assms
proof (induction m arbitrary: i n)
  case (Suc m)
  obtain p where p: "load (fds c) i = Some p" "revents p = 0" using Suc.prems(1) [of i] by auto
  have "serve_all (Suc m + fuel) io n i c = serve_all (m + fuel) io (Suc n) (i + 1) c"
    using serve_idle [OF p, of "m + fuel"] Suc.prems(2) by simp
  also have "\<dots> = serve_all fuel io (Suc n + m) (i + 1 + int m) c"
    by (rule Suc.IH) (use Suc.prems in auto)
  finally show ?case by (simp add: add.assoc)
qed simp

text \<open>
  A message is waiting: the buffer of \<open>src\<close> holds it, and among the clients in \<open>V\<close> exactly those in \<open>W\<close> are
  still to be sent it, the others having nothing to send. \<open>ready_fds\<close> are the clients that can be written to in a round,
  \<open>write_only\<close> an answer of \<open>poll\<close> that reports nothing else.
\<close>

definition waiting :: "int \<Rightarrow> string \<Rightarrow> int set \<Rightarrow> int set \<Rightarrow> 'addr chat \<Rightarrow> bool" where
  "waiting src msg V W c \<longleftrightarrow> c_string (buf (users c src)) 0 = Some msg
     \<and> (\<forall>p \<in> set (table c). fd p \<in> V \<longrightarrow> write_buf (users c (fd p)) = (if fd p \<in> W then Buf_Of src else Null))"

definition ready_fds :: "(nat \<Rightarrow> 16 word) \<Rightarrow> int list \<Rightarrow> int set" where
  "ready_fds rv fs = {fs ! j | j. j < length fs \<and> rv (Suc j) = POLLOUT}"

definition write_only :: "(nat \<Rightarrow> 16 word) \<Rightarrow> bool" where
  "write_only rv \<longleftrightarrow> rv 0 = 0 \<and> (\<forall>k. rv k = 0 \<or> rv k = POLLOUT)"

text \<open>An entry that reports nothing, or that it can be written to.\<close>

lemma serve_write_entry:
  assumes inv: "chat_inv c" and wait: "waiting src msg V W c" and j: "j < length (table c)"
    and p: "p = table c ! j" "revents p = 0 \<or> revents p = POLLOUT \<and> fd p \<in> V"
  shows "\<exists>c'. serve_one io (int j + 1) c = Inr (if fd p \<in> W \<and> revents p = POLLOUT then [Sent (fd p) msg] else [], int j + 2, c')
    \<and> waiting src msg V (W - (if revents p = POLLOUT then {fd p} else {})) c'
    \<and> map fd (table c') = map fd (table c) \<and> drop (Suc j) (table c') = drop (Suc j) (table c) \<and> chat_inv c'"
proof -
  have i: "1 \<le> int j + 1" "int j + 1 \<le> user_counter c" using j fds_split(2) [OF inv] by simp_all
  have l: "load (fds c) (int j + 1) = Some p" using load_table(1) [OF inv i] p by simp
  have mem: "p \<in> set (table c)" using j p by simp
  note ok = table_entry(1,3) [OF inv mem]
  show ?thesis
  proof (cases "revents p = POLLOUT")
    case False
    then show ?thesis using l ok p(2) inv wait by (simp add: serve_one_def)
  next
    case out: True
    have one: "serve_one io (int j + 1) c = write_branch (int j + 1) p c"
      using l ok(2) out by (simp add: serve_one_def poll_masks)
    have wb: "write_buf (users c (fd p)) = (if fd p \<in> W then Buf_Of src else Null)"
      using wait mem p(2) out poll_masks(2) by (simp add: waiting_def)
    show ?thesis
    proof (cases "fd p \<in> W")
      case False
      then show ?thesis using one wb ok(1) inv wait by (auto simp: write_branch_def)
    next
      case True
      let ?q = "p\<lparr>events := (events p OR NOT POLLOUT) OR POLLIN\<rparr>"
      obtain t where t: "store (fds c) (int j + 1) ?q = Some t" "take (nat (user_counter c)) (tl t) = (table c)[j := ?q]"
        using store_entry [OF inv j] by blast
      define c' where "c' = c\<lparr>users := (users c)(fd p := (users c (fd p))\<lparr>write_buf := Null\<rparr>), fds := t\<rparr>"
      have tab: "table c' = (table c)[j := ?q]" unfolding table_def [of c'] using t(2) by (simp add: c'_def)
      have fdq: "map fd (table c') = map fd (table c)"
        using j p unfolding tab by (simp add: map_update list_update_same_conv)
      then have "fd ` set (table c') = fd ` set (table c)" by (metis list.set_map)
      then have "\<exists>q' \<in> set (table c). fd q' = fd q" if "q \<in> set (table c')" for q
        using that by (metis imageE imageI)
      then have wait': "waiting src msg V (W - {fd p}) c'"
        using wait unfolding waiting_def by (fastforce simp: c'_def)
      have step: "serve_one io (int j + 1) c = Inr ([Sent (fd p) msg], int j + 2, c')"
        using one wb True ok(1) wait t(1) by (simp add: write_branch_def waiting_def c'_def)
      then have "chat_inv c'" using serve_client_inv [OF inv i, of io] by simp
      then show ?thesis using step True fdq tab out wait' by simp
    qed
  qed
qed

text \<open>The rest of a pass over the table when entries report nothing else.\<close>

definition writers :: "pollfd list \<Rightarrow> int set" where
  "writers ps = {fd p | p. p \<in> set ps \<and> revents p = POLLOUT}"

lemma writers_simps [simp]:
  "writers [] = {}" "writers (p # ps) = (if revents p = POLLOUT then insert (fd p) (writers ps) else writers ps)"
  by (auto simp: writers_def)

definition writes :: "string \<Rightarrow> int set \<Rightarrow> pollfd list \<Rightarrow> chat_effect list" where
  "writes msg W ps = map (\<lambda>f. Sent f msg) (filter (\<lambda>f. f \<in> W \<inter> writers ps) (map fd ps))"

lemma writes_Cons:
  assumes "distinct (map fd (p # ps))"
  shows "writes msg W (p # ps) = (if fd p \<in> W \<and> revents p = POLLOUT then [Sent (fd p) msg] else [])
    @ writes msg (W - (if revents p = POLLOUT then {fd p} else {})) ps"
proof -
  have "fd p \<notin> set (map fd ps)" using assms by simp
  then have "filter (\<lambda>f. f \<in> W \<and> (f = fd p \<or> f \<in> writers ps)) (map fd ps) = filter (\<lambda>f. f \<in> W \<and> f \<noteq> fd p \<and> f \<in> writers ps) (map fd ps)"
    by (intro filter_cong refl) metis
  moreover have "fd p \<notin> writers ps" using assms by (force simp: writers_def)
  ultimately show ?thesis by (auto simp: writes_def)
qed

lemma write_pass:
  "chat_inv c \<Longrightarrow> waiting src msg V W c \<Longrightarrow> k \<le> length (table c) \<Longrightarrow> length (table c) - k < fuel \<Longrightarrow>
   (\<forall>p \<in> set (drop k (table c)). revents p = 0 \<or> revents p = POLLOUT \<and> fd p \<in> V) \<Longrightarrow>
   \<exists>c'. serve_all fuel io n (int k + 1) c = Some (Inr (writes msg W (drop k (table c)), c'))
     \<and> waiting src msg V (W - writers (drop k (table c))) c' \<and> map fd (table c') = map fd (table c) \<and> chat_inv c'"
proof (induction fuel arbitrary: n k c W)
  case (Suc fuel)
  note inv = Suc.prems(1) and len = fds_split(2) [OF Suc.prems(1)]
  show ?case
  proof (cases "k = length (table c)")
    case True
    then show ?thesis using Suc.prems len by (auto simp: chat_inv_def writes_def)
  next
    case False
    then have k: "k < length (table c)" using Suc.prems(3) by simp
    let ?p = "table c ! k"
    let ?D = "if revents ?p = POLLOUT then {fd ?p} else {}"
    have d: "drop k (table c) = ?p # drop (Suc k) (table c)" using k by (simp add: Cons_nth_drop_Suc)
    then have "revents ?p = 0 \<or> revents ?p = POLLOUT \<and> fd ?p \<in> V" using Suc.prems(5) by simp
    from serve_write_entry [OF inv Suc.prems(2) k refl this, of "io n"] obtain c' where
      c': "serve_one (io n) (int k + 1) c = Inr (if fd ?p \<in> W \<and> revents ?p = POLLOUT then [Sent (fd ?p) msg] else [], int k + 2, c')"
      "waiting src msg V (W - ?D) c'" "map fd (table c') = map fd (table c)"
      "drop (Suc k) (table c') = drop (Suc k) (table c)" "chat_inv c'" by blast
    have "length (table c') = length (table c)" using c'(3) by (metis length_map)
    then have "\<exists>c''. serve_all fuel io (Suc n) (int (Suc k) + 1) c' = Some (Inr (writes msg (W - ?D) (drop (Suc k) (table c')), c''))
      \<and> waiting src msg V (W - ?D - writers (drop (Suc k) (table c'))) c'' \<and> map fd (table c'') = map fd (table c') \<and> chat_inv c''"
      using Suc.prems(3-5) k d c'(2,4,5) by (intro Suc.IH) auto
    then obtain c'' where c'': "serve_all fuel io (Suc n) (int k + 2) c' = Some (Inr (writes msg (W - ?D) (drop (Suc k) (table c)), c''))"
      "waiting src msg V (W - ?D - writers (drop (Suc k) (table c))) c''" "map fd (table c'') = map fd (table c')" "chat_inv c''"
      unfolding c'(4) by (auto simp: algebra_simps)
    have "distinct (map fd (drop k (table c)))" using inv by (simp add: chat_inv_def flip: drop_map)
    then have es: "writes msg W (drop k (table c)) = (if fd ?p \<in> W \<and> revents ?p = POLLOUT then [Sent (fd ?p) msg] else [])
      @ writes msg (W - ?D) (drop (Suc k) (table c))" unfolding d by (rule writes_Cons)
    have "W - ?D - writers (drop (Suc k) (table c)) = W - writers (drop k (table c))" unfolding d by auto
    moreover have "int k + 1 < user_counter c + 1" using k len by simp
    ultimately show ?thesis unfolding es using c'(1,3) c'' by simp
  qed
qed simp


lemma waiting_poll:
  assumes "chat_inv c" "waiting src msg V W c"
  shows "waiting src msg V W (poll_result rv c)" "map fd (table (poll_result rv c)) = map fd (table c)"
    "\<forall>p \<in> set (table (poll_result rv c)). \<exists>j < length (table c). p = (table c ! j)\<lparr>revents := rv (Suc j)\<rparr>"
proof -
  note tab = poll_result_table [OF assms(1), where rv = rv]
  show ps: "\<forall>p \<in> set (table (poll_result rv c)). \<exists>j < length (table c). p = (table c ! j)\<lparr>revents := rv (Suc j)\<rparr>"
    using tab(2,3) by (metis in_set_conv_nth)
  show "map fd (table (poll_result rv c)) = map fd (table c)" using tab(2,3) by (intro nth_equalityI) auto
  have "users (poll_result rv c) = users c" by (simp add: poll_result_def)
  then show "waiting src msg V W (poll_result rv c)"
    using assms(2) ps unfolding waiting_def by (metis (no_types, lifting) nth_mem pollfd.select_convs(1) pollfd.surjective pollfd.update_convs(3))
qed

lemma writers_poll:
  assumes "chat_inv c"
  shows "writers (table (poll_result rv c)) = ready_fds rv (map fd (table c))"
proof -
  note tab = poll_result_table [OF assms, where rv = rv]
  show ?thesis unfolding writers_def ready_fds_def
    using tab(2,3) by (auto simp: in_set_conv_nth) (metis (no_types, lifting) nth_map pollfd.select_convs pollfd.surjective pollfd.update_convs(3))+
qed

lemma write_round:
  assumes inv: "chat_inv c" and wait: "waiting src msg V W c" and rv: "write_only rv" "ready_fds rv (map fd (table c)) \<subseteq> V"
  shows "\<exists>c'. chat_round 18 (Some rv) io c
      = Some (Inr (map (\<lambda>f. Sent f msg) (filter (\<lambda>f. f \<in> W \<inter> ready_fds rv (map fd (table c))) (map fd (table c))), c'))
    \<and> waiting src msg V (W - ready_fds rv (map fd (table c))) c' \<and> map fd (table c') = map fd (table c) \<and> chat_inv c'"
proof -
  let ?c = "poll_result rv c"
  note polled = waiting_poll [OF inv wait, of rv] and wr = writers_poll [OF inv, of rv]
  have in_V: "fd (table c ! j) \<in> V" if "j < length (table c)" "rv (Suc j) = POLLOUT" for j
    using that rv(2) unfolding ready_fds_def by auto
  have rv0: "rv 0 = 0" and rvk: "\<And>k. rv k = 0 \<or> rv k = POLLOUT" using rv(1) by (auto simp: write_only_def)
  have inv': "chat_inv ?c"
  proof (rule poll_result_ready [OF inv])
    fix j assume j: "j < length (table c)" "rv (Suc j) AND POLLOUT \<noteq> 0"
    then have "fd (table c ! j) \<in> V" using in_V rvk [of "Suc j"] by auto
    then show "write_buf (users c (fd (table c ! j))) \<noteq> Wild" using wait j(1) by (auto simp: waiting_def)
  qed (simp_all add: rv0)
  have len: "length (table ?c) < 17"
    using fds_split(2) [OF inv'] inv' by (simp add: chat_inv_def USER_LIMIN_def nat_less_iff)
  have "\<forall>p \<in> set (drop 0 (table ?c)). revents p = 0 \<or> revents p = POLLOUT \<and> fd p \<in> V"
    using polled(3) in_V rvk by fastforce
  from write_pass [OF inv' polled(1) _ _ this, of 17 io 1] len obtain c' where
    c': "serve_all 17 io 1 1 ?c = Some (Inr (writes msg W (table ?c), c'))" "waiting src msg V (W - writers (table ?c)) c'"
    "map fd (table c') = map fd (table ?c)" "chat_inv c'" by auto
  have "load (fds ?c) 0 = Some (fds ?c ! 0)" "0 \<le> user_counter ?c"
    using inv' by (auto simp: load_def chat_inv_def)
  moreover have "revents (fds ?c ! 0) = 0" using poll_result_table(1) [OF inv, of rv] rv0 by simp
  ultimately have "serve_all (Suc 17) io 0 0 ?c = serve_all 17 io 1 1 ?c" using serve_idle [of ?c 0 _ 17 io 0] by simp
  then have "chat_round 18 (Some rv) io c = serve_all 17 io 1 1 ?c" by (simp add: chat_round_def)
  then show ?thesis using c' wr polled(2) by (simp add: writes_def)
qed

lemma write_rounds:
  assumes "chat_inv c" "waiting src msg V W c" "fs = map fd (table c)"
    and "\<forall>(polled, io) \<in> set rs. \<exists>rv. polled = Some rv \<and> write_only rv \<and> ready_fds rv fs \<subseteq> V"
  shows "\<exists>es c'. chat_rounds rs c = Some (Inr (es, c')) \<and> chat_inv c' \<and> map fd (table c') = fs
    \<and> (\<forall>f. sent_to f es = (if f \<in> W \<inter> set fs \<and> (\<exists>rv io. (Some rv, io) \<in> set rs \<and> f \<in> ready_fds rv fs) then [msg] else []))"
  using assms
proof (induction rs arbitrary: c W)
  case (Cons r rs)
  obtain rv io where r: "r = (Some rv, io)" "write_only rv" "ready_fds rv fs \<subseteq> V" using Cons.prems(4) by (cases r) auto
  let ?R = "ready_fds rv fs"
  obtain c' where c': "chat_round 18 (Some rv) io c = Some (Inr (map (\<lambda>f. Sent f msg) (filter (\<lambda>f. f \<in> W \<inter> ?R) fs), c'))"
    "waiting src msg V (W - ?R) c'" "map fd (table c') = fs" "chat_inv c'"
    using write_round [OF Cons.prems(1,2) r(2), of io] r(3) Cons.prems(3) by auto
  obtain es c'' where c'': "chat_rounds rs c' = Some (Inr (es, c''))" "chat_inv c''" "map fd (table c'') = fs"
    "\<forall>f. sent_to f es = (if f \<in> (W - ?R) \<inter> set fs \<and> (\<exists>rv io. (Some rv, io) \<in> set rs \<and> f \<in> ready_fds rv fs) then [msg] else [])"
    using Cons.IH [OF c'(4,2)] c'(3) Cons.prems(4) by auto
  have "distinct fs" using Cons.prems(1,3) by (simp add: chat_inv_def)
  note sent = sent_to_map [OF this, of _ msg "\<lambda>f. f \<in> W \<inter> ?R"]
  have "sent_to f (map (\<lambda>f. Sent f msg) (filter (\<lambda>f. f \<in> W \<inter> ?R) fs) @ es)
      = (if f \<in> W \<inter> set fs \<and> (\<exists>rv' io'. (Some rv', io') \<in> set (r # rs) \<and> f \<in> ready_fds rv' fs) then [msg] else [])" for f
    unfolding sent_to_simps sent c''(4) [rule_format] by (auto simp: r(1))
  then show ?case using c'(1) c''(1-3) r(1) by simp
qed simp

text \<open>The round in which one client's message arrives.\<close>

lemma read_message:
  assumes inv: "chat_inv c" and i: "1 \<le> i" "i \<le> user_counter c" and p: "p = table c ! nat (i - 1)"
    and msg: "msg \<noteq> []" "length msg < BUFFER_SIZE" "NUL \<notin> set msg"
  shows "\<exists>c'. read_branch (Recv msg) i p c = Inr ([], i + 1, c') \<and> chat_inv c' \<and> table c' = map (asked_to_write (fd p)) (table c)
    \<and> waiting (fd p) msg {f. f \<noteq> fd p \<or> write_buf (users c (fd p)) = Null} (set (map fd (table c)) - {fd p}) c'"
proof -
  let ?b = "msg @ replicate (BUFFER_SIZE - length msg) NUL"
  let ?c = "c\<lparr>users := (users c)(fd p := (users c (fd p))\<lparr>buf := ?b\<rparr>)\<rparr>"
  have inv': "chat_inv ?c" using msg(2) by (intro set_buf_inv [OF inv]) simp
  have tab: "table ?c = table c" by (simp add: table_def)
  obtain c' where c': "broadcast (nat (user_counter ?c)) 1 (fd p) ?c = Inr c'" "chat_inv c'"
    "table c' = map (asked_to_write (fd p)) (table c)" "users c' = told_to_write (fd p) (open_conns c) (users ?c)"
    using broadcast_inv [OF inv', of "fd p"] tab by auto
  have "p \<in> set (table c)" using load_table(2) [OF inv i] p by simp
  note valid = table_entry(1) [OF inv this]
  have txt_b: "c_string ?b 0 = Some msg"
    using msg(2,3) c_string_from_term [of msg "replicate (BUFFER_SIZE - length msg - 1) NUL"]
    by (cases "BUFFER_SIZE - length msg") (auto simp: c_string_def)
  have "waiting (fd p) msg {f. f \<noteq> fd p \<or> write_buf (users c (fd p)) = Null} (set (map fd (table c)) - {fd p}) c'"
    using txt_b inv unfolding waiting_def by (auto simp: c'(3,4) told_to_write_def chat_inv_def)
  then show ?thesis using c'(1-3) valid msg(1,2) by (simp add: read_branch_def Let_def)
qed

lemma load_polled:
  assumes "chat_inv c" "0 \<le> k" "k \<le> user_counter c"
  shows "\<exists>p. load (fds (poll_result rv c)) k = Some p \<and> revents p = rv (nat k)"
  using assms by (auto simp: load_def poll_result_def chat_inv_def USER_LIMIN_def)

lemma read_round:
  assumes inv: "chat_inv c" and i: "1 \<le> i" "i \<le> user_counter c" and p: "p = table c ! nat (i - 1)"
    and only: "rv = only (nat i) POLLIN" and io: "io_recv (io (nat i)) = Recv msg" and msg: "msg \<noteq> []" "length msg < BUFFER_SIZE" "NUL \<notin> set msg"
  shows "\<exists>c'. chat_round 18 (Some rv) io c = Some (Inr ([], c')) \<and> chat_inv c' \<and> map fd (table c') = map fd (table c)
    \<and> waiting (fd p) msg {f. f \<noteq> fd p \<or> write_buf (users c (fd p)) = Null} (set (map fd (table c)) - {fd p}) c'"
proof -
  have rv: "rv k = 0" if "k \<noteq> nat i" for k using that only by (simp add: only_def)
  have rvi: "rv (nat i) = POLLIN" using only by (simp add: only_def)
  let ?c = "poll_result rv c" and ?a = "nat i" and ?u = "nat (user_counter c)"
  let ?p = "table ?c ! nat (i - 1)"
  note tab = poll_result_table [OF inv, where rv = rv]
  have uc: "user_counter ?c = user_counter c" "users ?c = users c" "serv_sock ?c = serv_sock c" "user_counter c \<le> 5"
    using inv by (simp_all add: poll_result_def chat_inv_def USER_LIMIN_def)
  have "rv k AND POLLOUT = 0" for k using rv rvi poll_masks by (cases "k = nat i") simp_all
  moreover have "rv 0 = 0" using rv [of 0] i by simp
  ultimately have inv': "chat_inv ?c" by (intro poll_result_ready [OF inv]) simp_all
  have fdm: "map fd (table ?c) = map fd (table c)" using tab(2,3) by (intro nth_equalityI) auto
  have j: "nat (i - 1) < length (table c)" "Suc (nat (i - 1)) = ?a" using load_table(2) [OF inv i] i by auto
  have q: "fd ?p = fd p" "revents ?p = POLLIN" using tab(3) [OF j(1)] p j(2) rvi by simp_all
  have i': "i \<le> user_counter ?c" using i uc by simp
  obtain c' where c': "read_branch (Recv msg) i ?p ?c = Inr ([], i + 1, c')" "chat_inv c'" "table c' = map (asked_to_write (fd p)) (table ?c)"
    "waiting (fd p) msg {f. f \<noteq> fd p \<or> write_buf (users c (fd p)) = Null} (set (map fd (table c)) - {fd p}) c'"
    using read_message [OF inv' i(1) i' refl msg] q(1) uc(2) fdm by metis
  have uc': "user_counter c' = user_counter c"
  proof -
    have "nat (user_counter c') = ?u" using fds_split(2) [OF c'(2)] fds_split(2) [OF inv'] uc(1) by (simp add: c'(3))
    moreover have "0 \<le> user_counter c'" "0 \<le> user_counter c" using c'(2) inv by (simp_all add: chat_inv_def)
    ultimately show ?thesis by simp
  qed
  have one: "serve_one (io ?a) i ?c = Inr ([], i + 1, c')"
    using load_table(1) [OF inv' i(1) i'] q table_entry(3) [OF inv', of ?p] j(1) tab(2) c'(1) io by (simp add: serve_one_def poll_masks)
  have rest: "\<exists>q. load (fds c') k = Some q \<and> revents q = 0" if k: "i + 1 \<le> k" "k \<le> user_counter c" for k
  proof -
    have k': "1 \<le> k" "k \<le> user_counter c'" using k i uc' by simp_all
    have "nat (k - 1) < length (table c')" using load_table(2) [OF c'(2) k'] .
    then have "revents (table c' ! nat (k - 1)) = rv (nat k)"
      using c'(3) tab k i by (simp add: asked_to_write_def Suc_nat_eq_nat_zadd1)
    then show ?thesis using load_table(1) [OF c'(2) k'] rv [of "nat k"] k i by simp
  qed
  have before: "serve_all 18 io 0 0 ?c = serve_all (Suc (17 - ?a)) io ?a i ?c"
  proof -
    have "18 = ?a + Suc (17 - ?a)" using i uc(4) by simp
    moreover have "serve_all (?a + Suc (17 - ?a)) io 0 0 ?c = serve_all (Suc (17 - ?a)) io (0 + ?a) (0 + int ?a) ?c"
    proof (rule serve_idle_many)
      fix k assume "0 \<le> k" "k < 0 + int ?a"
      then show "\<exists>q. load (fds ?c) k = Some q \<and> revents q = 0"
        using load_polled [OF inv, of k rv] rv [of "nat k"] i by auto
    qed (use i uc in simp)
    ultimately show ?thesis using i(1) by simp
  qed
  have "serve_all (17 - ?a) io (Suc ?a) (i + 1) c' = Some (Inr ([], c'))"
  proof -
    have fuel: "17 - ?a = (?u - ?a) + Suc (16 - ?u)" and int_u: "int (?u - ?a) = user_counter c - i" using i uc(4) by auto
    have "serve_all ((?u - ?a) + Suc (16 - ?u)) io (Suc ?a) (i + 1) c'
        = serve_all (Suc (16 - ?u)) io (Suc ?a + (?u - ?a)) (i + 1 + int (?u - ?a)) c'"
      by (rule serve_idle_many) (use rest int_u uc' in auto)
    then show ?thesis unfolding fuel int_u by (simp add: uc' del: add_Suc_right)
  qed
  then have "chat_round 18 (Some rv) io c = Some (Inr ([], c'))"
    using before one i' by (simp add: chat_round_def)
  moreover have "map fd (table c') = map fd (table c)" using c'(3) fdm by (simp add: o_def)
  ultimately show ?thesis using c'(2,4) by blast
qed


text \<open>
  A message reaches everybody else, through whole rounds. In one round a client's entry is the only one with an event and the
  bytes received are a non-empty text that fits the buffer; in the rounds that follow, as long as \<open>poll\<close> reports nothing but
  clients that can be written to (and the sender only if it has nothing to send), every other client is sent
  exactly that text, once, in the first round in which it can be written to, and nothing else; the sender is sent nothing.
\<close>

theorem chat_message_delivered:
  assumes inv: "chat_inv c" and i: "1 \<le> i" "i \<le> user_counter c" and p: "p = table c ! nat (i - 1)"
    and only: "rv = only (nat i) POLLIN" and io: "io_recv (io (nat i)) = Recv msg" and msg: "msg \<noteq> []" "length msg < BUFFER_SIZE" "NUL \<notin> set msg"
    and rs: "\<forall>(polled, _) \<in> set rs. \<exists>rv'. polled = Some rv' \<and> write_only rv' \<and> (write_buf (users c (fd p)) = Null \<or> rv' (nat i) = 0)"
  shows "\<exists>es c'. chat_rounds ((Some rv, io) # rs) c = Some (Inr (es, c')) \<and> chat_inv c' \<and> map fd (table c') = map fd (table c)
    \<and> (\<forall>f. sent_to f es =
         (if f \<in> open_conns c - {fd p} \<and> (\<exists>rv' io'. (Some rv', io') \<in> set rs \<and> f \<in> ready_fds rv' (map fd (table c))) then [msg] else []))"
proof -
  let ?fs = "map fd (table c)" and ?V = "{f. f \<noteq> fd p \<or> write_buf (users c (fd p)) = Null}"
  obtain c1 where c1: "chat_round 18 (Some rv) io c = Some (Inr ([], c1))" "chat_inv c1" "map fd (table c1) = ?fs"
    "waiting (fd p) msg ?V (set ?fs - {fd p}) c1"
    using read_round [where io = io, OF inv i p only io msg] by blast
  have j: "nat (i - 1) < length ?fs" "Suc (nat (i - 1)) = nat i" "?fs ! nat (i - 1) = fd p"
    using load_table(2) [OF inv i] i p by simp_all
  have dist: "distinct ?fs" using inv by (simp add: chat_inv_def)
  have sender: "k = nat (i - 1)" if "k < length ?fs" "?fs ! k = fd p" for k
    using nth_eq_iff_index_eq [OF dist that(1) j(1)] that(2) j(3) by simp
  have "fd p \<notin> ready_fds rv' ?fs" if idle: "rv' (nat i) = 0" for rv'
  proof
    assume "fd p \<in> ready_fds rv' ?fs"
    then obtain k where "k < length ?fs" "?fs ! k = fd p" "rv' (Suc k) = POLLOUT" unfolding ready_fds_def by force
    then show False using sender [of k] j(2) idle poll_masks(2) by simp
  qed
  then have V: "ready_fds rv' ?fs \<subseteq> ?V" if "write_buf (users c (fd p)) = Null \<or> rv' (nat i) = 0" for rv'
    using that by (cases "write_buf (users c (fd p)) = Null") auto
  have "\<forall>(polled, io) \<in> set rs. \<exists>rv. polled = Some rv \<and> write_only rv \<and> ready_fds rv ?fs \<subseteq> ?V"
  proof (clarify)
    fix polled io assume "(polled, io) \<in> set rs"
    then obtain rv' where "polled = Some rv'" "write_only rv'" "write_buf (users c (fd p)) = Null \<or> rv' (nat i) = 0"
      using rs by auto
    then show "\<exists>rv. polled = Some rv \<and> write_only rv \<and> ready_fds rv ?fs \<subseteq> ?V" using V by (intro exI [of _ rv']) simp
  qed
  from write_rounds [OF c1(2,4) c1(3) [symmetric] this] obtain es c' where
    "chat_rounds rs c1 = Some (Inr (es, c'))" "chat_inv c'" "map fd (table c') = ?fs"
    "\<forall>f. sent_to f es = (if f \<in> (set ?fs - {fd p}) \<inter> set ?fs \<and> (\<exists>rv io. (Some rv, io) \<in> set rs \<and> f \<in> ready_fds rv ?fs) then [msg] else [])"
    by blast
  moreover have "set ?fs = open_conns c" using inv by (simp add: chat_inv_def)
  ultimately show ?thesis using c1(1) by simp
qed
section \<open>Properties\<close>

text \<open>
  C6. The chat server in every round. Nothing is assumed of the uninitialised array of client data; the kernel hands out
  descriptors that are not negative and not in use, and \<open>poll\<close> reports only what was asked for. Then after any number
  of rounds at most \<open>USER_LIMIN\<close> clients are connected, the table lists exactly the connections that are open, each
  once, and the next round ends within 18 passes of its inner loop. It can stop the program only in three ways: \<open>accept\<close>
  fails (\<open>exit(1)\<close>); \<open>accept\<close> returns a descriptor that is not below \<open>FD_LIMIT\<close> while there is room for a client,
  and \<open>users[clnt_sock]\<close> leaves the array; or \<open>strlen\<close> runs off a message buffer, and then some buffer of the
  uninitialised array was without a terminator. Every other array access and pointer use is in order.
\<close>

theorem chat_server_safe:
  assumes "chat_runs (chat_start sock junk) c" "poll_contract rv c" "accept_fresh (io 0) c"
  shows "0 \<le> user_counter c \<and> user_counter c \<le> USER_LIMIN
    \<and> distinct (map fd (table c)) \<and> fd ` set (table c) = open_conns c \<and> int (card (open_conns c)) = user_counter c
    \<and> (\<exists>r. chat_round 18 (Some rv) io c = Some r
        \<and> (case r of
             Inl e \<Rightarrow> e = ExitCall 1 \<and> io_accept (io 0) = None
               \<or> e = UndefinedBehaviour \<and> user_counter c < USER_LIMIN \<and> (\<exists>s a. io_accept (io 0) = Some (s, a) \<and> FD_LIMIT \<le> s)
               \<or> e = UndefinedBehaviour \<and> (\<exists>f. c_string (buf (junk f)) 0 = None)
           | Inr _ \<Rightarrow> True))"
proof -
  have inv: "chat_inv c" and from_junk: "buffers_from (chat_start sock junk) c"
    using chat_runs_inv [OF assms(1) chat_start_inv] by simp_all
  have "card (fd ` set (table c)) = length (table c)"
    using inv by (metis chat_inv_def distinct_card length_map list.set_map)
  then have "int (card (open_conns c)) = user_counter c"
    using inv fds_split(2) [OF inv] by (simp add: chat_inv_def)
  moreover obtain r where "chat_round 18 (Some rv) io c = Some r"
    "case r of Inl e \<Rightarrow> round_error e (io 0) c | Inr (es, c') \<Rightarrow> chat_inv c' \<and> buffers_from c c'"
    using chat_round_inv [where io = io, OF inv assms(2,3)] by blast
  moreover have "\<exists>f. c_string (buf (junk f)) 0 = None" if "unterminated (users c)"
    using unterminated_from [OF from_junk that] by (simp add: unterminated_def chat_start_def)
  ultimately show ?thesis using inv
    by (auto simp: chat_inv_def round_error_def accept_error_def split: sum.splits)
qed

definition blank_client :: "int \<Rightarrow> unit client_data" where
  "blank_client f = \<lparr>address = (), write_buf = Wild, buf = replicate 64 NUL\<rparr>"

theorem chat_server_safe_witness:
  "\<exists>r. chat_round 18 (Some (\<lambda>k. if k = 0 then POLLIN else 0)) (\<lambda>_. \<lparr>io_accept = Some (4, ()), io_fcntl = (0, 0), io_recv = Recv []\<rparr>)
     (chat_start 3 blank_client) = Some r \<and> (case r of Inl e \<Rightarrow> False | Inr _ \<Rightarrow> True)"
proof -
  have "c_string (buf (blank_client f)) 0 \<noteq> None" for f by (simp add: blank_client_def c_string_def numeral_eq_Suc)
  moreover have "poll_contract (\<lambda>k. if k = 0 then POLLIN else 0) (chat_start 3 blank_client)"
    by (auto simp: poll_contract_def chat_start_def POLLIN_def POLLERR_def POLLHUP_def POLLNVAL_def)
  moreover have "accept_fresh \<lparr>io_accept = Some (4, ()), io_fcntl = (0, 0), io_recv = Recv []\<rparr> (chat_start 3 blank_client)"
    by (simp add: accept_fresh_def chat_start_def)
  ultimately show ?thesis
    using chat_server_safe [OF chat_runs.start, where junk = blank_client and sock = 3
        and rv = "\<lambda>k. if k = 0 then POLLIN else 0" and io = "\<lambda>_. \<lparr>io_accept = Some (4, ()), io_fcntl = (0, 0), io_recv = Recv []\<rparr>"]
    by (auto simp: FD_LIMIT_def split: sum.splits)
qed

definition two_clients :: "unit chat" where
  "two_clients = \<lparr>serv_sock = 3, users = blank_client,
     fds = [\<lparr>fd = 3, events = POLLIN OR POLLERR, revents = 0\<rparr>,
       \<lparr>fd = 4, events = POLLIN OR POLLRDHUP OR POLLERR, revents = 0\<rparr>, \<lparr>fd = 5, events = POLLIN OR POLLRDHUP OR POLLERR, revents = 0\<rparr>,
       \<lparr>fd = -1, events = 0, revents = 0\<rparr>, \<lparr>fd = -1, events = 0, revents = 0\<rparr>, \<lparr>fd = -1, events = 0, revents = 0\<rparr>],
     user_counter = 2, open_conns = {4, 5}\<rparr>"

lemma two_clients_inv: "chat_inv two_clients"
proof -
  have "table two_clients = [\<lparr>fd = 4, events = POLLIN OR POLLRDHUP OR POLLERR, revents = 0\<rparr>,
      \<lparr>fd = 5, events = POLLIN OR POLLRDHUP OR POLLERR, revents = 0\<rparr>]"
    by (simp add: two_clients_def table_def numeral_eq_Suc)
  then show ?thesis
    unfolding chat_inv_def
    by (simp add: two_clients_def USER_LIMIN_def entry_ok_def valid_user_def FD_LIMIT_def POLLIN_def POLLERR_def
        POLLRDHUP_def POLLOUT_def)
qed

text \<open>
  A run that reads a buffer never written. Two clients are accepted, with descriptors 4 and 5, and the first sends a message, which the second is
  to be sent. In the next round the first has hung up and the second can be written to: removing the first copies the second's client data, whose buffer was never
  written, over the first's, and the pending \<open>strlen\<close> reads it.
\<close>

definition answers :: "int \<Rightarrow> 'addr \<Rightarrow> string \<Rightarrow> nat \<Rightarrow> 'addr chat_io" where
  "answers s a msg k = \<lparr>io_accept = Some (s, a), io_fcntl = (0, 0), io_recv = Recv msg\<rparr>"

definition chat_table :: "(int \<Rightarrow> 'addr client_data) \<Rightarrow> 16 word \<Rightarrow> (int \<times> 16 word \<times> 16 word) list \<Rightarrow> 'addr chat" where
  "chat_table us r es = \<lparr>serv_sock = 3, users = us,
     fds = \<lparr>fd = 3, events = POLLIN OR POLLERR, revents = r\<rparr> # map (\<lambda>(f, e, r). \<lparr>fd = f, events = e, revents = r\<rparr>) es
       @ replicate (5 - length es) \<lparr>fd = - 1, events = 0, revents = 0\<rparr>,
     user_counter = int (length es), open_conns = fst ` set es\<rparr>"

lemmas chat_eval = chat_table_def answers_def only_def chat_round_def chat_start_def numeral_eq_Suc poll_result_def upt_rec serve_one_def
  USER_LIMIN_def accept_branch_def read_branch_def write_branch_def drop_client_def BUFFER_SIZE_def valid_user_def FD_LIMIT_def
  load_def store_def POLLIN_def POLLERR_def POLLOUT_def POLLRDHUP_def 

definition joined :: "16 word" where "joined = POLLIN OR POLLRDHUP OR POLLERR"

lemma run_accept_first:
  "\<exists>es. chat_round 18 (Some (only 0 POLLIN)) (answers 4 a []) (chat_start 3 junk)
     = Some (Inr (es, chat_table (junk(4 := (junk 4)\<lparr>address := a\<rparr>)) POLLIN [(4, joined, 0)]))"
  by (simp add: chat_eval Let_def joined_def)

lemma run_accept_second:
  "\<exists>es. chat_round 18 (Some (only 0 POLLIN)) (answers 5 b []) (chat_table us r [(4, joined, 0)])
     = Some (Inr (es, chat_table (us(5 := (us 5)\<lparr>address := b\<rparr>)) POLLIN [(4, joined, 0), (5, joined, 0)]))"
  by (simp add: chat_eval Let_def joined_def insert_commute)

lemma run_message:
  "chat_round 18 (Some (only 1 POLLIN)) (answers s b ''hi'') (chat_table us r [(4, joined, 0), (5, joined, 0)])
     = Some (Inr ([], chat_table (us(4 := (us 4)\<lparr>buf := ''hi'' @ replicate 62 NUL\<rparr>, 5 := (us 5)\<lparr>write_buf := Buf_Of 4\<rparr>)) 0
         [(4, joined, POLLIN), (5, - 1, 0)]))"
  by (simp add: chat_eval Let_def joined_def)

lemma run_leave:
  assumes "write_buf (us 5) = Buf_Of 4" "c_string (buf (us 5)) 0 = None"
  shows "chat_round 18 (Some (\<lambda>k. if k = 1 then POLLRDHUP else if k = 2 then POLLOUT else 0)) io (chat_table us r [(4, joined, r'), (5, - 1, r'')])
     = Some (Inl UndefinedBehaviour)"
  using assms
  by (simp add: chat_round_def chat_table_def poll_result_def upt_rec serve_one_def drop_client_def write_branch_def load_def store_def
      valid_user_def FD_LIMIT_def poll_masks numeral_eq_Suc)

lemma poll_contract_cases:
  assumes "rv 0 \<in> {0, POLLIN}" "length es \<le> 5"
    and "\<And>k f e r. k < length es \<Longrightarrow> es ! k = (f, e, r) \<Longrightarrow> e AND rv (Suc k) = rv (Suc k)" "\<And>k. length es \<le> k \<Longrightarrow> rv (Suc k) = 0"
  shows "poll_contract rv (chat_table us r es)"
proof -
  have sub: "w AND NOT (e OR POLLERR OR POLLHUP OR POLLNVAL) = 0" if "e AND w = w" for e w :: "16 word"
  proof (rule bit_eqI)
    fix n
    have "bit w n \<Longrightarrow> bit e n" using that by (metis bit_and_iff)
    then show "bit (w AND NOT (e OR POLLERR OR POLLHUP OR POLLNVAL)) n \<longleftrightarrow> bit 0 n" by (auto simp: bit_and_iff bit_or_iff bit_not_iff)
  qed
  have "rv k AND NOT (events (fds (chat_table us r es) ! k) OR POLLERR OR POLLHUP OR POLLNVAL) = 0"
    if "k < length (fds (chat_table us r es))" for k
  proof (cases k)
    case 0
    then show ?thesis using assms(1) by (intro sub) (auto simp: chat_table_def POLLIN_def POLLERR_def)
  next
    case (Suc j)
    show ?thesis
    proof (cases "j < length es")
      case True
      obtain f e r where "es ! j = (f, e, r)" by (cases "es ! j")
      then show ?thesis using Suc True assms(3) [OF True] by (intro sub) (simp add: chat_table_def nth_append)
    next
      case False
      then show ?thesis using Suc assms(4) [of j] by simp
    qed
  qed
  then show ?thesis by (simp add: poll_contract_def)
qed

lemma accept_fresh_table [simp]:
  "accept_fresh (answers s a msg k) (chat_table us r es) \<longleftrightarrow> 0 \<le> s \<and> s \<noteq> 3 \<and> s \<notin> fst ` set es"
  by (auto simp: accept_fresh_def answers_def chat_table_def)

lemma two_joined_run:
  defines "joined_users junk a b \<equiv> junk(4 := (junk 4)\<lparr>address := a\<rparr>, 5 := (junk 5)\<lparr>address := b\<rparr>)"
  shows "chat_runs (chat_start 3 junk) (chat_table (joined_users junk a b) POLLIN [(4, joined, 0), (5, joined, 0)])"
proof -
  let ?u1 = "junk(4 := (junk 4)\<lparr>address := a\<rparr>)"
  obtain es1 where 1: "chat_round 18 (Some (only 0 POLLIN)) (answers 4 a []) (chat_start 3 junk)
      = Some (Inr (es1, chat_table ?u1 POLLIN [(4, joined, 0)]))" using run_accept_first [where junk = junk and a = a] by blast
  obtain es2 where 2: "chat_round 18 (Some (only 0 POLLIN)) (answers 5 b []) (chat_table ?u1 POLLIN [(4, joined, 0)])
      = Some (Inr (es2, chat_table (joined_users junk a b) POLLIN [(4, joined, 0), (5, joined, 0)]))"
    using run_accept_second [where us = ?u1 and b = b and r = POLLIN] by (auto simp: joined_users_def)
  have start: "chat_start 3 junk = chat_table junk 0 []"
    by (simp add: chat_start_def chat_table_def USER_LIMIN_def)
  have "chat_runs (chat_start 3 junk) (chat_table ?u1 POLLIN [(4, joined, 0)])"
    by (rule chat_runs.round [OF chat_runs.start _ _ 1]) (auto simp: start only_def intro!: poll_contract_cases)
  then show ?thesis
    by (rule chat_runs.round [OF _ _ _ 2]) (auto simp: only_def intro!: poll_contract_cases)
qed

text \<open>
  The uninitialised array is reached. If the memory of the client data for descriptor 5 holds no terminator, the server started on it reaches, in three rounds
  that the kernel's contract allows, a state with the two clients 4 and 5 from which a round allowed by the contract is undefined
  behaviour: \<open>strlen\<close> runs off the buffer.
\<close>

theorem chat_uninitialised_overread:
  assumes "c_string (buf (junk 5)) 0 = None"
  shows "\<exists>c rv io. chat_runs (chat_start 3 junk) c \<and> open_conns c = {4, 5} \<and> poll_contract rv c \<and> accept_fresh (io 0) c
    \<and> chat_round 18 (Some rv) io c = Some (Inl UndefinedBehaviour)"
proof -
  let ?a = "address (junk 4)"
  let ?u2 = "junk(4 := (junk 4)\<lparr>address := ?a\<rparr>, 5 := (junk 5)\<lparr>address := ?a\<rparr>)"
  let ?u3 = "?u2(4 := (?u2 4)\<lparr>buf := ''hi'' @ replicate 62 NUL\<rparr>, 5 := (?u2 5)\<lparr>write_buf := Buf_Of 4\<rparr>)"
  let ?c = "chat_table ?u3 0 [(4, joined, POLLIN), (5, - 1, 0)]"
  let ?rv = "\<lambda>k. if k = 1 then POLLRDHUP else if k = 2 then POLLOUT else 0"
  have joined: "joined AND POLLIN = POLLIN" "joined AND POLLRDHUP = POLLRDHUP"
    by (simp_all add: joined_def POLLIN_def POLLRDHUP_def POLLERR_def)
  have run: "chat_runs (chat_start 3 junk) ?c"
    by (rule chat_runs.round [OF two_joined_run _ _ run_message [of 6 ?a ?u2 POLLIN]])
      (auto simp: only_def joined less_Suc_eq nth_Cons' intro!: poll_contract_cases)
  have "poll_contract ?rv ?c"
    by (rule poll_contract_cases) (auto simp: less_Suc_eq nth_Cons' joined)
  moreover have "accept_fresh (answers 6 ?a [] 0) ?c" by simp
  moreover have "open_conns ?c = {4, 5}" by (simp add: chat_table_def)
  moreover have "chat_round 18 (Some ?rv) (answers 6 ?a []) ?c = Some (Inl UndefinedBehaviour)"
    by (rule run_leave) (use assms in simp_all)
  ultimately show ?thesis using run by blast
qed

definition dirty_client :: "int \<Rightarrow> unit client_data" where
  "dirty_client f = \<lparr>address = (), write_buf = Wild, buf = replicate 64 (CHR ''x'')\<rparr>"

theorem chat_uninitialised_overread_witness:
  "\<exists>c rv io. chat_runs (chat_start 3 dirty_client) c \<and> open_conns c = {4, 5}
     \<and> chat_round 18 (Some rv) io c = Some (Inl UndefinedBehaviour)"
proof -
  have "c_string (buf (dirty_client 5)) 0 = None" by (simp add: dirty_client_def c_string_def numeral_eq_Suc)
  from chat_uninitialised_overread [where junk = dirty_client, OF this] show ?thesis by blast
qed

text \<open>
  C36. The event masks only ever grow. Masking with \<open>|= ~POLLIN\<close> and \<open>|= ~POLLOUT\<close> sets the other fifteen bits instead of
  clearing one. After a broadcast the mask of every other client that asked for input
  has all sixteen bits set, and after it has been served for writing it still asks to be told when it can write: the
  descriptor is reported at once in every later round.
\<close>

theorem chat_masks_stuck:
  assumes "chat_inv c" "j < length (table c)" "fd (table c ! j) \<noteq> connfd" "events (table c ! j) AND POLLIN = POLLIN"
  shows "\<exists>c'. broadcast (nat (user_counter c)) 1 connfd c = Inr c' \<and> events (table c' ! j) = -1
    \<and> (\<forall>i es c''. write_branch i (table c' ! j) c' = Inr (es, i + 1, c'') \<and> es \<noteq> [] \<longrightarrow>
        (\<exists>t. store (fds c') i ((table c' ! j)\<lparr>events := -1\<rparr>) = Some t \<and> fds c'' = t))"
proof -
  obtain c' where c': "broadcast (nat (user_counter c)) 1 connfd c = Inr c'" "table c' = map (asked_to_write connfd) (table c)"
    using broadcast_inv [OF assms(1), of connfd] by blast
  let ?e = "events (table c ! j)"
  have "(?e OR NOT POLLIN) OR POLLOUT = -1"
  proof -
    have "?e OR NOT POLLIN = (?e AND POLLIN) OR NOT POLLIN" by (simp add: bit.disj_conj_distrib2)
    then have "?e OR NOT POLLIN = -1" unfolding assms(4) by simp
    then show ?thesis by simp
  qed
  then have ev: "events (table c' ! j) = -1" using c'(2) assms(2,3) by (simp add: asked_to_write_def)
  moreover have "\<exists>t. store (fds c') i ((table c' ! j)\<lparr>events := -1\<rparr>) = Some t \<and> fds c'' = t"
    if "write_branch i (table c' ! j) c' = Inr (es, i + 1, c'')" "es \<noteq> []" for i es c''
    using that ev by (auto simp: write_branch_def split: if_splits buf_pointer.splits option.splits)
  ultimately show ?thesis using c'(1) by blast
qed

theorem chat_masks_stuck_witness:
  "\<exists>c'. broadcast (nat (user_counter two_clients)) 1 4 two_clients = Inr c' \<and> events (table c' ! 1) = -1"
proof -
  have "table two_clients ! 1 = \<lparr>fd = 5, events = POLLIN OR POLLRDHUP OR POLLERR, revents = 0\<rparr>" "length (table two_clients) = 2"
    by (simp_all add: two_clients_def table_def numeral_eq_Suc)
  moreover have "(POLLIN OR POLLRDHUP OR POLLERR) AND POLLIN = POLLIN" by (simp add: POLLIN_def POLLRDHUP_def POLLERR_def)
  ultimately show ?thesis using chat_masks_stuck [OF two_clients_inv, of 1 4] by auto
qed

text \<open>
  A leaving client's last message can be replaced. The client data is indexed by descriptor, yet removing an entry
  copies the last client's data over the leaver's: a client that still has the leaver's message to send
  is then sent the contents of the last client's buffer instead.
\<close>

theorem chat_leaver_message_replaced:
  assumes "chat_inv c" "1 \<le> i" "i \<le> user_counter c" "p = table c ! nat (i - 1)"
    and "q \<in> set (table c)" "fd q \<noteq> fd p" "write_buf (users c (fd q)) = Buf_Of (fd p)"
    and "c_string (buf (users c (fd (last (table c))))) 0 = Some other" "0 \<le> k" "k < 6"
  shows "\<exists>es c'. drop_client i c = Inr (es, i, c')
    \<and> (\<exists>c''. write_branch k q c' = Inr ([Sent (fd q) other], k + 1, c''))"
proof -
  obtain es c' where d: "drop_client i c = Inr (es, i, c')" "chat_inv c'" using drop_inv [OF assms(1-3)] by blast
  have l: "load (fds c) i = Some p" "nat (i - 1) < length (table c)" using load_table [OF assms(1-3)] assms(4) by simp_all
  have "load (fds c) (user_counter c) = Some (table c ! nat (user_counter c - 1))"
    using load_table(1) [OF assms(1), of "user_counter c"] assms(2,3) by simp
  moreover have "table c \<noteq> []" using l(2) by auto
  moreover have "nat (user_counter c - 1) = length (table c) - 1" using fds_split(2) [OF assms(1)] by simp
  ultimately have "load (fds c) (user_counter c) = Some (last (table c))" by (simp add: last_conv_nth)
  then have u: "users c' = (users c)(fd p := users c (fd (last (table c))))"
    using d(1) l(1) by (auto simp: drop_client_def split: if_splits option.splits)
  have "valid_user (fd q)" using assms(1,5) by (auto simp: chat_inv_def entry_ok_def)
  moreover have "store (fds c') k r = Some ((fds c')[nat k := r])" for r
    using d(2) assms(9,10) by (simp add: store_def chat_inv_def)
  ultimately show ?thesis using d(1) u assms(6-8) by (simp add: write_branch_def)
qed

definition leaving_client :: "unit chat" where
  "leaving_client = two_clients\<lparr>users := (users two_clients)(4 := (blank_client 4)\<lparr>buf := ''bye'' @ replicate 61 NUL\<rparr>,
     5 := (blank_client 5)\<lparr>write_buf := Buf_Of 4\<rparr>)\<rparr>"

theorem chat_leaver_message_replaced_witness:
  "\<exists>es c' c''. drop_client 1 leaving_client = Inr (es, 1, c')
     \<and> write_branch 1 (table leaving_client ! 1) c' = Inr ([Sent 5 []], 2, c'')"
proof -
  have tab: "table leaving_client = [\<lparr>fd = 4, events = POLLIN OR POLLRDHUP OR POLLERR, revents = 0\<rparr>,
      \<lparr>fd = 5, events = POLLIN OR POLLRDHUP OR POLLERR, revents = 0\<rparr>]" "table leaving_client = table two_clients"
    by (simp_all add: leaving_client_def two_clients_def table_def numeral_eq_Suc)
  have inv: "chat_inv leaving_client"
    using two_clients_inv unfolding chat_inv_def tab(2) [symmetric] tab(1)
    by (simp add: leaving_client_def two_clients_def entry_ok_def blank_client_def c_string_def numeral_eq_Suc)
  have u: "user_counter leaving_client = 2" "write_buf (users leaving_client 5) = Buf_Of 4"
    "c_string (buf (users leaving_client 5)) 0 = Some []"
    by (simp_all add: leaving_client_def two_clients_def blank_client_def c_string_def numeral_eq_Suc)
  from chat_leaver_message_replaced [OF inv, of 1 "table leaving_client ! 0" "table leaving_client ! 1" "[]" 1]
  show ?thesis using u by (auto simp: tab(1))
qed

end
