(* ===== verification/Chat_Client.thy ===== *)
theory Chat_Client
  imports Sockets
begin

text \<open>
  The chat client (\<open>chat_client.cpp\<close>). It prints what the server sends and moves what the user types through a pipe to the
  socket with \<open>splice\<close>, without copying. How many bytes each \<open>splice\<close> moves is up to the kernel, and an argument.
\<close>

definition BUF_SIZE :: nat where "BUF_SIZE = 1024"
definition SPLICE_MAX :: nat where "SPLICE_MAX = 32768"

text \<open>
  What the user has typed and the client not yet read, whether that is all there will be, the bytes in the pipe, the bytes given to the socket,
  and the lines printed.
\<close>

record relay =
  typed :: string
  at_eof :: bool
  in_pipe :: string
  sent :: string
  printed :: "string list"

text \<open>
  The set-up: both arguments are needed. The results of \<open>socket\<close>, \<open>connect\<close> and \<open>pipe\<close> are given; an \<open>Inl\<close> ends the program.
\<close>

record client_env =
  cl_socket :: int
  cl_connect :: int
  cl_pipe :: int

definition connect_client :: "client_env \<Rightarrow> string list \<Rightarrow> sys_call list \<times> (cpp_error + int)" where
  "connect_client env args =
     (if length args \<noteq> 2 then ([Say ''Usage''], Inl (ExitCall 1))
      else let s = cl_socket env in
        if s < 0 then ([Socket], Inl AssertionFailed)
        else case atoi (args ! 1) of
               None \<Rightarrow> ([Socket], Inl UndefinedBehaviour)
             | Some port \<Rightarrow>
                 if cl_connect env = -1 then ([Socket, Connect s, Say ''connect() error''], Inl (ExitCall 1))
                 else if cl_pipe env = -1 then ([Socket, Connect s, Say ''Connecting...''], Inl AssertionFailed)
                 else ([Socket, Connect s, Say ''Connecting...''], Inr s))"

text \<open>
  The two \<open>splice\<close> calls, with the number of bytes the kernel is willing to move. The first returns at once when there is nothing more to read; the
  second waits for data in the pipe, whose writing end stays open: \<open>None\<close> is a client that waits.
\<close>

definition splice_in :: "nat \<Rightarrow> relay \<Rightarrow> relay option" where
  "splice_in k c =
     (if typed c = [] \<and> \<not> at_eof c then None
      else let n = min (min k SPLICE_MAX) (length (typed c)) in
           Some (c\<lparr>typed := drop n (typed c), in_pipe := in_pipe c @ take n (typed c)\<rparr>))"

definition splice_out :: "nat \<Rightarrow> relay \<Rightarrow> relay option" where
  "splice_out k c =
     (if in_pipe c = [] then None
      else let n = min (min k SPLICE_MAX) (length (in_pipe c)) in
           Some (c\<lparr>in_pipe := drop n (in_pipe c), sent := sent c @ take n (in_pipe c)\<rparr>))"

text \<open>One pass of the loop: what \<open>poll\<close> reports for the two descriptors, what \<open>recv\<close> and the two \<open>splice\<close> calls do.\<close>

record round_io =
  user_ready :: "16 word"
  sock_ready :: "16 word"
  received :: string
  moved_in :: nat
  moved_out :: nat

datatype round_result = Goes_On relay | Ends relay | Hangs

definition client_round :: "round_io option \<Rightarrow> relay \<Rightarrow> round_result" where
  "client_round polled c =
     (case polled of
        None \<Rightarrow> Ends c
      | Some io \<Rightarrow>
          if sock_ready io AND POLLRDHUP \<noteq> 0 then Ends c
          else let c = (if sock_ready io AND POLLIN \<noteq> 0
                        then c\<lparr>printed := printed c @ [takeWhile (\<lambda>x. x \<noteq> NUL) (take (BUF_SIZE - 1) (received io))]\<rparr> else c) in
               if user_ready io AND POLLIN \<noteq> 0 then
                 (case splice_in (moved_in io) c of
                    None \<Rightarrow> Hangs
                  | Some c \<Rightarrow> (case splice_out (moved_out io) c of None \<Rightarrow> Hangs | Some c \<Rightarrow> Goes_On c))
               else Goes_On c)"

fun client_rounds :: "round_io option list \<Rightarrow> relay \<Rightarrow> round_result" where
  "client_rounds [] c = Goes_On c"
| "client_rounds (polled # rest) c =
     (case client_round polled c of Goes_On c \<Rightarrow> client_rounds rest c | r \<Rightarrow> r)"

text \<open>The program: when the loop ends the socket is closed and 0 returned. Without a last element the client is still running.\<close>

definition client_main ::
  "client_env \<Rightarrow> string list \<Rightarrow> round_io option list \<Rightarrow> relay \<Rightarrow> sys_call list \<times> (cpp_error + int \<times> round_result)" where
  "client_main env args polls c =
     (case connect_client env args of
        (calls, Inl e) \<Rightarrow> (calls, Inl e)
      | (calls, Inr s) \<Rightarrow>
          (case client_rounds polls c of
             Ends c \<Rightarrow> (calls @ [Close s], Inr (0, Ends c))
           | r \<Rightarrow> (calls, Inr (0, r))))"

section \<open>Properties\<close>

definition relayed :: "relay \<Rightarrow> string" where
  "relayed c = sent c @ in_pipe c @ typed c"

lemma splice_relayed: "splice_in k c = Some c' \<Longrightarrow> relayed c' = relayed c" "splice_out k c = Some c' \<Longrightarrow> relayed c' = relayed c"
  by (auto simp: splice_in_def splice_out_def relayed_def Let_def split: if_splits)

lemma client_round_relayed:
  assumes "client_round polled c \<in> {Goes_On c', Ends c'}"
  shows "relayed c' = relayed c"
proof (cases polled)
  case None
  then show ?thesis using assms by (simp add: client_round_def)
next
  case (Some io)
  define d where "d = (if sock_ready io AND POLLIN \<noteq> 0
    then c\<lparr>printed := printed c @ [takeWhile (\<lambda>x. x \<noteq> NUL) (take (BUF_SIZE - 1) (received io))]\<rparr> else c)"
  have d: "relayed d = relayed c" by (simp add: d_def relayed_def)
  have "c' = c \<or> c' = d \<or> (\<exists>e. splice_in (moved_in io) d = Some e \<and> splice_out (moved_out io) e = Some c')"
    using assms Some unfolding client_round_def option.case Let_def d_def [symmetric]
    by (auto simp: d_def [symmetric] split: if_splits option.splits)
  then show ?thesis using d splice_relayed by metis
qed

lemma client_rounds_relayed:
  "client_rounds polls c \<in> {Goes_On c', Ends c'} \<Longrightarrow> relayed c' = relayed c"
proof (induction polls arbitrary: c)
  case (Cons polled polls)
  show ?case
  proof (cases "client_round polled c")
    case (Goes_On d)
    then show ?thesis using Cons client_round_relayed [of polled c d] by auto
  next
    case (Ends d)
    then show ?thesis using Cons.prems client_round_relayed [of polled c d] by auto
  next
    case Hangs
    then show ?thesis using Cons.prems by auto
  qed
qed simp

text \<open>
  The rounds the client goes through: all before the one in which \<open>poll\<close> fails or the server has left. The text
  printed in a round is what was received, cut at the size of the buffer and at the first NUL.
\<close>

definition goes_on :: "round_io option \<Rightarrow> bool" where
  "goes_on polled \<longleftrightarrow> (case polled of None \<Rightarrow> False | Some io \<Rightarrow> sock_ready io AND POLLRDHUP = 0)"

definition served :: "round_io option list \<Rightarrow> round_io list" where
  "served polls = map the (takeWhile goes_on polls)"

lemma served_simps [simp]:
  "served [] = []" "goes_on polled \<Longrightarrow> served (polled # polls) = the polled # served polls"
  "\<not> goes_on polled \<Longrightarrow> served (polled # polls) = []"
  by (simp_all add: served_def)

definition shown :: "round_io \<Rightarrow> string list" where
  "shown io = (if sock_ready io AND POLLIN \<noteq> 0 then [takeWhile (\<lambda>x. x \<noteq> NUL) (take (BUF_SIZE - 1) (received io))] else [])"

definition relays :: "round_io \<Rightarrow> nat" where
  "relays io = (if user_ready io AND POLLIN \<noteq> 0 then 1 else 0)"

text \<open>One pass: what is printed, that at least a byte is sent, and that the pipe is emptied when the kernel takes all it is given.\<close>

lemma client_round_progress:
  assumes "client_round polled c = Goes_On c'"
  shows "goes_on polled" "printed c' = printed c @ shown (the polled)"
    "0 < moved_out (the polled) \<Longrightarrow> length (sent c) + relays (the polled) \<le> length (sent c')"
    "SPLICE_MAX \<le> moved_out (the polled) \<Longrightarrow> in_pipe c = [] \<Longrightarrow> in_pipe c' = []"
proof -
  obtain io where io: "polled = Some io" "sock_ready io AND POLLRDHUP = 0"
    using assms by (cases polled) (auto simp: client_round_def split: if_splits)
  define d where "d = c\<lparr>printed := printed c @ shown io\<rparr>"
  have "(if sock_ready io AND POLLIN \<noteq> 0
      then c\<lparr>printed := printed c @ [takeWhile (\<lambda>x. x \<noteq> NUL) (take (BUF_SIZE - 1) (received io))]\<rparr> else c) = d"
    by (simp add: d_def shown_def)
  then have step: "(if user_ready io AND POLLIN \<noteq> 0 then
      (case splice_in (moved_in io) d of None \<Rightarrow> Hangs
       | Some c \<Rightarrow> (case splice_out (moved_out io) c of None \<Rightarrow> Hangs | Some c \<Rightarrow> Goes_On c)) else Goes_On d) = Goes_On c'"
    using assms io by (simp add: client_round_def Let_def)
  have d: "sent d = sent c" "in_pipe d = in_pipe c" "printed d = printed c @ shown io" by (simp_all add: d_def)
  consider "user_ready io AND POLLIN = 0" "c' = d"
    | e where "user_ready io AND POLLIN \<noteq> 0" "splice_in (moved_in io) d = Some e" "splice_out (moved_out io) e = Some c'"
    using step by (auto split: if_splits option.splits)
  then have "printed c' = printed c @ shown io
    \<and> (0 < moved_out io \<longrightarrow> length (sent c) + relays io \<le> length (sent c'))
    \<and> (SPLICE_MAX \<le> moved_out io \<longrightarrow> in_pipe c = [] \<longrightarrow> in_pipe c' = [])"
  proof cases
    case 1
    then show ?thesis using d by (simp add: relays_def)
  next
    case (2 e)
    have e: "sent e = sent c" "printed e = printed d" "in_pipe c = [] \<longrightarrow> length (in_pipe e) \<le> SPLICE_MAX"
      using 2(2) d by (auto simp: splice_in_def Let_def split: if_splits)
    let ?n = "min (min (moved_out io) SPLICE_MAX) (length (in_pipe e))"
    have c': "in_pipe e \<noteq> []" "sent c' = sent e @ take ?n (in_pipe e)" "in_pipe c' = drop ?n (in_pipe e)" "printed c' = printed e"
      using 2(3) by (auto simp: splice_out_def Let_def split: if_splits)
    moreover have "0 < moved_out io \<longrightarrow> 0 < ?n" using c'(1) by (simp add: SPLICE_MAX_def)
    ultimately show ?thesis using e d by (auto simp: relays_def Suc_le_eq)
  qed
  then show "goes_on polled" "printed c' = printed c @ shown (the polled)"
    "0 < moved_out (the polled) \<Longrightarrow> length (sent c) + relays (the polled) \<le> length (sent c')"
    "SPLICE_MAX \<le> moved_out (the polled) \<Longrightarrow> in_pipe c = [] \<Longrightarrow> in_pipe c' = []"
    using io by (simp_all add: goes_on_def)
qed

lemma client_round_ends: "client_round polled c = Ends c' \<longleftrightarrow> \<not> goes_on polled \<and> c' = c"
  by (auto simp: client_round_def goes_on_def Let_def split: option.splits if_splits)

lemma client_rounds_progress:
  "client_rounds polls c \<in> {Goes_On c', Ends c'} \<Longrightarrow>
     printed c' = printed c @ concat (map shown (served polls))
     \<and> ((\<forall>io \<in> set (served polls). 0 < moved_out io) \<longrightarrow> length (sent c) + sum_list (map relays (served polls)) \<le> length (sent c'))
     \<and> ((\<forall>io \<in> set (served polls). SPLICE_MAX \<le> moved_out io) \<and> in_pipe c = [] \<longrightarrow> in_pipe c' = [])
     \<and> (client_rounds polls c = Ends c' \<longleftrightarrow> (\<exists>polled \<in> set polls. \<not> goes_on polled))"
proof (induction polls arbitrary: c)
  case (Cons polled polls)
  show ?case
  proof (cases "client_round polled c")
    case (Goes_On d)
    then have "client_rounds polls d \<in> {Goes_On c', Ends c'}" using Cons.prems by simp
    note rest = Cons.IH [OF this] and one = client_round_progress [OF Goes_On]
    show ?thesis using rest one Goes_On by (auto simp: add.assoc [symmetric])
  next
    case (Ends d)
    then show ?thesis using Cons.prems client_round_ends [of polled c d] by auto
  next
    case Hangs
    then show ?thesis using Cons.prems by auto
  qed
qed simp

text \<open>
  C27. The client relays what is typed, in order, and makes progress. Whatever the server sends meanwhile and however the kernel splits the
  transfers, while the client runs and when it has ended: the bytes given to the socket, those in the pipe and those still to be read
  are together what was typed. Every pass in which the user's input was ready has sent at least a byte when the kernel moves at
  least one per call, and everything read from the user has been sent, the pipe being empty, when the kernel takes what \<open>splice\<close> offers it. The texts
  printed are those received, one for each pass in which the socket was readable, in order. The socket is closed, as the last call, exactly when \<open>poll\<close> has failed or the
  server has left.
\<close>

theorem client_relays:
  assumes "client_main env args polls c = (calls, Inr (0, r))" "r \<in> {Goes_On c', Ends c'}"
  shows "sent c' @ in_pipe c' @ typed c' = sent c @ in_pipe c @ typed c
    \<and> ((\<forall>io \<in> set (served polls). 0 < moved_out io) \<longrightarrow>
         length (sent c) + length (filter (\<lambda>io. user_ready io AND POLLIN \<noteq> 0) (served polls)) \<le> length (sent c'))
    \<and> ((\<forall>io \<in> set (served polls). SPLICE_MAX \<le> moved_out io) \<and> in_pipe c = [] \<longrightarrow>
         in_pipe c' = [] \<and> sent c' @ typed c' = sent c @ typed c)
    \<and> printed c' = printed c @ map (\<lambda>io. takeWhile (\<lambda>x. x \<noteq> NUL) (take (BUF_SIZE - 1) (received io)))
         (filter (\<lambda>io. sock_ready io AND POLLIN \<noteq> 0) (served polls))
    \<and> (last calls = Close (cl_socket env) \<longleftrightarrow> (\<exists>polled \<in> set polls. \<not> goes_on polled))"
proof -
  have main: "client_rounds polls c = r" "last calls = Close (cl_socket env) \<longleftrightarrow> (\<exists>d. r = Ends d)"
    using assms(1)
    by (auto simp: client_main_def connect_client_def Let_def
        split: prod.splits sum.splits round_result.splits if_splits option.splits intro: sym)
  have in_r: "client_rounds polls c \<in> {Goes_On c', Ends c'}" using main(1) assms(2) by simp
  have "sum_list (map relays ios) = length (filter (\<lambda>io. user_ready io AND POLLIN \<noteq> 0) ios)" for ios
    by (induction ios) (simp_all add: relays_def)
  moreover have "concat (map shown ios) = map (\<lambda>io. takeWhile (\<lambda>x. x \<noteq> NUL) (take (BUF_SIZE - 1) (received io)))
      (filter (\<lambda>io. sock_ready io AND POLLIN \<noteq> 0) ios)" for ios
    by (induction ios) (simp_all add: shown_def)
  moreover have "last calls = Close (cl_socket env) \<longleftrightarrow> client_rounds polls c = Ends c'" using main assms(2) by auto
  ultimately show ?thesis
    using client_rounds_progress [OF in_r] client_rounds_relayed [OF in_r] by (auto simp: relayed_def)
qed

theorem client_relays_witness:
  "\<exists>c' calls. client_main \<lparr>cl_socket = 3, cl_connect = 0, cl_pipe = 0\<rparr> [''127.0.0.1'', ''80'']
      [Some \<lparr>user_ready = POLLIN, sock_ready = POLLIN, received = ''hi'', moved_in = 2, moved_out = 32768\<rparr>, None]
      \<lparr>typed = ''abc'', at_eof = False, in_pipe = [], sent = [], printed = []\<rparr> = (calls, Inr (0, Ends c'))
    \<and> in_pipe c' = [] \<and> sent c' @ typed c' = ''abc'' \<and> sent c' \<noteq> [] \<and> printed c' = [''hi''] \<and> last calls = Close 3"
proof -
  let ?io = "\<lparr>user_ready = POLLIN, sock_ready = POLLIN, received = ''hi'', moved_in = 2, moved_out = 32768\<rparr>"
  let ?c = "\<lparr>typed = ''abc'', at_eof = False, in_pipe = [], sent = [], printed = []\<rparr>"
  have "atoi ''80'' = Some 80" by code_simp
  then obtain calls c' where m: "client_main \<lparr>cl_socket = 3, cl_connect = 0, cl_pipe = 0\<rparr> [''127.0.0.1'', ''80''] [Some ?io, None] ?c
      = (calls, Inr (0, Ends c'))"
    by (simp add: client_main_def connect_client_def client_round_def splice_in_def splice_out_def SPLICE_MAX_def POLLIN_def POLLRDHUP_def)
  have s: "served [Some ?io, None] = [?io]" by (simp add: served_def goes_on_def POLLIN_def POLLRDHUP_def)
  have "\<not> goes_on None" by (simp add: goes_on_def)
  then have "in_pipe c' = []" "sent c' @ typed c' = ''abc''" "1 \<le> length (sent c')" "printed c' = [''hi'']" "last calls = Close 3"
    using client_relays [OF m, of c'] unfolding s by (auto simp: SPLICE_MAX_def BUF_SIZE_def POLLIN_def)
  with m show ?thesis by (auto intro!: exI [of _ c'])
qed

text \<open>
  The client hangs at the end of the input. Once everything typed has been sent and the input is closed, the closed
  input is reported as readable, the first \<open>splice\<close> moves nothing and the second waits on the empty pipe for ever: the
  client no longer notices messages or the server's leaving.
\<close>

theorem client_hangs_at_eof:
  assumes "typed c = []" "at_eof c" "in_pipe c = []" "user_ready io AND POLLIN \<noteq> 0" "sock_ready io AND POLLRDHUP = 0"
  shows "client_rounds (Some io # rest) c = Hangs"
  using assms by (simp add: client_round_def splice_in_def splice_out_def Let_def)

theorem client_hangs_at_eof_witness:
  "client_rounds [Some \<lparr>user_ready = POLLIN, sock_ready = POLLIN, received = ''hi'', moved_in = 9, moved_out = 9\<rparr>, None]
     \<lparr>typed = [], at_eof = True, in_pipe = [], sent = ''bye'', printed = []\<rparr> = Hangs"
  by (rule client_hangs_at_eof) (simp_all add: POLLIN_def POLLRDHUP_def)

end
