(* ===== verification/Epoll_Oneshot.thy ===== *)
theory Epoll_Oneshot
  imports Sockets
begin

text \<open>
  The edge-triggered server with one-shot events (\<open>epollet.cpp\<close>): the masks it registers, the worker that reads
  a connection until it would block, and the main loop that starts a thread per event and passes it a pointer to a local variable.
\<close>

definition BUFFER_SIZE :: nat where "BUFFER_SIZE = 1024"

definition EPOLLIN :: "32 word" where "EPOLLIN = 0x001"
definition EPOLLET :: "32 word" where "EPOLLET = push_bit 31 1"
definition EPOLLONESHOT :: "32 word" where "EPOLLONESHOT = push_bit 30 1"

section \<open>Registering\<close>

text \<open>The descriptors the kernel watches, with their masks; a one-shot entry is disarmed when it is reported.\<close>

type_synonym interest = "int \<Rightarrow> 32 word option"

text \<open>\<open>addfd\<close> also makes the descriptor non-blocking; the pair holds what the two \<open>fcntl\<close> calls return.\<close>

definition addfd :: "int \<times> int \<Rightarrow> int \<Rightarrow> bool \<Rightarrow> interest \<Rightarrow> sys_call list \<times> interest" where
  "addfd fcntl f oneshot ep =
     (let ev = EPOLLIN OR EPOLLET; ev = (if oneshot then ev OR EPOLLONESHOT else ev)
      in (fst (setnonblockingmode (fst fcntl) (snd fcntl) f), ep(f \<mapsto> ev)))"

definition reset_oneshot :: "int \<Rightarrow> interest \<Rightarrow> interest" where
  "reset_oneshot f ep = (if ep f = None then ep else ep(f \<mapsto> EPOLLIN OR EPOLLET OR EPOLLONESHOT))"

text \<open>What the kernel does when it reports a descriptor: the events of a one-shot entry are cleared.\<close>

definition reported :: "int \<Rightarrow> interest \<Rightarrow> interest" where
  "reported f ep =
     (case ep f of
        None \<Rightarrow> ep
      | Some ev \<Rightarrow> if ev AND EPOLLONESHOT \<noteq> 0 then ep(f \<mapsto> 0) else ep)"

definition armed :: "int \<Rightarrow> interest \<Rightarrow> bool" where
  "armed f ep = (case ep f of None \<Rightarrow> False | Some ev \<Rightarrow> ev AND EPOLLIN \<noteq> 0)"

section \<open>The worker\<close>

datatype recv_result = Data string | Eof | Again | Failed

datatype worker_end = Peer_Closed | Read_Later

text \<open>
  The loop of \<open>worker\<close> on the results of its \<open>recv\<close> calls, with the buffer it reads into; the buffer is cleared only once,
  before the loop. The result is what is printed and how the thread ends; no end means that it is still in
  its loop after all the given results.
\<close>

fun worker_loop :: "recv_result list \<Rightarrow> string \<Rightarrow> string list \<times> worker_end option" where
  "worker_loop [] buf = ([], None)"
| "worker_loop (Eof # rs) buf = ([], Some Peer_Closed)"
| "worker_loop (Again # rs) buf = ([], Some Read_Later)"
| "worker_loop (Failed # rs) buf = worker_loop rs buf"
| "worker_loop (Data d # rs) buf =
     (let got = take (BUFFER_SIZE - 1) d; buf = got @ drop (length got) buf in
      case worker_loop rs buf of (out, e) \<Rightarrow> (takeWhile (\<lambda>x. x \<noteq> NUL) buf # out, e))"

definition worker :: "int \<Rightarrow> recv_result list \<Rightarrow> interest \<Rightarrow> string list \<times> worker_end option \<times> interest" where
  "worker sockfd rs ep =
     (case worker_loop rs (replicate BUFFER_SIZE NUL) of
        (out, Some Peer_Closed) \<Rightarrow> (out, Some Peer_Closed, ep(sockfd := None))
      | (out, Some Read_Later) \<Rightarrow> (out, Some Read_Later, reset_oneshot sockfd ep)
      | (out, None) \<Rightarrow> (out, None, ep))"

section \<open>The main loop and its threads\<close>

text \<open>
  Every pass of the loop reuses the same local variable, and every thread gets its address. A thread that has
  not started yet will read what stands there when it does. A thread that has closed its connection or armed it again
  has only a line to print before it ends.
\<close>

datatype thread = Starting | Serving int | Leaving | Ended

record oneshot_server =
  serv_sock :: int
  watched :: interest
  slot :: int
  threads :: "thread list"

text \<open>An event, with what \<open>accept\<close> and the \<open>fcntl\<close> calls of its handler return.\<close>

record epoll_event =
  ev_fd :: int
  ev_in :: bool
  ev_accept :: int
  ev_fcntl :: "int \<times> int"

definition dispatch :: "epoll_event \<Rightarrow> oneshot_server \<Rightarrow> cpp_error + sys_call list \<times> oneshot_server" where
  "dispatch ev s =
     (if ev_fd ev = serv_sock s then
        (if ev_accept ev = -1 then Inl (ExitCall 1)
         else case addfd (ev_fcntl ev) (ev_accept ev) True (watched s) of (calls, w) \<Rightarrow> Inr (calls, s\<lparr>watched := w\<rparr>))
      else if ev_in ev then Inr ([], s\<lparr>slot := ev_fd ev, threads := threads s @ [Starting]\<rparr>)
      else Inr ([Say ''something else happened''], s))"

fun dispatch_all :: "epoll_event list \<Rightarrow> oneshot_server \<Rightarrow> cpp_error + sys_call list \<times> oneshot_server" where
  "dispatch_all [] s = Inr ([], s)"
| "dispatch_all (ev # evs) s =
     (case dispatch ev s of
        Inl e \<Rightarrow> Inl e
      | Inr (calls, s) \<Rightarrow>
          (case dispatch_all evs s of Inl e \<Rightarrow> Inl e | Inr (calls', s) \<Rightarrow> Inr (calls @ calls', s)))"

text \<open>
  One return of \<open>epoll_wait\<close>: \<open>None\<close> is an error, which leaves the loop and closes the listening socket; otherwise the kernel has
  disarmed the one-shot entries it reports, and the batch is dispatched in order.
\<close>

definition epoll_round ::
  "epoll_event list option \<Rightarrow> oneshot_server \<Rightarrow> cpp_error + sys_call list \<times> oneshot_server option" where
  "epoll_round batch s =
     (case batch of
        None \<Rightarrow> Inr ([Close (serv_sock s)], None)
      | Some evs \<Rightarrow>
          (case dispatch_all evs (s\<lparr>watched := fold (\<lambda>ev. reported (ev_fd ev)) evs (watched s)\<rparr>) of
             Inl e \<Rightarrow> Inl e
           | Inr (calls, s) \<Rightarrow> Inr (calls, Some s)))"

text \<open>A thread reads its descriptor when it starts; then it runs its loop, and after the loop it ends.\<close>

definition thread_start :: "nat \<Rightarrow> oneshot_server \<Rightarrow> oneshot_server" where
  "thread_start j s =
     (if j < length (threads s) \<and> threads s ! j = Starting then s\<lparr>threads := (threads s)[j := Serving (slot s)]\<rparr> else s)"

definition thread_run :: "nat \<Rightarrow> recv_result list \<Rightarrow> oneshot_server \<Rightarrow> string list \<times> oneshot_server" where
  "thread_run j rs s =
     (if j < length (threads s) then
        (case threads s ! j of
           Serving f \<Rightarrow>
             (case worker f rs (watched s) of
                (out, Some e, w) \<Rightarrow> (out, s\<lparr>watched := w, threads := (threads s)[j := Leaving]\<rparr>)
              | (out, None, w) \<Rightarrow> (out, s))
         | _ \<Rightarrow> ([], s))
      else ([], s))"

definition thread_end :: "nat \<Rightarrow> oneshot_server \<Rightarrow> oneshot_server" where
  "thread_end j s =
     (if j < length (threads s) \<and> threads s ! j = Leaving then s\<lparr>threads := (threads s)[j := Ended]\<rparr> else s)"

text \<open>The set-up of \<open>main\<close>: the listening socket is watched without the one-shot bit.\<close>

definition oneshot_setup ::
  "server_env \<Rightarrow> int \<Rightarrow> int \<times> int \<Rightarrow> int \<Rightarrow> string list \<Rightarrow> sys_call list \<times> (cpp_error + oneshot_server)" where
  "oneshot_setup env epollfd fcntl junk args =
     (case open_server env args of
        (calls, Inl e) \<Rightarrow> (calls, Inl e)
      | (calls, Inr s) \<Rightarrow>
          if epollfd = -1 then (calls, Inl AssertionFailed)
          else case addfd fcntl s False (\<lambda>_. None) of
                 (calls', w) \<Rightarrow> (calls @ calls', Inr \<lparr>serv_sock = s, watched = w, slot = junk, threads = []\<rparr>))"

section \<open>Arming\<close>

lemma armed_bits:
  "(EPOLLIN OR EPOLLET) AND EPOLLIN \<noteq> 0" "(EPOLLIN OR EPOLLET OR EPOLLONESHOT) AND EPOLLIN \<noteq> 0"
  "(EPOLLIN OR EPOLLET OR EPOLLONESHOT) AND EPOLLONESHOT \<noteq> 0" "((EPOLLIN OR EPOLLET) OR EPOLLONESHOT) AND EPOLLONESHOT \<noteq> 0"
  "((EPOLLIN OR EPOLLET) OR EPOLLONESHOT) AND EPOLLIN \<noteq> 0"
  by (simp_all add: EPOLLIN_def EPOLLET_def EPOLLONESHOT_def)

lemma addfd_watched:
  "snd (addfd fc f True w) g = (if g = f then Some ((EPOLLIN OR EPOLLET) OR EPOLLONESHOT) else w g)"
  by (simp add: addfd_def Let_def)

lemma reported_other: "g \<noteq> f \<Longrightarrow> reported f w g = w g"
  by (auto simp: reported_def split: option.splits)

lemma worker_loop_spec:
  "worker_loop (map Data ds @ Again # rest) buf = (fst (worker_loop (map Data ds) buf), Some Read_Later)
   \<and> length (fst (worker_loop (map Data ds) buf)) = length ds"
  by (induction ds arbitrary: buf) (auto simp: Let_def case_prod_beta)

text \<open>A worker touches its own descriptor only, and leaves it as it was, unwatched, or armed for one event.\<close>

lemma worker_watched:
  assumes "worker f rs w = (out, e, w')"
  shows "g \<noteq> f \<Longrightarrow> w' g = w g" and "w' f \<in> {w f, None, Some (EPOLLIN OR EPOLLET OR EPOLLONESHOT)}"
  using assms
  by (auto simp: worker_def reset_oneshot_def split: prod.splits option.splits worker_end.splits if_splits)

section \<open>Prompt scheduling\<close>

text \<open>
  The server together with the events of the current batch that are still to be dispatched. \<open>epoll_wait\<close> returns a batch, whose events are
  dispatched one by one; between any two of these steps threads start, work and end in any order. The schedules are those in which no event is
  handed to a new thread while an earlier thread has yet to read the variable. The kernel reports each descriptor once per batch and
  armed descriptors only, and \<open>accept\<close> returns a descriptor that is not in use.
\<close>

type_synonym oneshot_state = "oneshot_server \<times> epoll_event list"

definition batch_ok :: "epoll_event list \<Rightarrow> oneshot_server \<Rightarrow> bool" where
  "batch_ok evs s \<longleftrightarrow> distinct (map ev_fd evs) \<and> (\<forall>ev \<in> set evs. ev_fd ev = serv_sock s \<or> armed (ev_fd ev) (watched s))"

definition event_ok :: "epoll_event \<Rightarrow> oneshot_server \<Rightarrow> bool" where
  "event_ok ev s \<longleftrightarrow>
     (if ev_fd ev = serv_sock s then ev_accept ev \<noteq> serv_sock s \<and> watched s (ev_accept ev) = None
      else ev_in ev \<longrightarrow> Starting \<notin> set (threads s))"

inductive prompt :: "oneshot_state \<Rightarrow> oneshot_state \<Rightarrow> bool" for s0 where
  start: "prompt s0 s0"
| wait: "prompt s0 (s, []) \<Longrightarrow> batch_ok evs s \<Longrightarrow> prompt s0 (s\<lparr>watched := fold (\<lambda>ev. reported (ev_fd ev)) evs (watched s)\<rparr>, evs)"
| dispatch: "prompt s0 (s, ev # evs) \<Longrightarrow> event_ok ev s \<Longrightarrow> dispatch ev s = Inr (calls, s') \<Longrightarrow> prompt s0 (s', evs)"
| begins: "prompt s0 (s, evs) \<Longrightarrow> prompt s0 (thread_start j s, evs)"
| work: "prompt s0 (s, evs) \<Longrightarrow> prompt s0 (snd (thread_run j rs s), evs)"
| ends: "prompt s0 (s, evs) \<Longrightarrow> prompt s0 (thread_end j s, evs)"

text \<open>
  Who has a claim on a client: the threads that serve it, the thread that will read its descriptor, the event of it in the
  batch. There is at most one claim, and while there is one the client is watched but disarmed.
\<close>

definition claims :: "oneshot_server \<Rightarrow> epoll_event list \<Rightarrow> int \<Rightarrow> nat" where
  "claims s evs f = count_list (threads s) (Serving f) + (if slot s = f then count_list (threads s) Starting else 0)
     + count_list (map ev_fd evs) f"

definition mask_ok :: "32 word option \<Rightarrow> nat \<Rightarrow> bool" where
  "mask_ok m n \<longleftrightarrow> (\<forall>v. m = Some v \<longrightarrow> v = 0 \<or> v AND EPOLLONESHOT \<noteq> 0) \<and> n \<le> 1
     \<and> (n = 1 \<longrightarrow> (\<exists>v. m = Some v \<and> v AND EPOLLIN = 0))"

definition exclusive :: "oneshot_server \<Rightarrow> epoll_event list \<Rightarrow> bool" where
  "exclusive s evs \<longleftrightarrow> count_list (threads s) Starting \<le> 1 \<and> (Starting \<in> set (threads s) \<longrightarrow> slot s \<noteq> serv_sock s)
     \<and> Serving (serv_sock s) \<notin> set (threads s) \<and> (\<forall>f. f \<noteq> serv_sock s \<longrightarrow> mask_ok (watched s f) (claims s evs f))"

lemma exclusiveI:
  assumes "count_list (threads s) Starting \<le> 1" "Starting \<in> set (threads s) \<Longrightarrow> slot s \<noteq> serv_sock s" "Serving (serv_sock s) \<notin> set (threads s)"
    and "\<And>f. f \<noteq> serv_sock s \<Longrightarrow> mask_ok (watched s f) (claims s evs f)"
  shows "exclusive s evs"
  using assms by (simp add: exclusive_def)

lemma exclusiveD:
  assumes "exclusive s evs"
  shows "count_list (threads s) Starting \<le> 1" "Starting \<in> set (threads s) \<Longrightarrow> slot s \<noteq> serv_sock s" "Serving (serv_sock s) \<notin> set (threads s)"
    and "f \<noteq> serv_sock s \<Longrightarrow> mask_ok (watched s f) (claims s evs f)"
  using assms by (simp_all add: exclusive_def)

lemma mask_ok_mono: "mask_ok m n \<Longrightarrow> k \<le> n \<Longrightarrow> mask_ok m k"
  by (auto simp: mask_ok_def)

lemma count_list_update:
  "j < length xs \<Longrightarrow> count_list (xs[j := y]) x + (if xs ! j = x then 1 else 0) = count_list xs x + (if y = x then 1 else 0)"
proof (induction xs arbitrary: j)
  case (Cons a xs)
  then show ?case by (cases j) force+
qed simp

lemma distinct_count_list: "distinct xs \<Longrightarrow> x \<in> set xs \<Longrightarrow> count_list xs x = 1"
  by (induction xs) (auto simp: count_list_0_iff)

lemma fold_reported:
  "distinct (map ev_fd evs) \<Longrightarrow>
   fold (\<lambda>ev. reported (ev_fd ev)) evs w f = (if f \<in> ev_fd ` set evs then reported f w f else w f)"
proof (induction evs arbitrary: w)
  case (Cons ev evs)
  have "reported f (reported (ev_fd ev) w) f = reported f w f" if "f \<noteq> ev_fd ev"
    using that by (simp add: reported_def [of f] reported_other split: option.splits)
  moreover have "f \<noteq> ev_fd ev" if "f \<in> ev_fd ` set evs" using that Cons.prems by (metis distinct.simps(2) list.set_map list.simps(9))
  ultimately show ?case using Cons by (cases "f = ev_fd ev") (auto simp: reported_other)
qed simp

lemma exclusive_wait:
  assumes ex: "exclusive s []" and ok: "batch_ok evs s"
  shows "exclusive (s\<lparr>watched := fold (\<lambda>ev. reported (ev_fd ev)) evs (watched s)\<rparr>) evs" (is "exclusive ?s evs")
proof (rule exclusiveI)
  note D = exclusiveD [OF ex]
  have dist: "distinct (map ev_fd evs)" using ok by (simp add: batch_ok_def)
  fix f assume "f \<noteq> serv_sock ?s"
  then have f: "f \<noteq> serv_sock s" by simp
  note m = D(4) [OF f]
  have w: "watched ?s f = (if f \<in> ev_fd ` set evs then reported f (watched s) f else watched s f)"
    using fold_reported [OF dist] by simp
  show "mask_ok (watched ?s f) (claims ?s evs f)"
  proof (cases "f \<in> ev_fd ` set evs")
    case True
    then have "armed f (watched s)" using ok f by (auto simp: batch_ok_def)
    then obtain v where v: "watched s f = Some v" "v AND EPOLLIN \<noteq> 0" by (auto simp: armed_def split: option.splits)
    then have "v \<noteq> 0" by auto
    then have "claims s [] f = 0" "v AND EPOLLONESHOT \<noteq> 0" using m v by (auto simp: mask_ok_def le_Suc_eq)
    moreover have "count_list (map ev_fd evs) f = 1" using dist True by (simp add: distinct_count_list)
    moreover have "claims ?s evs f = claims s [] f + count_list (map ev_fd evs) f" by (simp add: claims_def)
    ultimately show ?thesis using w True v by (simp add: mask_ok_def reported_def)
  next
    case False
    then have "count_list (map ev_fd evs) f = 0" by (auto simp: count_list_0_iff)
    then have "claims ?s evs f = claims s [] f" by (simp add: claims_def)
    then show ?thesis using m w False by simp
  qed
qed (use exclusiveD(1-3) [OF ex] in simp_all)

lemma exclusive_dispatch:
  assumes ex: "exclusive s (ev # evs)" and ok: "event_ok ev s" and step: "dispatch ev s = Inr (calls, s')"
  shows "exclusive s' evs"
proof -
  note D = exclusiveD [OF ex]
  have less: "claims s evs f \<le> claims s (ev # evs) f" for f by (simp add: claims_def)
  consider "ev_fd ev = serv_sock s" | "ev_fd ev \<noteq> serv_sock s" "ev_in ev" | "ev_fd ev \<noteq> serv_sock s" "\<not> ev_in ev" by blast
  then show ?thesis
  proof cases
    case 1
    then have s': "s' = s\<lparr>watched := snd (addfd (ev_fcntl ev) (ev_accept ev) True (watched s))\<rparr>"
      and new: "ev_accept ev \<noteq> serv_sock s" "watched s (ev_accept ev) = None"
      using ok step by (auto simp: dispatch_def event_ok_def case_prod_beta split: if_splits)
    show ?thesis
    proof (rule exclusiveI)
      fix f assume "f \<noteq> serv_sock s'"
      then have "mask_ok (watched s f) (claims s evs f)" using mask_ok_mono [OF D(4) less] s' by simp
      then show "mask_ok (watched s' f) (claims s' evs f)"
        using s' new armed_bits(4) by (cases "f = ev_accept ev") (auto simp: claims_def mask_ok_def addfd_watched)
    qed (use D(1-3) s' in simp_all)
  next
    case 2
    then have s': "s' = s\<lparr>slot := ev_fd ev, threads := threads s @ [Starting]\<rparr>" and none: "Starting \<notin> set (threads s)"
      using ok step by (auto simp: dispatch_def event_ok_def)
    have "count_list (threads s) Starting = 0" using none by (simp add: count_list_0_iff)
    moreover from this have "claims s' evs f = claims s (ev # evs) f" for f using s' by (simp add: claims_def)
    ultimately show ?thesis using D(3,4) s' 2 by (intro exclusiveI) simp_all
  next
    case 3
    then have "s' = s" using step by (simp add: dispatch_def)
    then show ?thesis using D(1-3) mask_ok_mono [OF D(4) less] by (intro exclusiveI) simp_all
  qed
qed

text \<open>A thread that changes from one state to another.\<close>

lemma exclusive_begins:
  assumes ex: "exclusive s evs"
  shows "exclusive (thread_start j s) evs"
proof (cases "j < length (threads s) \<and> threads s ! j = Starting")
  case True
  note D = exclusiveD [OF ex] and upd = count_list_update [of j "threads s" "Serving (slot s)"]
  have j: "j < length (threads s)" "threads s ! j = Starting" using True by simp_all
  then have mem: "Starting \<in> set (threads s)" by (metis nth_mem)
  then have one: "count_list (threads s) Starting = 1" using D(1) count_list_0_iff [of "threads s" Starting] by linarith
  have s': "thread_start j s = s\<lparr>threads := (threads s)[j := Serving (slot s)]\<rparr>" using True by (simp add: thread_start_def)
  have gone: "count_list ((threads s)[j := Serving (slot s)]) Starting = 0" using upd [OF j(1), of Starting] j(2) one by simp
  have "claims (thread_start j s) evs f = claims s evs f" for f
    using upd [OF j(1), of "Serving f"] j(2) one gone unfolding s' by (auto simp: claims_def)
  moreover have "Serving (serv_sock s) \<notin> set ((threads s)[j := Serving (slot s)])"
    using D(2) [OF mem] D(3) set_update_subset_insert [of "threads s" j "Serving (slot s)"] by auto
  moreover have "Starting \<notin> set ((threads s)[j := Serving (slot s)])" using gone by (simp add: count_list_0_iff)
  ultimately show ?thesis using D(4) gone by (intro exclusiveI) (simp_all add: s')
next
  case False
  then show ?thesis using ex unfolding thread_start_def by (simp only: if_False)
qed

lemma exclusive_ends:
  assumes ex: "exclusive s evs"
  shows "exclusive (thread_end j s) evs"
proof (cases "j < length (threads s) \<and> threads s ! j = Leaving")
  case True
  note D = exclusiveD [OF ex] and upd = count_list_update [of j "threads s" Ended]
  have s': "thread_end j s = s\<lparr>threads := (threads s)[j := Ended]\<rparr>" using True by (simp add: thread_end_def)
  have same: "count_list ((threads s)[j := Ended]) x = count_list (threads s) x" if "x \<noteq> Leaving" "x \<noteq> Ended" for x
    using upd [of x] True that by auto
  have sub: "set ((threads s)[j := Ended]) \<subseteq> insert Ended (set (threads s))" by (rule set_update_subset_insert)
  have "claims (thread_end j s) evs f = claims s evs f" for f using same by (simp add: claims_def s')
  moreover have "Serving (serv_sock s) \<notin> set ((threads s)[j := Ended])" using sub D(3) by auto
  moreover have "slot s \<noteq> serv_sock s" if "Starting \<in> set ((threads s)[j := Ended])" using sub that D(2) by auto
  ultimately show ?thesis using D(1,4) same [of Starting] by (intro exclusiveI) (simp_all add: s')
next
  case False
  then show ?thesis using ex unfolding thread_end_def by (simp only: if_False)
qed

lemma exclusive_work:
  assumes ex: "exclusive s evs"
  shows "exclusive (snd (thread_run j rs s)) evs"
proof (cases "\<exists>f out e w. j < length (threads s) \<and> threads s ! j = Serving f \<and> worker f rs (watched s) = (out, Some e, w)")
  case True
  then obtain f out e w where j: "j < length (threads s)" "threads s ! j = Serving f" "worker f rs (watched s) = (out, Some e, w)"
    by blast
  note D = exclusiveD [OF ex] and upd = count_list_update [of j "threads s" Leaving]
  have s': "snd (thread_run j rs s) = s\<lparr>watched := w, threads := (threads s)[j := Leaving]\<rparr>" (is "_ = ?s") using j by (simp add: thread_run_def)
  have mem: "Serving f \<in> set (threads s)" using j(1,2) by (metis nth_mem)
  then have f: "f \<noteq> serv_sock s" using D(3) by auto
  have sub: "set ((threads s)[j := Leaving]) \<subseteq> insert Leaving (set (threads s))" by (rule set_update_subset_insert)
  have start: "count_list (threads ?s) Starting = count_list (threads s) Starting" using upd [of Starting] j by simp
  have "mask_ok (watched ?s g) (claims ?s evs g)" if "g \<noteq> serv_sock s" for g
  proof (cases "g = f")
    case False
    then have "claims ?s evs g = claims s evs g" using upd [of "Serving g"] j start by (simp add: claims_def)
    then show ?thesis using D(4) [OF that] worker_watched(1) [OF j(3) False] by simp
  next
    case True
    have "claims ?s evs f + 1 = claims s evs f" using upd [of "Serving f"] j start by (simp add: claims_def)
    then have "claims ?s evs f = 0" using D(4) [OF f] by (simp add: mask_ok_def)
    moreover have "v = 0 \<or> v AND EPOLLONESHOT \<noteq> 0" if "w f = Some v" for v
    proof -
      have "\<forall>v. watched s f = Some v \<longrightarrow> v = 0 \<or> v AND EPOLLONESHOT \<noteq> 0" using D(4) [OF f] by (simp add: mask_ok_def)
      moreover have "watched s f = Some v \<or> v = EPOLLIN OR EPOLLET OR EPOLLONESHOT" using that worker_watched(2) [OF j(3)] by auto
      ultimately show ?thesis using armed_bits(3) by blast
    qed
    ultimately show ?thesis using True by (simp add: mask_ok_def)
  qed
  moreover have "Serving (serv_sock s) \<notin> set ((threads s)[j := Leaving])" using sub D(3) by auto
  moreover have "slot s \<noteq> serv_sock s" if "Starting \<in> set ((threads s)[j := Leaving])" using sub that D(2) by auto
  ultimately show ?thesis unfolding s' using D(1) start by (intro exclusiveI) simp_all
next
  case False
  then have "snd (thread_run j rs s) = s"
    by (auto simp: thread_run_def split: thread.splits prod.splits option.splits)
  then show ?thesis using ex by simp
qed

lemma prompt_exclusive: "prompt s0 t \<Longrightarrow> exclusive (fst s0) (snd s0) \<Longrightarrow> exclusive (fst t) (snd t)"
proof (induction rule: prompt.induct)
  case (wait s evs)
  then show ?case using exclusive_wait by simp
next
  case (dispatch s ev evs calls s')
  then show ?case using exclusive_dispatch by simp
qed (simp_all add: exclusive_begins exclusive_work exclusive_ends)

lemma oneshot_setup_exclusive:
  assumes "oneshot_setup env epollfd fc junk args = (calls, Inr s0)"
  shows "exclusive s0 []"
  using assms by (auto simp: oneshot_setup_def exclusive_def claims_def mask_ok_def addfd_def Let_def
      split: prod.splits sum.splits if_splits)

section \<open>Properties\<close>

text \<open>
  C9. One thread per client, if threads start promptly. From the set-up on, with batches of any number of events dispatched one at
  a time and threads that start, work and end between any two of these steps, in every schedule in which no event is handed to a new thread while an
  earlier one has yet to read its argument: while a thread serves a client, the client is disarmed, so that no event of it can
  be reported, no event of it is left in the batch, no thread is about to start on it, and no other thread serves it. (A thread that has armed its client again or closed it does
  nothing but print its last line.)
\<close>

theorem one_thread_per_client:
  assumes "oneshot_setup env epollfd fc junk args = (calls, Inr s0)" "prompt (s0, []) (s, evs)" "i \<noteq> j"
    and "i < length (threads s)" "threads s ! i = Serving f"
  shows "\<not> armed f (watched s) \<and> f \<notin> ev_fd ` set evs \<and> \<not> (Starting \<in> set (threads s) \<and> slot s = f)
    \<and> \<not> (j < length (threads s) \<and> threads s ! j = Serving f)"
proof -
  have ex: "exclusive s evs" using prompt_exclusive [OF assms(2)] oneshot_setup_exclusive [OF assms(1)] by simp
  have mem: "Serving f \<in> set (threads s)" using assms(4,5) by (metis nth_mem)
  then have "f \<noteq> serv_sock s" using exclusiveD(3) [OF ex] by auto
  from exclusiveD(4) [OF ex this] have m: "mask_ok (watched s f) (claims s evs f)" .
  have pos: "count_list (threads s) (Serving f) \<noteq> 0" using mem by (simp add: count_list_0_iff)
  then have one: "claims s evs f = 1" "\<not> armed f (watched s)"
    using m by (auto simp: mask_ok_def armed_def claims_def le_Suc_eq)
  then have only: "count_list (threads s) (Serving f) = 1" "count_list (map ev_fd evs) f = 0"
    "slot s = f \<longrightarrow> count_list (threads s) Starting = 0" using pos by (auto simp: claims_def)
  have False if "j < length (threads s)" "threads s ! j = Serving f"
  proof -
    have "count_list ((threads s)[i := Ended]) (Serving f) = 0"
      using count_list_update [OF assms(4), of Ended "Serving f"] assms(5) only(1) by simp
    moreover have "(threads s)[i := Ended] ! j = Serving f" "j < length ((threads s)[i := Ended])" using that assms(3) by simp_all
    ultimately show False by (metis count_list_0_iff nth_mem)
  qed
  then show ?thesis using one(2) only(2,3) by (auto simp: count_list_0_iff)
qed

definition demo_event :: "int \<Rightarrow> int \<Rightarrow> epoll_event" where
  "demo_event f c = \<lparr>ev_fd = f, ev_in = True, ev_accept = c, ev_fcntl = (0, 0)\<rparr>"

definition demo_server :: "int set \<Rightarrow> oneshot_server" where
  "demo_server clients =
     \<lparr>serv_sock = 3, watched = (\<lambda>f. if f = 3 then Some (EPOLLIN OR EPOLLET)
        else if f \<in> clients then Some ((EPOLLIN OR EPOLLET) OR EPOLLONESHOT) else None), slot = 0, threads = []\<rparr>"

lemma oneshot_demo_setup:
  "\<exists>calls. oneshot_setup \<lparr>sv_socket = 3, sv_setsockopt = 0, sv_bind = 0, sv_listen = 0\<rparr> 7 (0, 0) 0 [''80'']
     = (calls, Inr (demo_server {}))"
proof -
  have "atoi ''80'' = Some 80" by code_simp
  then show ?thesis by (simp add: oneshot_setup_def open_server_def addfd_def demo_server_def Let_def fun_eq_iff)
qed

text \<open>A connection, then both clients in one batch: the first thread starts before the second event is dispatched.\<close>

theorem one_thread_per_client_witness:
  "\<exists>s. prompt (demo_server {}, []) (s, []) \<and> threads s = [Serving 5, Serving 6] \<and> \<not> armed 5 (watched s) \<and> \<not> armed 6 (watched s)"
proof -
  obtain calls where su: "oneshot_setup \<lparr>sv_socket = 3, sv_setsockopt = 0, sv_bind = 0, sv_listen = 0\<rparr> 7 (0, 0) 0 [''80'']
     = (calls, Inr (demo_server {}))" using oneshot_demo_setup by blast
  have listener: "(EPOLLIN OR EPOLLET) AND EPOLLONESHOT = 0" by (simp add: EPOLLIN_def EPOLLET_def EPOLLONESHOT_def)
  have connect: "prompt (demo_server {}, []) (demo_server (insert c cs), [])"
    if "prompt (demo_server {}, []) (demo_server cs, [])" "c \<notin> cs" "c \<noteq> 3" "c \<noteq> -1" for c cs
  proof -
    have "fold (\<lambda>ev. reported (ev_fd ev)) [demo_event 3 c] (watched (demo_server cs)) = watched (demo_server cs)"
      using listener by (simp add: demo_event_def demo_server_def reported_def)
    then have "prompt (demo_server {}, []) (demo_server cs, [demo_event 3 c])"
      using prompt.wait [OF that(1), of "[demo_event 3 c]"] by (simp add: batch_ok_def demo_event_def demo_server_def)
    then show ?thesis
      by (rule prompt.dispatch) (use that(2-4) in \<open>auto simp: event_ok_def dispatch_def demo_event_def demo_server_def addfd_def Let_def\<close>)
  qed
  have both: "prompt (demo_server {}, []) (demo_server {6, 5}, [])" using connect [OF connect [OF prompt.start]] by simp
  let ?evs = "[demo_event 5 0, demo_event 6 0]"
  let ?w = "fold (\<lambda>ev. reported (ev_fd ev)) ?evs (watched (demo_server {6, 5}))"
  let ?s = "(demo_server {6, 5})\<lparr>watched := ?w\<rparr>"
  have "batch_ok ?evs (demo_server {6, 5})" using armed_bits(5) by (simp add: batch_ok_def demo_event_def demo_server_def armed_def)
  note 1 = prompt.wait [OF both this]
  have 2: "prompt (demo_server {}, []) (?s\<lparr>slot := 5, threads := [Starting]\<rparr>, [demo_event 6 0])"
    by (rule prompt.dispatch [OF 1]) (simp_all add: event_ok_def dispatch_def demo_event_def demo_server_def)
  have 3: "prompt (demo_server {}, []) (?s\<lparr>slot := 5, threads := [Serving 5]\<rparr>, [demo_event 6 0])"
    using prompt.begins [OF 2, of 0] by (simp add: thread_start_def)
  have 4: "prompt (demo_server {}, []) (?s\<lparr>slot := 6, threads := [Serving 5, Starting]\<rparr>, [])"
    by (rule prompt.dispatch [OF 3]) (simp_all add: event_ok_def dispatch_def demo_event_def demo_server_def)
  have 5: "prompt (demo_server {}, []) (?s\<lparr>slot := 6, threads := [Serving 5, Serving 6]\<rparr>, [])" (is "prompt _ (?t, [])")
    using prompt.begins [OF 4, of 1] by (simp add: thread_start_def)
  have "\<not> armed 5 (watched ?t)" "\<not> armed 6 (watched ?t)"
    using one_thread_per_client [OF su 5, of 0 1 5] one_thread_per_client [OF su 5, of 1 0 6] by simp_all
  then show ?thesis using 5 by (intro exI [of _ ?t]) simp
qed

text \<open>
  C26. The one-shot protocol. A client registered on arrival is armed; once reported it is disarmed, so that no second thread is
  started for it; and a worker that read until it would block arms it again, having printed one message per \<open>recv\<close>.
\<close>

theorem oneshot_rearms:
  assumes "w1 = snd (addfd fc f True w0)" "w2 = reported f w1" "worker f (map Data ds @ Again # rest) w2 = (out, e, w3)"
  shows "armed f w1 \<and> \<not> armed f w2 \<and> armed f w3 \<and> e = Some Read_Later \<and> length out = length ds
    \<and> (\<forall>g. g \<noteq> f \<longrightarrow> w3 g = w0 g)"
proof -
  have w1: "w1 f = Some ((EPOLLIN OR EPOLLET) OR EPOLLONESHOT)" using assms(1) by (simp add: addfd_watched)
  then have w2: "w2 = w1(f \<mapsto> 0)" using assms(2) armed_bits(4) by (simp add: reported_def)
  have "e = Some Read_Later" "w3 = reset_oneshot f w2" "length out = length ds"
    using assms(3) worker_loop_spec [of ds rest "replicate BUFFER_SIZE NUL"] by (auto simp: worker_def)
  then show ?thesis
    using w1 w2 armed_bits assms(1) by (auto simp: armed_def reset_oneshot_def addfd_watched)
qed

theorem oneshot_rearms_witness:
  "armed 5 (snd (snd (worker 5 [Data ''hi'', Again] (reported 5 (snd (addfd (0, 0) 5 True (\<lambda>_. None)))))))"
proof -
  obtain out e w where w: "worker 5 [Data ''hi'', Again] (reported 5 (snd (addfd (0, 0) 5 True (\<lambda>_. None)))) = (out, e, w)"
    by (cases "worker 5 [Data ''hi'', Again] (reported 5 (snd (addfd (0, 0) 5 True (\<lambda>_. None))))")
  have "armed 5 w"
    using oneshot_rearms [OF refl refl, of 5 "[''hi'']" "[]" "(0, 0)" "\<lambda>_. None" out e w] w by simp
  then show ?thesis using w by simp
qed

text \<open>
  A read error keeps the worker busy for ever. On any error other than \<open>EAGAIN\<close> the loop neither ends nor arms the descriptor
  again: however often \<open>recv\<close> fails, the thread is still running, has printed nothing and its descriptor stays disarmed.
\<close>

theorem worker_spins_on_error:
  "worker f (replicate n Failed) ep = ([], None, ep)"
proof -
  have "worker_loop (replicate n Failed) buf = ([], None)" for buf by (induction n) auto
  then show ?thesis by (simp add: worker_def)
qed

text \<open>
  What is printed can contain bytes of an older message: the buffer is not cleared between
  two reads, so a message is followed by the tail of a longer one read before it.
\<close>

theorem worker_prints_stale_bytes:
  assumes "length new < length old" "length old < BUFFER_SIZE" "NUL \<notin> set old" "NUL \<notin> set new"
  shows "fst (worker_loop [Data old, Data new, Again] (replicate BUFFER_SIZE NUL)) = [old, new @ drop (length new) old]"
proof -
  obtain k where k: "BUFFER_SIZE - length old = Suc k" using assms(2) by (cases "BUFFER_SIZE - length old") auto
  have "takeWhile (\<lambda>x. x \<noteq> NUL) (old @ replicate (Suc k) NUL) = old"
    using assms(3) by (subst takeWhile_append2) auto
  moreover have "NUL \<notin> set (new @ drop (length new) old)" using assms(3,4) by (auto dest: in_set_dropD)
  then have "takeWhile (\<lambda>x. x \<noteq> NUL) ((new @ drop (length new) old) @ replicate (Suc k) NUL) = new @ drop (length new) old"
    by (subst takeWhile_append2) auto
  ultimately show ?thesis using assms(1,2) k by (simp add: Let_def del: replicate_Suc)
qed

theorem worker_prints_stale_bytes_witness:
  "fst (worker_loop [Data ''hello'', Data ''bye'', Again] (replicate BUFFER_SIZE NUL)) = [''hello'', ''byelo'']"
  using worker_prints_stale_bytes [of "''bye''" "''hello''"] by (simp add: BUFFER_SIZE_def)

text \<open>
  C38. Two threads can serve the same client and none the other. When two clients are readable in one batch and no thread starts before the
  batch has been dispatched, both threads read the second descriptor from the shared variable, and the first client is
  left disarmed with no thread to arm it again.
\<close>

theorem slot_shared:
  assumes "ev_in ev1" "ev_in ev2" "ev_fd ev1 \<noteq> ev_fd ev2" "ev_fd ev1 \<noteq> serv_sock s" "ev_fd ev2 \<noteq> serv_sock s"
    and "watched s (ev_fd ev1) = Some ((EPOLLIN OR EPOLLET) OR EPOLLONESHOT)"
  shows "\<exists>s'. epoll_round (Some [ev1, ev2]) s = Inr ([], Some s')
    \<and> threads (thread_start (Suc (length (threads s))) (thread_start (length (threads s)) s')) =
        threads s @ [Serving (ev_fd ev2), Serving (ev_fd ev2)]
    \<and> \<not> armed (ev_fd ev1) (watched s')"
proof -
  define w where "w = reported (ev_fd ev2) (reported (ev_fd ev1) (watched s))"
  have "w (ev_fd ev1) = Some 0" using assms(3,6) armed_bits(4) by (simp add: w_def reported_other) (simp add: reported_def)
  moreover have "epoll_round (Some [ev1, ev2]) s =
      Inr ([], Some (s\<lparr>watched := w, slot := ev_fd ev2, threads := threads s @ [Starting, Starting]\<rparr>))"
    using assms(1,2,4,5) by (simp add: epoll_round_def dispatch_def w_def)
  ultimately show ?thesis by (simp add: thread_start_def armed_def nth_append list_update_append)
qed

theorem slot_shared_witness:
  "\<exists>s'. epoll_round (Some [demo_event 5 0, demo_event 6 0]) (demo_server {5, 6}) = Inr ([], Some s')
     \<and> threads (thread_start 1 (thread_start 0 s')) = [Serving 6, Serving 6]"
  using slot_shared [of "demo_event 5 0" "demo_event 6 0" "demo_server {5, 6}"] by (auto simp: demo_event_def demo_server_def)

end
