(* ===== verification/Idle_Server.thy ===== *)
theory Idle_Server
  imports Sockets
begin

text \<open>
  The server that closes idle connections (\<open>nonactive_conn.cpp\<close>). The timer list, the client data and the buffer
  size come from \<open>lst_timer.h\<close>, which is not in the repository: the operations of the list are an argument, with the
  laws of a list of timers as a named hypothesis, and a timer is identified by the descriptor of its client. The results of the
  system calls, the clock included, are arguments.

  The history variable \<open>last_active\<close> records when a connection was accepted or last sent something.
\<close>

definition FD_LIMIT :: int where "FD_LIMIT = 65535"
definition TIMESLOT :: int where "TIMESLOT = 5"
definition SIGALRM :: nat where "SIGALRM = 14"
definition SIGTERM :: nat where "SIGTERM = 15"

section \<open>The timer list\<close>

text \<open>
  Adding a timer for a client that has none, removing or adjusting the timer of a client that has one; \<open>tick\<close> runs the
  callbacks of the timers that are due, in some order, and removes them.
\<close>

record 'l timer_ops =
  add_timer :: "int \<Rightarrow> int \<Rightarrow> 'l \<Rightarrow> 'l"
  del_timer :: "int \<Rightarrow> 'l \<Rightarrow> 'l"
  adjust_timer :: "int \<Rightarrow> int \<Rightarrow> 'l \<Rightarrow> 'l"
  tick :: "int \<Rightarrow> 'l \<Rightarrow> int list \<times> 'l"

definition timer_laws :: "'l timer_ops \<Rightarrow> ('l \<Rightarrow> int \<Rightarrow> int option) \<Rightarrow> bool" where
  "timer_laws T expires \<longleftrightarrow>
     (\<forall>f e l. expires l f = None \<longrightarrow> expires (add_timer T f e l) = (expires l)(f \<mapsto> e))
     \<and> (\<forall>f l. expires l f \<noteq> None \<longrightarrow> expires (del_timer T f l) = (expires l)(f := None))
     \<and> (\<forall>f e l. expires l f \<noteq> None \<longrightarrow> expires (adjust_timer T f e l) = (expires l)(f \<mapsto> e))
     \<and> (\<forall>now l. set (fst (tick T now l)) = {f. \<exists>e. expires l f = Some e \<and> e \<le> now}
          \<and> expires (snd (tick T now l)) = (\<lambda>f. case expires l f of None \<Rightarrow> None | Some e \<Rightarrow> if e \<le> now then None else Some e))"

text \<open>A plain list of timers satisfies the laws.\<close>

definition is_due :: "int \<Rightarrow> (int \<times> int) list \<Rightarrow> int \<Rightarrow> bool" where
  "is_due now l f = (case map_of l f of None \<Rightarrow> False | Some e \<Rightarrow> e \<le> now)"

definition list_timers :: "(int \<times> int) list timer_ops" where
  "list_timers = \<lparr>add_timer = (\<lambda>f e l. (f, e) # filter (\<lambda>p. fst p \<noteq> f) l), del_timer = (\<lambda>f. filter (\<lambda>p. fst p \<noteq> f)),
     adjust_timer = (\<lambda>f e l. (f, e) # filter (\<lambda>p. fst p \<noteq> f) l),
     tick = (\<lambda>now l. (filter (is_due now l) (map fst l), filter (\<lambda>p. \<not> is_due now l (fst p)) l))\<rparr>"

lemma map_of_filter_key: "map_of (filter (\<lambda>p. Q (fst p)) l) f = (if Q f then map_of l f else None)"
  by (induction l) auto

lemma list_timers_laws: "timer_laws list_timers map_of"
proof -
  have "map_of (filter (\<lambda>p. fst p \<noteq> f) l) = (map_of l)(f := None)" for f and l :: "(int \<times> int) list"
    using map_of_filter_key [of "\<lambda>g. g \<noteq> f" l] by (auto simp: fun_eq_iff)
  moreover have "f \<in> fst ` set l" if "map_of l f = Some e" for f e and l :: "(int \<times> int) list"
    using that by (metis domI dom_map_of_conv_image_fst)
  moreover have "map_of (filter (\<lambda>p. \<not> is_due now l (fst p)) l) f = (if is_due now l f then None else map_of l f)" for now l f
    using map_of_filter_key [of "\<lambda>g. \<not> is_due now l g" l f] by simp
  ultimately show ?thesis
    by (auto simp: timer_laws_def list_timers_def fun_eq_iff is_due_def split: option.splits)
qed

section \<open>The server\<close>

text \<open>\<open>sig_pipe\<close> holds the bytes sent to \<open>pipefd[1]\<close> and not yet received from \<open>pipefd[0]\<close>.\<close>

record 'l idle_server =
  serv_sock :: int
  pipefd0 :: int
  pipefd1 :: int
  epolled :: "int set"
  sig_pipe :: string
  timer_lst :: 'l
  timeout :: bool
  stop_server :: bool
  open_conns :: "int set"
  last_active :: "int \<Rightarrow> int"

datatype idle_effect = Sys sys_call | Epoll_Del int int | Sent int string | Alarm int

definition addfd :: "int \<times> int \<Rightarrow> int \<Rightarrow> 'l idle_server \<Rightarrow> idle_effect list \<times> 'l idle_server" where
  "addfd fcntl f s =
     (map Sys (fst (idle_set_nonblocking (fst fcntl) (snd fcntl) f)), s\<lparr>epolled := insert f (epolled s)\<rparr>)"

text \<open>The signal handler sends the low byte of the signal's number; the pipe does not block, so a full one loses it.\<close>

definition sig_handler :: "bool \<Rightarrow> nat \<Rightarrow> 'l idle_server \<Rightarrow> 'l idle_server" where
  "sig_handler sent sig s = (if sent then s\<lparr>sig_pipe := sig_pipe s @ [char_of sig]\<rparr> else s)"

text \<open>
  \<open>cb_func\<close> names the file-scope \<open>epollfd\<close>, which is 0 and never assigned: \<open>main\<close> has a local variable of that name. Closing the
  descriptor is what takes it out of the watched set.
\<close>

definition global_epollfd :: int where "global_epollfd = 0"

definition cb_func :: "int \<Rightarrow> 'l idle_server \<Rightarrow> idle_effect list \<times> 'l idle_server" where
  "cb_func f s =
     ([Epoll_Del global_epollfd f, Sys (Close f)],
      s\<lparr>epolled := epolled s - {f}, open_conns := open_conns s - {f}\<rparr>)"

text \<open>
  An event, with the results the system calls of its handler give: what \<open>accept\<close> and the two \<open>fcntl\<close> calls return, what
  \<open>recv\<close> returns (an error, and whether it is \<open>EAGAIN\<close>, or the bytes waiting), and the time.
\<close>

datatype read_result = Read_Error bool | Read string

record idle_event =
  ev_fd :: int
  ev_in :: bool
  ev_accept :: int
  ev_fcntl :: "int \<times> int"
  ev_recv :: read_result
  ev_time :: int

definition accept_client ::
  "'l timer_ops \<Rightarrow> idle_event \<Rightarrow> 'l idle_server \<Rightarrow> cpp_error + idle_effect list \<times> 'l idle_server" where
  "accept_client T ev s =
     (let c = ev_accept ev in
      if c = -1 then Inl (ExitCall 1)
      else if \<not> (0 \<le> c \<and> c < FD_LIMIT) then Inl UndefinedBehaviour
      else case addfd (ev_fcntl ev) c s of
        (es, s) \<Rightarrow> Inr (es, s\<lparr>timer_lst := add_timer T c (ev_time ev + 3 * TIMESLOT) (timer_lst s),
          open_conns := insert c (open_conns s), last_active := (last_active s)(c := ev_time ev)\<rparr>))"

fun read_signals :: "string \<Rightarrow> 'l idle_server \<Rightarrow> 'l idle_server" where
  "read_signals [] s = s"
| "read_signals (c # cs) s =
     read_signals cs
       (if of_char c = SIGALRM then s\<lparr>timeout := True\<rparr>
        else if of_char c = SIGTERM then s\<lparr>stop_server := True\<rparr> else s)"

text \<open>One \<open>recv\<close> of at most 1024 bytes from the pipe.\<close>

definition read_pipe :: "idle_event \<Rightarrow> 'l idle_server \<Rightarrow> 'l idle_server" where
  "read_pipe ev s =
     (case ev_recv ev of
        Read_Error again \<Rightarrow> s
      | Read _ \<Rightarrow> read_signals (take 1024 (sig_pipe s)) (s\<lparr>sig_pipe := drop 1024 (sig_pipe s)\<rparr>))"

definition close_client :: "'l timer_ops \<Rightarrow> int \<Rightarrow> 'l idle_server \<Rightarrow> idle_effect list \<times> 'l idle_server" where
  "close_client T f s = (case cb_func f s of (es, s) \<Rightarrow> (es, s\<lparr>timer_lst := del_timer T f (timer_lst s)\<rparr>))"

text \<open>The buffer is cleared and at most \<open>BUFFER_SIZE - 1\<close> bytes are read into it; all of that length is sent back.\<close>

definition read_client ::
  "'l timer_ops \<Rightarrow> nat \<Rightarrow> idle_event \<Rightarrow> 'l idle_server \<Rightarrow> cpp_error + idle_effect list \<times> 'l idle_server" where
  "read_client T buffer_size ev s =
     (let f = ev_fd ev in
      if \<not> (0 \<le> f \<and> f < FD_LIMIT) then Inl UndefinedBehaviour
      else case ev_recv ev of
             Read_Error again \<Rightarrow> if again then Inr ([], s) else Inr (close_client T f s)
           | Read bytes \<Rightarrow>
               if bytes = [] then Inr (close_client T f s)
               else (let got = take (buffer_size - 1) bytes;
                         buf = got @ replicate (buffer_size - length got) NUL in
                     Inr ([Sent f (take (buffer_size - 1) buf)],
                       s\<lparr>timer_lst := adjust_timer T f (ev_time ev + 3 * TIMESLOT) (timer_lst s),
                         last_active := (last_active s)(f := ev_time ev)\<rparr>)))"

definition handle_event ::
  "'l timer_ops \<Rightarrow> nat \<Rightarrow> idle_event \<Rightarrow> 'l idle_server \<Rightarrow> cpp_error + idle_effect list \<times> 'l idle_server" where
  "handle_event T buffer_size ev s =
     (if ev_fd ev = serv_sock s then accept_client T ev s
      else if ev_fd ev = pipefd0 s \<and> ev_in ev then Inr ([], read_pipe ev s)
      else if ev_in ev then read_client T buffer_size ev s
      else Inr ([], s))"

fun handle_events ::
  "'l timer_ops \<Rightarrow> nat \<Rightarrow> idle_event list \<Rightarrow> 'l idle_server \<Rightarrow> cpp_error + idle_effect list \<times> 'l idle_server" where
  "handle_events T n [] s = Inr ([], s)"
| "handle_events T n (ev # evs) s =
     (case handle_event T n ev s of
        Inl e \<Rightarrow> Inl e
      | Inr (es, s) \<Rightarrow>
          (case handle_events T n evs s of Inl e \<Rightarrow> Inl e | Inr (es', s) \<Rightarrow> Inr (es @ es', s)))"

text \<open>\<open>timer_handler\<close>: run what is due, then set the next alarm.\<close>

fun run_callbacks :: "int list \<Rightarrow> 'l idle_server \<Rightarrow> idle_effect list \<times> 'l idle_server" where
  "run_callbacks [] s = ([], s)"
| "run_callbacks (f # fs) s =
     (case cb_func f s of (es, s) \<Rightarrow> case run_callbacks fs s of (es', s) \<Rightarrow> (es @ es', s))"

definition timer_handler :: "'l timer_ops \<Rightarrow> int \<Rightarrow> 'l idle_server \<Rightarrow> idle_effect list \<times> 'l idle_server" where
  "timer_handler T now s =
     (case tick T now (timer_lst s) of
        (due, l) \<Rightarrow> (case run_callbacks due (s\<lparr>timer_lst := l\<rparr>) of (es, s) \<Rightarrow> (es @ [Alarm TIMESLOT], s)))"

text \<open>One pass of the main loop after \<open>epoll_wait\<close>: a batch of events, then the timers if an alarm came in.\<close>

definition idle_round ::
  "'l timer_ops \<Rightarrow> nat \<Rightarrow> int \<Rightarrow> idle_event list \<Rightarrow> 'l idle_server \<Rightarrow> cpp_error + idle_effect list \<times> 'l idle_server" where
  "idle_round T n now evs s =
     (case handle_events T n evs s of
        Inl e \<Rightarrow> Inl e
      | Inr (es, s) \<Rightarrow>
          if timeout s
          then (case timer_handler T now s of (es', s) \<Rightarrow> Inr (es @ es', s\<lparr>timeout := False\<rparr>))
          else Inr (es, s))"

text \<open>
  The loop over the results of \<open>epoll_wait\<close>. An interrupted wait is a batch of no events; any other failure ends the loop, as does
  \<open>stop_server\<close>. When no more results come the server stays in \<open>epoll_wait\<close>.
\<close>

datatype epoll_result = Epoll_Failed | Epoll_Interrupted | Epoll_Events "idle_event list"

datatype 'l idle_end = Waiting "'l idle_server" | Left cpp_error | Returned int

definition shut_down :: "'l idle_server \<Rightarrow> idle_effect list" where
  "shut_down s = [Sys (Close (serv_sock s)), Sys (Close (pipefd1 s)), Sys (Close (pipefd0 s))]"

fun idle_loop ::
  "'l timer_ops \<Rightarrow> nat \<Rightarrow> (epoll_result \<times> int) list \<Rightarrow> 'l idle_server \<Rightarrow> idle_effect list \<times> 'l idle_end" where
  "idle_loop T n [] s = (if stop_server s then (shut_down s, Returned 0) else ([], Waiting s))"
| "idle_loop T n ((res, now) # rest) s =
     (if stop_server s then (shut_down s, Returned 0)
      else if res = Epoll_Failed then (shut_down s, Returned 0)
      else case idle_round T n now (case res of Epoll_Events evs \<Rightarrow> evs | _ \<Rightarrow> []) s of
             Inl e \<Rightarrow> ([], Left e)
           | Inr (es, s) \<Rightarrow> (case idle_loop T n rest s of (es', r) \<Rightarrow> (es @ es', r)))"

text \<open>
  The set-up of \<open>main\<close>: the listening socket and the reading end of the signal pipe are watched, the handlers are installed and
  the first alarm is set. \<open>fcntl\<close> gives the results of the two \<open>fcntl\<close> calls on a descriptor, \<open>sigaction\<close> those of installing the handlers.
\<close>

definition idle_setup ::
  "server_env \<Rightarrow> int \<Rightarrow> (int \<times> int) option \<Rightarrow> (int \<Rightarrow> int \<times> int) \<Rightarrow> (nat \<Rightarrow> int) \<Rightarrow> 'l \<Rightarrow> string list
     \<Rightarrow> sys_call list \<times> (cpp_error + idle_effect list \<times> 'l idle_server)" where
  "idle_setup env epollfd pair fcntl sigaction no_timers args =
     (case open_server env args of
        (calls, Inl e) \<Rightarrow> (calls, Inl e)
      | (calls, Inr sock) \<Rightarrow>
          (calls,
           if epollfd = -1 then Inl AssertionFailed
           else case pair of
             None \<Rightarrow> Inl AssertionFailed
           | Some (p0, p1) \<Rightarrow>
               if sigaction SIGALRM = -1 \<or> sigaction SIGTERM = -1 then Inl AssertionFailed
               else (case addfd (fcntl sock) sock
                            \<lparr>serv_sock = sock, pipefd0 = p0, pipefd1 = p1, epolled = {}, sig_pipe = [], timer_lst = no_timers,
                             timeout = False, stop_server = False, open_conns = {}, last_active = (\<lambda>_. 0)\<rparr> of
                       (es1, s1) \<Rightarrow>
                         (case addfd (fcntl p0) p0 s1 of
                            (es2, s2) \<Rightarrow>
                              Inr (es1 @ map Sys (fst (idle_set_nonblocking (fst (fcntl p1)) (snd (fcntl p1)) p1)) @ es2 @ [Alarm TIMESLOT],
                                   s2)))))"

section \<open>The invariant\<close>

text \<open>Exactly the open connections have a timer, set three slots after their last activity.\<close>

definition idle_inv :: "('l \<Rightarrow> int \<Rightarrow> int option) \<Rightarrow> 'l idle_server \<Rightarrow> bool" where
  "idle_inv expires s \<longleftrightarrow>
     (\<forall>f. expires (timer_lst s) f = (if f \<in> open_conns s then Some (last_active s f + 3 * TIMESLOT) else None))"

text \<open>
  What the kernel guarantees: only open connections are reported readable, and \<open>accept\<close> does not return one that is open.
\<close>

definition event_ok :: "idle_event \<Rightarrow> 'l idle_server \<Rightarrow> bool" where
  "event_ok ev s =
     (if ev_fd ev = serv_sock s then ev_accept ev \<notin> open_conns s
      else ev_fd ev = pipefd0 s \<or> ev_fd ev \<in> open_conns s)"

lemma timer_lawsD:
  assumes "timer_laws T expires"
  shows "expires l f = None \<Longrightarrow> expires (add_timer T f e l) = (expires l)(f \<mapsto> e)"
    and "expires l f \<noteq> None \<Longrightarrow> expires (del_timer T f l) = (expires l)(f := None)"
    and "expires l f \<noteq> None \<Longrightarrow> expires (adjust_timer T f e l) = (expires l)(f \<mapsto> e)"
    and "set (fst (tick T now l)) = {f. \<exists>e. expires l f = Some e \<and> e \<le> now}"
    and "expires (snd (tick T now l)) = (\<lambda>f. case expires l f of None \<Rightarrow> None | Some e \<Rightarrow> if e \<le> now then None else Some e)"
  using assms unfolding timer_laws_def by blast+

lemma read_signals_frame:
  "timer_lst (read_signals cs s) = timer_lst s \<and> open_conns (read_signals cs s) = open_conns s
   \<and> last_active (read_signals cs s) = last_active s \<and> serv_sock (read_signals cs s) = serv_sock s
   \<and> pipefd0 (read_signals cs s) = pipefd0 s \<and> pipefd1 (read_signals cs s) = pipefd1 s
   \<and> sig_pipe (read_signals cs s) = sig_pipe s
   \<and> timeout (read_signals cs s) = (timeout s \<or> char_of SIGALRM \<in> set cs)
   \<and> stop_server (read_signals cs s) = (stop_server s \<or> char_of SIGTERM \<in> set cs)"
proof (induction cs arbitrary: s)
  case (Cons c cs)
  have "of_char c = n \<longleftrightarrow> c = char_of n" if "n < 256" for n :: nat
    using that by (metis char_of_char of_char_of mod_less)
  from this [of SIGALRM] this [of SIGTERM] show ?case
    using Cons by (auto simp: SIGALRM_def SIGTERM_def)
qed simp

lemma read_pipe_frame:
  "timer_lst (read_pipe ev s) = timer_lst s" "open_conns (read_pipe ev s) = open_conns s"
  "last_active (read_pipe ev s) = last_active s" "serv_sock (read_pipe ev s) = serv_sock s"
  "pipefd0 (read_pipe ev s) = pipefd0 s" "pipefd1 (read_pipe ev s) = pipefd1 s"
  by (auto simp: read_pipe_def read_signals_frame split: read_result.splits)

lemma accept_client_inv:
  assumes "timer_laws T expires" "idle_inv expires s" "ev_accept ev \<notin> open_conns s" "accept_client T ev s = Inr (es, s')"
  shows "idle_inv expires s'"
  using assms(2-4) timer_lawsD(1) [OF assms(1), of "timer_lst s" "ev_accept ev"]
  by (auto simp: accept_client_def addfd_def idle_inv_def Let_def split: if_splits)

lemma close_client_inv:
  assumes "timer_laws T expires" "idle_inv expires s" "f \<in> open_conns s"
  shows "idle_inv expires (snd (close_client T f s))"
proof -
  have "expires (timer_lst s) f \<noteq> None" using assms(2,3) by (simp add: idle_inv_def)
  from timer_lawsD(2) [OF assms(1) this] show ?thesis
    using assms(2) by (simp add: close_client_def cb_func_def idle_inv_def)
qed

lemma read_client_inv:
  assumes "timer_laws T expires" "idle_inv expires s" "ev_fd ev \<in> open_conns s" "read_client T n ev s = Inr (es, s')"
  shows "idle_inv expires s'"
proof -
  have e: "expires (timer_lst s) (ev_fd ev) \<noteq> None" using assms(2,3) by (simp add: idle_inv_def)
  have c: "idle_inv expires s'" if "close_client T (ev_fd ev) s = (es, s')"
    using close_client_inv [OF assms(1-3)] that by simp
  show ?thesis
  proof (cases "ev_recv ev")
    case (Read_Error again)
    then show ?thesis using assms(2,4) c by (auto simp: read_client_def Let_def split: if_splits)
  next
    case (Read bytes)
    then show ?thesis
      using assms(2-4) c timer_lawsD(3) [OF assms(1) e]
      by (cases "bytes = []") (auto simp: read_client_def idle_inv_def Let_def split: if_splits)
  qed
qed

lemma handle_event_inv:
  assumes "timer_laws T expires" "idle_inv expires s" "event_ok ev s" "handle_event T n ev s = Inr (es, s')"
  shows "idle_inv expires s'"
proof -
  consider "ev_fd ev = serv_sock s" | "ev_fd ev \<noteq> serv_sock s" "ev_fd ev = pipefd0 s" "ev_in ev"
    | "ev_fd ev \<noteq> serv_sock s" "ev_fd ev \<noteq> pipefd0 s" "ev_in ev" | "ev_fd ev \<noteq> serv_sock s" "\<not> ev_in ev" by blast
  then show ?thesis
  proof cases
    case 1
    then show ?thesis using assms accept_client_inv by (auto simp: handle_event_def event_ok_def)
  next
    case 2
    then show ?thesis using assms(2,4) by (auto simp: handle_event_def idle_inv_def read_pipe_frame)
  next
    case 3
    then show ?thesis using assms read_client_inv by (auto simp: handle_event_def event_ok_def)
  next
    case 4
    then show ?thesis using assms(2,4) by (simp add: handle_event_def)
  qed
qed

text \<open>Handling an event changes the flags only by what it reads from the pipe, and the descriptors of the server never.\<close>

definition reads_pipe :: "idle_event \<Rightarrow> 'l idle_server \<Rightarrow> bool" where
  "reads_pipe ev s \<longleftrightarrow> ev_fd ev \<noteq> serv_sock s \<and> ev_fd ev = pipefd0 s \<and> ev_in ev \<and> (\<forall>again. ev_recv ev \<noteq> Read_Error again)"

lemma handle_event_frame:
  assumes "handle_event T n ev s = Inr (es, s')"
  shows "serv_sock s' = serv_sock s \<and> pipefd0 s' = pipefd0 s \<and> pipefd1 s' = pipefd1 s
    \<and> sig_pipe s' = (if reads_pipe ev s then drop 1024 (sig_pipe s) else sig_pipe s)
    \<and> timeout s' = (timeout s \<or> reads_pipe ev s \<and> char_of SIGALRM \<in> set (take 1024 (sig_pipe s)))
    \<and> stop_server s' = (stop_server s \<or> reads_pipe ev s \<and> char_of SIGTERM \<in> set (take 1024 (sig_pipe s)))"
proof (cases "ev_fd ev = pipefd0 s \<and> ev_in ev \<and> ev_fd ev \<noteq> serv_sock s")
  case True
  then have "s' = read_pipe ev s" using assms by (simp add: handle_event_def)
  then show ?thesis using True
    by (cases "ev_recv ev") (auto simp: read_pipe_def read_signals_frame reads_pipe_def)
next
  case False
  then have "\<not> reads_pipe ev s" by (auto simp: reads_pipe_def)
  with False show ?thesis using assms
    by (auto simp: handle_event_def accept_client_def addfd_def read_client_def close_client_def cb_func_def Let_def
        split: if_splits read_result.splits)
qed

lemma handle_events_pipe:
  assumes "handle_events T n evs s = Inr (es, s')"
  shows "serv_sock s' = serv_sock s \<and> pipefd0 s' = pipefd0 s \<and> pipefd1 s' = pipefd1 s"
    and "(timeout s \<longrightarrow> timeout s') \<and> (stop_server s \<longrightarrow> stop_server s')"
    and "\<lbrakk>ev \<in> set evs; reads_pipe ev s\<rbrakk> \<Longrightarrow>
      (char_of SIGALRM \<in> set (take 1024 (sig_pipe s)) \<longrightarrow> timeout s')
      \<and> (char_of SIGTERM \<in> set (take 1024 (sig_pipe s)) \<longrightarrow> stop_server s')"
  using assms
proof (induction evs arbitrary: s es)
  case (Cons a evs)
  {
    case 1
    then show ?case using Cons.IH(1) handle_event_frame by (fastforce split: sum.splits)
  next
    case 2
    then show ?case using Cons.IH(2) handle_event_frame by (fastforce split: sum.splits)
  next
    case 3
    then obtain es1 s1 es2 where 1: "handle_event T n a s = Inr (es1, s1)" "handle_events T n evs s1 = Inr (es2, s')"
      by (auto split: sum.splits)
    note f = handle_event_frame [OF 1(1)] and mono = Cons.IH(2) [OF 1(2)]
    show ?case
    proof (cases "reads_pipe a s")
      case True
      then show ?thesis using f mono by auto
    next
      case False
      then have "ev \<in> set evs" "reads_pipe ev s1" "sig_pipe s1 = sig_pipe s"
        using 3(1,2) f by (auto simp: reads_pipe_def)
      then show ?thesis using Cons.IH(3) [OF _ _ 1(2)] by simp
    qed
  }
qed simp_all

fun events_ok :: "'l timer_ops \<Rightarrow> nat \<Rightarrow> idle_event list \<Rightarrow> 'l idle_server \<Rightarrow> bool" where
  "events_ok T n [] s = True"
| "events_ok T n (ev # evs) s =
     (event_ok ev s \<and> (case handle_event T n ev s of Inl e \<Rightarrow> True | Inr (es, s) \<Rightarrow> events_ok T n evs s))"

lemma handle_events_inv:
  assumes "timer_laws T expires"
  shows "idle_inv expires s \<Longrightarrow> events_ok T n evs s \<Longrightarrow> handle_events T n evs s = Inr (es, s') \<Longrightarrow> idle_inv expires s'"
proof (induction evs arbitrary: s es)
  case Nil
  then show ?case by simp
next
  case (Cons ev evs)
  then obtain es1 s1 es2 where 1: "handle_event T n ev s = Inr (es1, s1)" "handle_events T n evs s1 = Inr (es2, s')"
    by (auto split: sum.splits)
  then have "event_ok ev s" "events_ok T n evs s1" using Cons.prems(2) by auto
  then show ?case using Cons.IH [OF _ _ 1(2)] handle_event_inv [OF assms Cons.prems(1) _ 1(1)] by blast
qed

lemma run_callbacks_frame:
  "timer_lst (snd (run_callbacks fs s)) = timer_lst s" "last_active (snd (run_callbacks fs s)) = last_active s"
  "open_conns (snd (run_callbacks fs s)) = open_conns s - set fs" "stop_server (snd (run_callbacks fs s)) = stop_server s"
  "serv_sock (snd (run_callbacks fs s)) = serv_sock s" "pipefd0 (snd (run_callbacks fs s)) = pipefd0 s"
  "pipefd1 (snd (run_callbacks fs s)) = pipefd1 s"
  by (induction fs arbitrary: s) (auto simp: cb_func_def case_prod_beta)

lemma timer_handler_spec:
  assumes "timer_laws T expires" "idle_inv expires s"
  shows "open_conns (snd (timer_handler T now s)) = {f \<in> open_conns s. now < last_active s f + 3 * TIMESLOT}
    \<and> last_active (snd (timer_handler T now s)) = last_active s \<and> idle_inv expires (snd (timer_handler T now s))"
proof -
  note L = timer_lawsD [OF assms(1)]
  obtain due l where t: "tick T now (timer_lst s) = (due, l)" by (cases "tick T now (timer_lst s)")
  have due: "set due = {f \<in> open_conns s. last_active s f + 3 * TIMESLOT \<le> now}"
    using L(4) [of now "timer_lst s"] t assms(2) by (auto simp: idle_inv_def)
  have l: "expires l f = (if f \<in> open_conns s \<and> now < last_active s f + 3 * TIMESLOT then Some (last_active s f + 3 * TIMESLOT) else None)" for f
    using L(5) [of now "timer_lst s"] t assms(2) by (auto simp: idle_inv_def)
  note r = run_callbacks_frame [of due "s\<lparr>timer_lst := l\<rparr>"]
  have "open_conns (snd (timer_handler T now s)) = open_conns s - set due" "timer_lst (snd (timer_handler T now s)) = l"
    "last_active (snd (timer_handler T now s)) = last_active s"
    using r t by (simp_all add: timer_handler_def case_prod_beta)
  then show ?thesis using due l by (auto simp: idle_inv_def)
qed

text \<open>A round that ends normally: its events, and the timers if an alarm came in.\<close>

lemma idle_round_cases:
  assumes "idle_round T n now evs s = Inr (es, s')"
  obtains es1 s1 where "handle_events T n evs s = Inr (es1, s1)"
    and "timeout s1 \<Longrightarrow> s' = (snd (timer_handler T now s1))\<lparr>timeout := False\<rparr> \<and> last es = Alarm TIMESLOT \<and> es \<noteq> []"
    and "\<not> timeout s1 \<Longrightarrow> s' = s1"
proof (cases "handle_events T n evs s")
  case (Inl e)
  then show ?thesis using assms by (simp add: idle_round_def)
next
  case (Inr p)
  obtain es1 s1 where p: "p = (es1, s1)" by (cases p)
  show ?thesis
  proof (rule that [of es1 s1])
    show "handle_events T n evs s = Inr (es1, s1)" using Inr p by simp
    show "s' = (snd (timer_handler T now s1))\<lparr>timeout := False\<rparr> \<and> last es = Alarm TIMESLOT \<and> es \<noteq> []" if "timeout s1"
      using assms Inr p that by (auto simp: idle_round_def timer_handler_def split: prod.splits)
    show "s' = s1" if "\<not> timeout s1" using assms Inr p that by (simp add: idle_round_def)
  qed
qed

lemma idle_round_total:
  assumes "handle_events T n evs s = Inr p"
  shows "\<exists>es s'. idle_round T n now evs s = Inr (es, s')"
  using assms by (cases p; cases "timer_handler T now (snd p)"; cases "timeout (snd p)") (auto simp: idle_round_def)

text \<open>The rounds of the server, and the signals that arrive between them.\<close>

inductive idle_runs :: "'l timer_ops \<Rightarrow> nat \<Rightarrow> 'l idle_server \<Rightarrow> 'l idle_server \<Rightarrow> bool" for T n s0 where
  start: "idle_runs T n s0 s0"
| round: "idle_runs T n s0 s \<Longrightarrow> \<not> stop_server s \<Longrightarrow> events_ok T n evs s \<Longrightarrow> idle_round T n now evs s = Inr (es, s')
    \<Longrightarrow> idle_runs T n s0 s'"
| signal: "idle_runs T n s0 s \<Longrightarrow> idle_runs T n s0 (sig_handler sent sig s)"

lemma idle_runs_inv:
  assumes "timer_laws T expires"
  shows "idle_runs T n s0 s \<Longrightarrow> idle_inv expires s0 \<Longrightarrow> idle_inv expires s"
proof (induction rule: idle_runs.induct)
  case (round s evs now es s')
  from round.hyps(4) show ?case
  proof (cases rule: idle_round_cases)
    case (1 es1 s1)
    have "idle_inv expires s1" using handle_events_inv [OF assms _ round.hyps(3) 1(1)] round by blast
    then show ?thesis using 1(2,3) timer_handler_spec [OF assms] by (cases "timeout s1") (auto simp: idle_inv_def)
  qed
next
  case (signal s sent sig)
  then show ?case by (simp add: sig_handler_def idle_inv_def)
qed simp

lemma idle_setup_inv:
  assumes "expires no_timers = (\<lambda>_. None)" "idle_setup env epollfd pair fcntl sigaction no_timers args = (calls, Inr (es, s0))"
  shows "idle_inv expires s0"
  using assms by (auto simp: idle_setup_def addfd_def idle_inv_def split: prod.splits sum.splits if_splits option.splits)

section \<open>Properties\<close>

text \<open>
  C8. Idle connections are closed, and only they. Whatever clients did before, in a round in which an alarm is read from the
  signal pipe the connections left open are exactly those, of the ones open after the round's events, that were accepted or sent
  something less than fifteen seconds ago, and the round ends by setting the next alarm; the timers are those of the open
  connections, each due fifteen seconds after the last activity.
\<close>

theorem idle_connections_closed:
  assumes "timer_laws T expires" "expires no_timers = (\<lambda>_. None)"
    and "idle_setup env epollfd pair fcntl sigaction no_timers args = (calls, Inr (es0, s0))" "idle_runs T n s0 s"
    and "events_ok T n evs s" "idle_round T n now evs s = Inr (es, s')"
    and "ev \<in> set evs" "reads_pipe ev s" "char_of SIGALRM \<in> set (take 1024 (sig_pipe s))"
  shows "(\<exists>es1 s1. handle_events T n evs s = Inr (es1, s1)
        \<and> open_conns s' = {f \<in> open_conns s1. now < last_active s1 f + 15} \<and> last_active s' = last_active s1)
    \<and> (\<forall>f. expires (timer_lst s') f = (if f \<in> open_conns s' then Some (last_active s' f + 15) else None))
    \<and> last es = Alarm 5"
proof -
  note s0 = idle_setup_inv [of expires no_timers, OF assms(2,3)]
  have inv: "idle_inv expires s" using idle_runs_inv [OF assms(1,4) s0] .
  from assms(6) show ?thesis
  proof (cases rule: idle_round_cases)
    case (1 es1 s1)
    have "timeout s1" using handle_events_pipe(3) [OF 1(1) assms(7,8)] assms(9) by blast
    note r = 1(2) [OF this]
    have "idle_inv expires s1" using handle_events_inv [OF assms(1) inv assms(5) 1(1)] .
    from timer_handler_spec [OF assms(1) this, of now] r 1(1) show ?thesis by (auto simp: idle_inv_def TIMESLOT_def)
  qed
qed

text \<open>A concrete server for the witnesses: descriptor 3 listens, 4 and 6 are the signal pipe.\<close>

definition demo_server :: "string \<Rightarrow> (int \<times> int) list idle_server" where
  "demo_server p = \<lparr>serv_sock = 3, pipefd0 = 4, pipefd1 = 6, epolled = {4, 3}, sig_pipe = p, timer_lst = [],
     timeout = False, stop_server = False, open_conns = {}, last_active = (\<lambda>_. 0)\<rparr>"

definition demo_event :: "int \<Rightarrow> int \<Rightarrow> read_result \<Rightarrow> int \<Rightarrow> idle_event" where
  "demo_event f c r t = \<lparr>ev_fd = f, ev_in = True, ev_accept = c, ev_fcntl = (0, 0), ev_recv = r, ev_time = t\<rparr>"

lemma idle_demo_setup:
  "\<exists>calls es. idle_setup \<lparr>sv_socket = 3, sv_setsockopt = 0, sv_bind = 0, sv_listen = 0\<rparr> 7 (Some (4, 6)) (\<lambda>_. (0, 0)) (\<lambda>_. 0) []
     [''80''] = (calls, Inr (es, demo_server []))"
proof -
  have "atoi ''80'' = Some 80" by code_simp
  then show ?thesis by (simp add: idle_setup_def open_server_def addfd_def demo_server_def)
qed

theorem idle_connections_closed_witness:
  "\<exists>s es s'. idle_runs list_timers 64 (demo_server []) s \<and> open_conns s = {5}
     \<and> idle_round list_timers 64 115 [demo_event 4 0 (Read []) 115] s = Inr (es, s') \<and> open_conns s' = {} \<and> last es = Alarm 5"
proof -
  let ?in = "[demo_event 3 5 (Read []) 100]" and ?al = "[demo_event 4 0 (Read []) 115]"
  obtain calls es0 where su: "idle_setup \<lparr>sv_socket = 3, sv_setsockopt = 0, sv_bind = 0, sv_listen = 0\<rparr> 7 (Some (4, 6)) (\<lambda>_. (0, 0))
      (\<lambda>_. 0) [] [''80''] = (calls, Inr (es0, demo_server []))" using idle_demo_setup by blast
  obtain es1 s1 where 1: "idle_round list_timers 64 100 ?in (demo_server []) = Inr (es1, s1)" "open_conns s1 = {5}"
    "last_active s1 5 = 100" "sig_pipe s1 = []" "serv_sock s1 = 3" "pipefd0 s1 = 4"
    by (simp add: idle_round_def handle_event_def accept_client_def FD_LIMIT_def addfd_def demo_server_def demo_event_def)
  define s where "s = sig_handler True SIGALRM s1"
  have s: "open_conns s = {5}" "last_active s 5 = 100" "sig_pipe s = [char_of SIGALRM]" "serv_sock s = 3" "pipefd0 s = 4"
    using 1 by (simp_all add: s_def sig_handler_def)
  have "idle_runs list_timers 64 (demo_server []) s1"
    using idle_runs.round [OF idle_runs.start _ _ 1(1)]
    by (simp add: event_ok_def handle_event_def accept_client_def FD_LIMIT_def demo_server_def demo_event_def addfd_def)
  then have run: "idle_runs list_timers 64 (demo_server []) s" unfolding s_def by (rule idle_runs.signal)
  have h: "handle_events list_timers 64 ?al s = Inr ([], read_pipe (hd ?al) s)"
    using s by (simp add: handle_event_def demo_event_def)
  then obtain es s' where r: "idle_round list_timers 64 115 ?al s = Inr (es, s')" using idle_round_total by blast
  have ok: "events_ok list_timers 64 ?al s" "hd ?al \<in> set ?al" "reads_pipe (hd ?al) s" "char_of SIGALRM \<in> set (take 1024 (sig_pipe s))"
    using s by (simp_all add: event_ok_def handle_event_def demo_event_def reads_pipe_def)
  have "open_conns s' = {}" "last es = Alarm 5"
    using idle_connections_closed [where expires = map_of, OF list_timers_laws _ su run ok(1) r ok(2-4)] h s(1,2)
    by (auto simp: read_pipe_frame fun_eq_iff)
  then show ?thesis using run s(1) r by blast
qed

text \<open>
  C29. A termination signal stops the server. Once the signal's byte is in the pipe, among the first 1024, and the pipe is reported
  readable in a batch that is handled without an error, the loop ends after that batch: whatever else would follow, no further
  event is handled, the listening socket and both ends of the pipe are closed and 0 is returned.
\<close>

theorem sigterm_stops:
  assumes "\<not> stop_server s" "idle_round T n now evs s = Inr (es, s')"
    and "ev \<in> set evs" "reads_pipe ev s" "char_of SIGTERM \<in> set (take 1024 (sig_pipe s))"
  shows "idle_loop T n ((Epoll_Events evs, now) # rest) s =
    (es @ [Sys (Close (serv_sock s)), Sys (Close (pipefd1 s)), Sys (Close (pipefd0 s))], Returned 0)"
  using assms(2)
proof (cases rule: idle_round_cases)
  case (1 es1 s1)
  note p = handle_events_pipe [OF 1(1)]
  have "stop_server s1" using p(3) [OF assms(3,4)] assms(5) by blast
  then have "stop_server s' \<and> serv_sock s' = serv_sock s \<and> pipefd0 s' = pipefd0 s \<and> pipefd1 s' = pipefd1 s"
    using 1(2,3) p(1) by (cases "timeout s1") (auto simp: timer_handler_def run_callbacks_frame case_prod_beta)
  moreover have "idle_loop T n rest s' = (shut_down s', Returned 0)" if "stop_server s'"
    using that by (cases rest) auto
  ultimately show ?thesis using assms(1,2) by (simp add: shut_down_def)
qed

theorem sigterm_stops_witness:
  "\<exists>es. idle_loop list_timers 64 [(Epoll_Events [demo_event 4 0 (Read []) 1], 1), (Epoll_Interrupted, 2)]
     (sig_handler True SIGTERM (demo_server [])) = (es, Returned 0)"
proof -
  let ?s = "sig_handler True SIGTERM (demo_server [])" and ?ev = "demo_event 4 0 (Read []) 1"
  have s: "sig_pipe ?s = [char_of SIGTERM]" "serv_sock ?s = 3" "pipefd0 ?s = 4" "\<not> stop_server ?s"
    by (simp_all add: sig_handler_def demo_server_def)
  have "handle_events list_timers 64 [?ev] ?s = Inr ([], read_pipe ?ev ?s)"
    using s by (simp add: handle_event_def demo_event_def)
  then obtain es s' where r: "idle_round list_timers 64 1 [?ev] ?s = Inr (es, s')" using idle_round_total by blast
  have "reads_pipe ?ev ?s" using s by (simp add: reads_pipe_def demo_event_def)
  from sigterm_stops [OF s(4) r _ this] s(1) show ?thesis by auto
qed

text \<open>
  The echo is padded. Whatever a client sends, the reply has \<open>BUFFER_SIZE - 1\<close> bytes: the bytes received followed by
  NULs, since the length of the buffer is sent and not the number of bytes read. A client gets its own bytes back exactly when it sent
  that many or more at once.
\<close>

theorem echo_padded:
  assumes "ev_recv ev = Read bytes" "bytes \<noteq> []" "0 \<le> ev_fd ev" "ev_fd ev < FD_LIMIT" "1 < buffer_size"
  shows "\<exists>s' msg. read_client T buffer_size ev s = Inr ([Sent (ev_fd ev) msg], s')
    \<and> msg = take (buffer_size - 1) bytes @ replicate (buffer_size - 1 - length bytes) NUL
    \<and> length msg = buffer_size - 1 \<and> (msg = take (buffer_size - 1) bytes \<longleftrightarrow> buffer_size - 1 \<le> length bytes)"
proof -
  have "take (buffer_size - 1) (take (buffer_size - 1) bytes @ replicate (buffer_size - length (take (buffer_size - 1) bytes)) NUL)
      = take (buffer_size - 1) bytes @ replicate (buffer_size - 1 - length bytes) NUL"
    by (cases "length bytes \<le> buffer_size - 1") auto
  then show ?thesis using assms by (auto simp: read_client_def Let_def)
qed

theorem echo_padded_witness:
  "\<exists>s' msg. read_client list_timers 4 (demo_event 5 0 (Read ''a'') 0) (demo_server []) = Inr ([Sent 5 msg], s') \<and> length msg = 3"
  using echo_padded [of "demo_event 5 0 (Read ''a'') 0" "''a''" 4 list_timers "demo_server []"]
  by (auto simp: FD_LIMIT_def demo_event_def)

end
