(* ===== verification/Spec2Isabelle.thy ===== *)
theory Spec2Isabelle
  imports Block_Queue Http_Conn Http_Main Sql_Pool Thread_Pool Async_Log Task_Main Chat_Server Chat_Client Epoll_Oneshot Idle_Server
begin

text \<open>
  A verification development for the C++ programs of the repository. Most of them stand in the directory of the
  figures of the networking notes (called NET below, the directory that holds \<open>httprequest.cpp\<close>); the growing thread pool is \<open>9\<close> of the
  hand-written algorithms. The repository has two groups of programs.

  \<^item> The parts of a web server: a blocking queue, a log that uses it, a pool of database connections, a pool of worker
    threads that borrows connections, and two methods of the HTTP connection class. They are called by code that is not in the repository.
  \<^item> Complete programs: an HTTP request parser serving five clients, a chat server and its client, an edge-triggered
    server with a thread per event, a server that closes idle connections, a non-blocking connect, and a growing thread pool with an example.

  \<^bold>\<open>Conventions.\<close> A class or the variables of a loop are a record, an operation a function on it, a failing operation
  returns a sum whose left side is a \<open>cpp_error\<close> (undefined behaviour, \<open>exit\<close>, an exception, a failed \<open>assert\<close>). Array
  accesses are checked (\<open>load\<close>, \<open>store\<close>, \<open>peek\<close>, \<open>poke\<close>), so that memory safety is that no error comes out. What the kernel returns
  (accepted descriptors, received bytes, ready events, the clock) is an argument, as is every class that is not in the repository. Threads interleave
  at the granularity of critical sections and atomic accesses. Integers are mathematical with the conversions written out where they matter;
  event masks are words of their width.

  \<^bold>\<open>Shared theories.\<close>
  \<^item> \<open>Prelude\<close>: errors, checked accesses, truncating remainders, the counter \<open>cnt\<close> over program counters.
  \<^item> \<open>Fifo\<close>: the locales \<open>fifo\<close> and \<open>bounded_fifo\<close> of a queue over the list it represents. Interpreted by the ring buffer
    (\<open>bq\<close>), the request queue of the worker pool (\<open>wq\<close>) and the task queue of the growing pool (\<open>tq\<close>).
  \<^item> \<open>Resource\<close>: the semaphore \<open>sem\<close> as an argument with its laws, and the locale \<open>resource_pool\<close> of a scoped
    borrowing, interpreted by \<open>connectionRAII\<close> (\<open>conn\<close>) and used by the worker pool.
  \<^item> \<open>Interleaving\<close>: reachability and schedules of a system of atomic actions, and the locale \<open>interleaving\<close> that carries an
    invariant along them. Interpreted by the connection pool (\<open>conns\<close>), the worker pool (\<open>tps\<close>), the growing pool (\<open>pools\<close>), its
    example program (\<open>mains\<close>) and the log with its two threads (\<open>lg\<close>).
  \<^item> \<open>C_Strings\<close>, \<open>C_Format\<close>: the functions of the C library that the parser, the log and the servers call.
  \<^item> \<open>Sockets\<close>: opening a listening socket, as the four servers do it word for word; the four copies of the function that makes
    a descriptor non-blocking; \<open>nonblockconnect.cpp\<close>.

  \<^bold>\<open>Components.\<close>
  \<^item> \<open>Block_Queue\<close> (NET \<open>block_queue.h\<close>): the ring buffer is a bounded FIFO queue, stays well typed within 32 bits and never accesses its array out of
    range; both waiting removals; \<open>front\<close> is off by one and the deadline of the timed removal is in the wrong unit.
  \<^item> \<open>Async_Log\<close> (\<open>log.h\<close>, \<open>log.cpp\<close>): under every interleaving of the critical sections of one logging thread and the writing thread no line is lost or
    duplicated, and why a section can fail; which file a line goes to, over any days; the exact condition for the line buffer to suffice; the race that loses a line.
  \<^item> \<open>Sql_Pool\<close> (\<open>sql_connection_pool.h\<close>, \<open>sql_connection_pool.cpp\<close>): under every interleaving no connection is lost or held twice, and a thread
    waits only for a reason; initialisation, scoped borrowing, destruction under use.
  \<^item> \<open>Thread_Pool\<close> (\<open>threadpool.h\<close>): under every interleaving requests are started once, in order, and no wake-up is lost; a worker drains the
    queue and gives every connection back.
  \<^item> \<open>Http_Parser\<close>, \<open>Http_Main\<close> (\<open>httprequest.cpp\<close>): the in-place parser refines a specification over byte sequences, so its
    answer does not depend on how the network cuts the request; \<open>main\<close> serves exactly five clients.
  \<^item> \<open>Http_Conn\<close> (\<open>parse_line.cpp\<close>, \<open>process_read.cpp\<close>): the second line scanner is equivalent to the first, the state machine
    terminates, and it reports a malformed line as an incomplete request.
  \<^item> \<open>Task_Pool\<close>, \<open>Task_Main\<close> (the growing thread pool): counters and bounds under every interleaving of workers, manager, adding threads
    and destructor; lost wake-ups; the example program runs no task twice.
  \<^item> \<open>Chat_Server\<close>, \<open>Chat_Client\<close> (\<open>chat_serv.cpp\<close>, \<open>chat_client.cpp\<close>): the table of polled descriptors is exactly the set of open connections and
    what can stop a round of events, among it an over-read of the uninitialised client data; a message goes to every other client once; the client relays what is typed; below, both
    together deliver a message.
  \<^item> \<open>Epoll_Oneshot\<close> (\<open>epollet.cpp\<close>): one thread per client, with batches of events interleaved with the threads, if threads start promptly, and what happens if
    they do not.
  \<^item> \<open>Idle_Server\<close> (\<open>nonactive_conn.cpp\<close>): exactly the idle connections are closed; a termination signal stops the server.

  \<^bold>\<open>Loops and fuel.\<close> Loops are structural recursion over the given results of the system calls, or functions with a measure (\<open>parse_line\<close>,
  \<open>parse_content\<close>, \<open>serve_client\<close>). Fuel occurs twice. The loop over the chat server's table stays at its index when a client
  leaves; 18 passes are enough for the listening socket and five entries, since each pass moves on or removes an entry, and
  \<open>chat_server_safe\<close> says that with this fuel a round gives a result. \<open>process_read\<close> calls methods that are not in the repository and is a partial function; its
  termination is a theorem under the hypothesis that these methods leave the scanner's indices alone. Blocking calls are a value of their own, or
  the end of the list of results.

  \<^bold>\<open>Not modelled.\<close> The classes \<open>locker\<close>, \<open>cond\<close> and \<open>sem\<close>, the timer list of \<open>lst_timer.h\<close>, the request class with its methods and the MySQL library are not in the
  repository: they are arguments, with documented behaviour as named hypotheses (\<open>sem_laws\<close>, \<open>timer_laws\<close>, \<open>ops_frame\<close>), each shown to hold of a concrete
  instance. Destructors that only free memory, the text of diagnostic output other than what a property speaks of, the peer's address, and \<open>sleep\<close> have no counterpart.
  A client of \<open>httprequest.cpp\<close> that stays silent without closing blocks the program; the model's clients end their input. \<open>test.cpp\<close> prints a
  constant. The notes themselves are documents.
\<close>



end
